(* ===== verification/Prelude.thy ===== *)
theory Prelude
  imports Main "HOL-Library.Word" "HOL-Library.AList" "HOL-Library.Product_Lexorder" "HOL-Library.Multiset"
begin

text \<open>
  What the component theories share: the machine integers the Rust sources use
  (64-bit signed milliseconds as \<^typ>\<open>int\<close> with saturation written out), the
  operations of Rust's \<^verbatim>\<open>str\<close> on byte strings, stable sorting in descending
  order, and the collections of rewrite rules the component proofs draw on.  A
  Rust string is its UTF-8 byte sequence, one \<^typ>\<open>char\<close> per byte.
\<close>

named_theorems str_simps \<open>characterisations of the string operations\<close>
named_theorems sql_simps \<open>effect of the table statements on the abstract table\<close>
named_theorems inv_intros \<open>introduction rules for component invariants\<close>

section \<open>Signed 64-bit integers\<close>

definition i64_max :: int where
  "i64_max = 2 ^ 63 - 1"

definition i64_min :: int where
  "i64_min = - (2 ^ 63)"

definition i64_sat_add :: "int \<Rightarrow> int \<Rightarrow> int" where
  "i64_sat_add a b = max i64_min (min i64_max (a + b))"

definition i64_sat_sub :: "int \<Rightarrow> int \<Rightarrow> int" where
  "i64_sat_sub a b = max i64_min (min i64_max (a - b))"

lemma i64_sat_add_exact:
  "i64_min \<le> a + b \<Longrightarrow> a + b \<le> i64_max \<Longrightarrow> i64_sat_add a b = a + b"
  by (simp add: i64_sat_add_def)

lemma i64_sat_add_le: "i64_sat_add a b \<le> i64_max"
  by (simp add: i64_sat_add_def i64_max_def i64_min_def)

lemma i64_sat_add_mono: "b \<le> c \<Longrightarrow> i64_sat_add a b \<le> i64_sat_add a c"
  by (auto simp: i64_sat_add_def)

section \<open>Byte strings\<close>

definition ascii_lower :: "char \<Rightarrow> char" where
  "ascii_lower c =
     (let n = of_char c :: nat in if 65 \<le> n \<and> n \<le> 90 then char_of (n + 32) else c)"

definition eq_ignore_ascii_case :: "string \<Rightarrow> string \<Rightarrow> bool" where
  "eq_ignore_ascii_case a b = (map ascii_lower a = map ascii_lower b)"

definition starts_with :: "string \<Rightarrow> string \<Rightarrow> bool" where
  "starts_with s p = (take (length p) s = p)"

definition ends_with :: "string \<Rightarrow> string \<Rightarrow> bool" where
  "ends_with s p = (length p \<le> length s \<and> drop (length s - length p) s = p)"

definition strip_prefix :: "string \<Rightarrow> string \<Rightarrow> string option" where
  "strip_prefix s p = (if starts_with s p then Some (drop (length p) s) else None)"

definition strip_suffix :: "string \<Rightarrow> string \<Rightarrow> string option" where
  "strip_suffix s p =
     (if ends_with s p then Some (take (length s - length p) s) else None)"

definition is_space :: "char \<Rightarrow> bool" where
  "is_space ch = (ch = CHR '' '' \<or> ch = CHR 0x09 \<or> ch = CHR 0x0A \<or> ch = CHR 0x0B \<or> ch = CHR 0x0C \<or> ch = CHR 0x0D)"

definition trim :: "string \<Rightarrow> string" where
  "trim s = rev (dropWhile is_space (rev (dropWhile is_space s)))"

definition trim_end_matches :: "char \<Rightarrow> string \<Rightarrow> string" where
  "trim_end_matches c s = rev (dropWhile (\<lambda>x. x = c) (rev s))"

lemma starts_with_iff [str_simps]: "starts_with s p \<longleftrightarrow> (\<exists>r. s = p @ r)"
  by (metis append_eq_conv_conj append_take_drop_id starts_with_def)

lemma ends_with_iff [str_simps]: "ends_with s p \<longleftrightarrow> (\<exists>r. s = r @ p)"
proof
  assume "ends_with s p"
  then show "\<exists>r. s = r @ p"
    unfolding ends_with_def by (metis append_take_drop_id)
qed (auto simp: ends_with_def)

lemma strip_prefix_Some [str_simps]: "strip_prefix s p = Some r \<longleftrightarrow> s = p @ r"
  by (auto simp: strip_prefix_def str_simps)

lemma strip_prefix_None [str_simps]: "strip_prefix s p = None \<longleftrightarrow> (\<nexists>r. s = p @ r)"
  by (auto simp: strip_prefix_def str_simps)

lemma strip_suffix_Some [str_simps]: "strip_suffix s p = Some r \<longleftrightarrow> s = r @ p"
  by (auto simp: strip_suffix_def str_simps)

lemma strip_suffix_None [str_simps]: "strip_suffix s p = None \<longleftrightarrow> (\<nexists>r. s = r @ p)"
  by (auto simp: strip_suffix_def str_simps)

lemma eq_ignore_ascii_case_refl [simp]: "eq_ignore_ascii_case a a"
  by (simp add: eq_ignore_ascii_case_def)

lemma eq_ignore_ascii_case_sym:
  "eq_ignore_ascii_case a b \<Longrightarrow> eq_ignore_ascii_case b a"
  by (simp add: eq_ignore_ascii_case_def)

lemma eq_ignore_ascii_case_trans:
  "eq_ignore_ascii_case a b \<Longrightarrow> eq_ignore_ascii_case b c \<Longrightarrow> eq_ignore_ascii_case a c"
  by (simp add: eq_ignore_ascii_case_def)

lemma eq_ignore_ascii_case_length:
  "eq_ignore_ascii_case a b \<Longrightarrow> length a = length b"
  unfolding eq_ignore_ascii_case_def by (metis length_map)

section \<open>Options and multisets\<close>

lemma option_eqI: "(\<And>x. a = Some x \<longleftrightarrow> b = Some x) \<Longrightarrow> a = b"
  by (cases a; cases b) auto

lemma mset_single_conv: "mset xs = {#x#} \<longleftrightarrow> xs = [x]"
  by (cases xs) (auto simp: single_is_union)

section \<open>Stable descending sort\<close>

definition sort_desc_key :: "('a \<Rightarrow> 'k::linorder) \<Rightarrow> 'a list \<Rightarrow> 'a list" where
  "sort_desc_key f xs = rev (sort_key f (rev xs))"

lemma set_sort_desc_key [simp]: "set (sort_desc_key f xs) = set xs"
  by (simp add: sort_desc_key_def)

lemma mset_sort_desc_key [simp]: "mset (sort_desc_key f xs) = mset xs"
  by (simp add: sort_desc_key_def)

lemma length_sort_desc_key [simp]: "length (sort_desc_key f xs) = length xs"
  by (simp add: sort_desc_key_def)

lemma sort_desc_key_sorted: "sorted_wrt (\<lambda>x y. f y \<le> f x) (sort_desc_key f xs)"
  using sorted_sort_key [of f "rev xs"]
  by (simp add: sort_desc_key_def sorted_map sorted_wrt_rev)

lemma filter_sort_desc_key: "filter P (sort_desc_key f xs) = sort_desc_key f (filter P xs)"
  by (simp add: sort_desc_key_def filter_sort rev_filter [symmetric])

lemma sort_desc_key_stable:
  "filter (\<lambda>x. f x = k) (sort_desc_key f xs) = filter (\<lambda>x. f x = k) xs"
  by (simp add: sort_desc_key_def sort_key_stable rev_filter [symmetric])

text \<open>The first element satisfying \<open>P\<close> of the sorted list is the first, in the original
  order, among those satisfying \<open>P\<close> with the largest key.\<close>

lemma find_sort_desc_key:
  assumes "find P (sort_desc_key f xs) = Some x"
  shows "P x" and "x \<in> set xs" and "\<And>y. y \<in> set xs \<Longrightarrow> P y \<Longrightarrow> f y \<le> f x"
    and "find (\<lambda>y. P y \<and> f y = f x) xs = Some x"
proof -
  let ?fs = "sort_desc_key f (filter P xs)"
  have fs: "?fs = filter P (sort_desc_key f xs)"
    by (simp add: filter_sort_desc_key)
  have find_hd: "find Q ys = Some z \<Longrightarrow> \<exists>zs. filter Q ys = z # zs" for Q and ys :: "'a list" and z
    by (induction ys) (auto split: if_splits)
  obtain zs where zs: "?fs = x # zs"
    using find_hd [OF assms] fs by auto
  show "P x" "x \<in> set xs"
    using zs fs set_sort_desc_key [of f "filter P xs"] by (auto dest: arg_cong [where f = set])
  show le: "f y \<le> f x" if "y \<in> set xs" "P y" for y
  proof -
    have "y \<in> set (x # zs)"
      using that zs set_sort_desc_key [of f "filter P xs"] by auto
    then show ?thesis
      using sort_desc_key_sorted [of f "filter P xs"] zs by auto
  qed
  have "filter (\<lambda>y. f y = f x) (filter P xs) = x # filter (\<lambda>y. f y = f x) zs"
    using sort_desc_key_stable [of f "f x" "filter P xs"] zs by simp
  then have "filter (\<lambda>y. P y \<and> f y = f x) xs = x # filter (\<lambda>y. f y = f x) zs"
    by (simp add: conj_commute)
  moreover have "filter Q ys = z # zs' \<Longrightarrow> find Q ys = Some z"
    for Q and ys :: "'a list" and z zs'
    by (induction ys) (auto split: if_splits)
  ultimately show "find (\<lambda>y. P y \<and> f y = f x) xs = Some x"
    by blast
qed

lemma find_None_sort_desc_key:
  "find P (sort_desc_key f xs) = None \<longleftrightarrow> (\<forall>x\<in>set xs. \<not> P x)"
  by (auto simp: find_None_iff)

end
