(* ===== verification/Routing.thy ===== *)
theory Routing
  imports Prelude
begin

text \<open>
  The request router of the server (\<^verbatim>\<open>tako-server/src/routing.rs\<close>): the table of
  route patterns per app, its compiled form sorted by specificity, and the
  selection of an app for a host and a path.  A Rust \<^verbatim>\<open>HashMap\<close> is an association
  list with distinct keys; the order in which iterating it yields the entries is
  unspecified, and is the parameter \<open>iter\<close>, a permutation.
\<close>

section \<open>Data\<close>

datatype source_ip_mode = Auto | Direct | CloudflareProxy | TrustedProxy

type_synonym specificity = "nat \<times> nat \<times> nat"

record route_entry =
  re_app :: string
  re_pattern :: string
  re_source_ip :: source_ip_mode

record compiled_route_entry =
  ce_app :: string
  ce_host :: string
  ce_path :: "string option"
  ce_source_ip :: source_ip_mode
  ce_specificity :: specificity

type_synonym app_routes_map = "(string \<times> string list) list"

record route_table =
  app_routes :: app_routes_map
  app_source_ip :: "(string \<times> source_ip_mode) list"
  compiled :: "compiled_route_entry list"

record selected_route =
  sel_app :: string
  sel_path :: "string option"
  sel_source_ip :: source_ip_mode

section \<open>Matching a pattern\<close>

definition split_route :: "string \<Rightarrow> string \<times> string option" where
  "split_route route =
     (if CHR ''/'' \<in> set route
      then (takeWhile (\<lambda>c. c \<noteq> CHR ''/'') route,
            Some (dropWhile (\<lambda>c. c \<noteq> CHR ''/'') route))
      else (route, None))"

definition hostname_matches :: "string \<Rightarrow> string \<Rightarrow> bool" where
  "hostname_matches pattern hostname =
     (case strip_prefix pattern ''*.'' of
        Some suffix \<Rightarrow>
          if eq_ignore_ascii_case hostname suffix then False
          else length hostname > length suffix
               \<and> hostname ! (length hostname - length suffix - 1) = CHR ''.''
               \<and> eq_ignore_ascii_case (drop (length hostname - length suffix) hostname) suffix
      | None \<Rightarrow> eq_ignore_ascii_case pattern hostname)"

definition normalize_exact_path :: "string \<Rightarrow> string" where
  "normalize_exact_path path =
     (if path = ''/'' then ''/''
      else let trimmed = trim_end_matches (CHR ''/'') path
           in if trimmed = [] then ''/'' else trimmed)"

definition path_matches :: "string \<Rightarrow> string \<Rightarrow> bool" where
  "path_matches pattern path =
     (case strip_suffix pattern ''/*'' of
        Some prefix \<Rightarrow>
          starts_with path prefix
          \<and> (length path = length prefix \<or> starts_with (drop (length prefix) path) ''/'')
      | None \<Rightarrow>
          if ends_with pattern ''*''
          then starts_with path (take (length pattern - 1) pattern)
          else normalize_exact_path pattern = normalize_exact_path path)"

definition route_specificity :: "string \<Rightarrow> specificity" where
  "route_specificity pattern =
     (if pattern = [] then (0, 0, 0)
      else
        let (pattern_host, pattern_path) = split_route pattern;
            host_score = (if starts_with pattern_host ''*.'' then 1 else 2);
            (path_len, exact_bonus) =
              (case pattern_path of
                 None \<Rightarrow> (0, 0)
               | Some p \<Rightarrow>
                   (case strip_suffix p ''/*'' of
                      Some prefix \<Rightarrow> (length prefix, 0)
                    | None \<Rightarrow>
                        if ends_with p ''*'' then (length (take (length p - 1) p), 0)
                        else (length (normalize_exact_path p), 1)))
        in (host_score, path_len, exact_bonus))"

definition route_matches :: "string \<Rightarrow> string \<Rightarrow> string \<Rightarrow> bool" where
  "route_matches pattern host path =
     (if pattern = [] then False
      else
        let (pattern_host, pattern_path) = split_route pattern
        in if \<not> hostname_matches pattern_host host then False
           else (case pattern_path of None \<Rightarrow> True | Some p \<Rightarrow> path_matches p path))"

section \<open>Compilation and selection\<close>

definition compile_route :: "route_entry \<Rightarrow> compiled_route_entry" where
  "compile_route entry =
     (let (pattern_host, pattern_path) = split_route (re_pattern entry)
      in \<lparr>ce_app = re_app entry, ce_host = pattern_host, ce_path = pattern_path,
          ce_source_ip = re_source_ip entry,
          ce_specificity = route_specificity (re_pattern entry)\<rparr>)"

definition compile_routes :: "route_entry list \<Rightarrow> compiled_route_entry list" where
  "compile_routes routes =
     sort_desc_key ce_specificity
       (map compile_route (filter (\<lambda>entry. re_pattern entry \<noteq> []) routes))"

fun select_route_for_request_compiled ::
    "compiled_route_entry list \<Rightarrow> string \<Rightarrow> string \<Rightarrow> selected_route option" where
  "select_route_for_request_compiled [] host path = None"
| "select_route_for_request_compiled (entry # routes) host path =
     (if \<not> hostname_matches (ce_host entry) host
      then select_route_for_request_compiled routes host path
      else if (case ce_path entry of Some p \<Rightarrow> \<not> path_matches p path | None \<Rightarrow> False)
      then select_route_for_request_compiled routes host path
      else Some \<lparr>sel_app = ce_app entry, sel_path = ce_path entry,
                 sel_source_ip = ce_source_ip entry\<rparr>)"

definition select_app_for_request_compiled ::
    "compiled_route_entry list \<Rightarrow> string \<Rightarrow> string \<Rightarrow> string option" where
  "select_app_for_request_compiled routes host path =
     map_option sel_app (select_route_for_request_compiled routes host path)"

fun select_app_loop ::
    "string \<Rightarrow> string \<Rightarrow> (route_entry \<times> specificity) option \<Rightarrow> route_entry list
     \<Rightarrow> (route_entry \<times> specificity) option" where
  "select_app_loop host path best [] = best"
| "select_app_loop host path best (entry # routes) =
     (if \<not> route_matches (re_pattern entry) host path
      then select_app_loop host path best routes
      else let spec = route_specificity (re_pattern entry)
           in select_app_loop host path
                (case best of
                   None \<Rightarrow> Some (entry, spec)
                 | Some (e, best_spec) \<Rightarrow>
                     if spec > best_spec then Some (entry, spec) else best) routes)"

definition select_app_for_request ::
    "route_entry list \<Rightarrow> string \<Rightarrow> string \<Rightarrow> string option" where
  "select_app_for_request routes host path =
     map_option (\<lambda>(e, _). re_app e) (select_app_loop host path None routes)"

section \<open>The route table\<close>

definition route_table_default :: route_table where
  "route_table_default = \<lparr>app_routes = [], app_source_ip = [], compiled = []\<rparr>"

definition table_entries ::
    "(app_routes_map \<Rightarrow> app_routes_map) \<Rightarrow> route_table \<Rightarrow> route_entry list" where
  "table_entries iter t =
     concat (map (\<lambda>(app, patterns).
       let source_ip = (case map_of (app_source_ip t) app of Some m \<Rightarrow> m | None \<Rightarrow> Auto)
       in map (\<lambda>pattern. \<lparr>re_app = app, re_pattern = pattern, re_source_ip = source_ip\<rparr>)
            (filter (\<lambda>pattern. pattern \<noteq> []) patterns))
       (iter (app_routes t)))"

definition rebuild :: "(app_routes_map \<Rightarrow> app_routes_map) \<Rightarrow> route_table \<Rightarrow> route_table" where
  "rebuild iter t = t\<lparr>compiled := compile_routes (table_entries iter t)\<rparr>"

definition set_app_routes_with_source_ip ::
    "(app_routes_map \<Rightarrow> app_routes_map) \<Rightarrow> string \<Rightarrow> string list \<Rightarrow> source_ip_mode
     \<Rightarrow> route_table \<Rightarrow> route_table" where
  "set_app_routes_with_source_ip iter app routes source_ip t =
     (let t1 = t\<lparr>app_source_ip := AList.update app source_ip (app_source_ip t)\<rparr>;
          t2 = t1\<lparr>app_routes := AList.update app routes (app_routes t1)\<rparr>
      in rebuild iter t2)"

definition set_app_routes ::
    "(app_routes_map \<Rightarrow> app_routes_map) \<Rightarrow> string \<Rightarrow> string list \<Rightarrow> route_table \<Rightarrow> route_table" where
  "set_app_routes iter app routes t = set_app_routes_with_source_ip iter app routes Auto t"

definition remove_app_routes ::
    "(app_routes_map \<Rightarrow> app_routes_map) \<Rightarrow> string \<Rightarrow> route_table \<Rightarrow> route_table" where
  "remove_app_routes iter app t =
     (let t1 = t\<lparr>app_routes := AList.delete app (app_routes t)\<rparr>;
          t2 = t1\<lparr>app_source_ip := AList.delete app (app_source_ip t1)\<rparr>
      in rebuild iter t2)"

definition routes_for_app :: "string \<Rightarrow> route_table \<Rightarrow> string list" where
  "routes_for_app app t =
     (case map_of (app_routes t) app of Some routes \<Rightarrow> routes | None \<Rightarrow> [])"

definition needs_cloudflare_ip_ranges :: "route_table \<Rightarrow> bool" where
  "needs_cloudflare_ip_ranges t =
     list_ex (\<lambda>entry. ce_source_ip entry = Auto \<or> ce_source_ip entry = CloudflareProxy)
       (compiled t)"

definition app_for_route_domain ::
    "(app_routes_map \<Rightarrow> app_routes_map) \<Rightarrow> string \<Rightarrow> route_table \<Rightarrow> string option" where
  "app_for_route_domain iter domain t =
     map_option fst
       (find (\<lambda>(app, routes).
           list_ex (\<lambda>route. eq_ignore_ascii_case (fst (split_route route)) domain) routes)
         (iter (app_routes t)))"

definition select_with_route :: "route_table \<Rightarrow> string \<Rightarrow> string \<Rightarrow> selected_route option" where
  "select_with_route t host path = select_route_for_request_compiled (compiled t) host path"

definition select :: "route_table \<Rightarrow> string \<Rightarrow> string \<Rightarrow> string option" where
  "select t host path = map_option sel_app (select_with_route t host path)"

text \<open>The tables the server can hold: built from the empty table by its two mutators.\<close>

inductive route_table_reachable ::
    "(app_routes_map \<Rightarrow> app_routes_map) \<Rightarrow> route_table \<Rightarrow> bool" for iter where
  default: "route_table_reachable iter route_table_default"
| set_routes: "route_table_reachable iter t \<Longrightarrow>
    route_table_reachable iter (set_app_routes_with_source_ip iter app routes source_ip t)"
| remove_routes: "route_table_reachable iter t \<Longrightarrow>
    route_table_reachable iter (remove_app_routes iter app t)"

section \<open>Meaning of the patterns\<close>

lemma split_route_None: "CHR ''/'' \<notin> set r \<Longrightarrow> split_route r = (r, None)"
  by (simp add: split_route_def)

lemma split_route_Some:
  "CHR ''/'' \<notin> set h \<Longrightarrow> split_route (h @ CHR ''/'' # p) = (h, Some (CHR ''/'' # p))"
proof -
  assume h: "CHR ''/'' \<notin> set h"
  then have "takeWhile (\<lambda>c. c \<noteq> CHR ''/'') (h @ CHR ''/'' # p) = h"
      and "dropWhile (\<lambda>c. c \<noteq> CHR ''/'') (h @ CHR ''/'' # p) = CHR ''/'' # p"
    by (induction h) auto
  then show ?thesis by (simp add: split_route_def)
qed

lemma split_route_app: "split_route r = (h, q) \<Longrightarrow> r = h @ (case q of None \<Rightarrow> [] | Some p \<Rightarrow> p)"
  by (auto simp: split_route_def split: if_splits)

lemma hostname_matches_exact:
  "\<not> starts_with pattern ''*.'' \<Longrightarrow>
     hostname_matches pattern hostname = eq_ignore_ascii_case pattern hostname"
  by (simp add: hostname_matches_def strip_prefix_def)

lemma hostname_wildcard_iff:
  "hostname_matches (''*.'' @ suffix) hostname \<longleftrightarrow>
     (\<exists>label s. hostname = label @ ''.'' @ s \<and> eq_ignore_ascii_case s suffix)" (is "?L \<longleftrightarrow> ?R")
proof
  let ?k = "length hostname - length suffix"
  assume ?L
  then have len: "length hostname > length suffix" and dot: "hostname ! (?k - 1) = CHR ''.''"
      and tail: "eq_ignore_ascii_case (drop ?k hostname) suffix"
    by (auto simp: hostname_matches_def strip_prefix_def starts_with_def split: if_splits)
  have "hostname = take (?k - 1) hostname @ drop (?k - 1) hostname" by simp
  also have "drop (?k - 1) hostname = hostname ! (?k - 1) # drop ?k hostname"
    using len Cons_nth_drop_Suc [of "?k - 1" hostname] by (simp add: Suc_diff_Suc)
  finally show ?R using dot tail by (metis append_Cons append_Nil)
next
  assume ?R
  then obtain l s where hs: "hostname = l @ ''.'' @ s" and eq: "eq_ignore_ascii_case s suffix"
    by blast
  note len = eq_ignore_ascii_case_length [OF eq]
  have "\<not> eq_ignore_ascii_case hostname suffix"
    using len hs by (auto dest: eq_ignore_ascii_case_length)
  then show ?L
    using hs eq len
    by (simp add: hostname_matches_def strip_prefix_def starts_with_def nth_append)
qed

lemma path_matches_subtree:
  "path_matches (prefix @ ''/*'') path \<longleftrightarrow> path = prefix \<or> (\<exists>rest. path = prefix @ ''/'' @ rest)"
proof -
  have "strip_suffix (prefix @ ''/*'') ''/*'' = Some prefix"
    by (simp add: str_simps)
  then show ?thesis
    by (auto simp: path_matches_def starts_with_iff)
qed

lemma path_matches_prefix:
  assumes "\<nexists>q. prefix = q @ ''/''"
  shows "path_matches (prefix @ ''*'') path \<longleftrightarrow> (\<exists>rest. path = prefix @ rest)"
proof -
  have "prefix @ ''*'' \<noteq> r @ ''/*''" for r
    using assms append1_eq_conv [of prefix "CHR ''*''" "r @ ''/''" "CHR ''*''"] by auto
  then have "strip_suffix (prefix @ ''*'') ''/*'' = None"
    by (simp add: str_simps)
  then show ?thesis
    by (auto simp: path_matches_def ends_with_iff starts_with_iff)
qed

lemma trim_end_slash: "trim_end_matches (CHR ''/'') (p @ ''/'') = trim_end_matches (CHR ''/'') p"
  by (simp add: trim_end_matches_def)

text \<open>An exact pattern is blind to trailing slashes on either side.\<close>

lemma normalize_exact_path_slash: "normalize_exact_path (p @ ''/'') = normalize_exact_path p"
  by (cases "p = []"; cases "p = ''/''")
     (simp_all add: normalize_exact_path_def trim_end_slash Let_def, simp_all add: trim_end_matches_def)

section \<open>Compiled selection\<close>

definition entry_matches :: "string \<Rightarrow> string \<Rightarrow> compiled_route_entry \<Rightarrow> bool" where
  "entry_matches host path entry =
     (hostname_matches (ce_host entry) host
      \<and> (case ce_path entry of None \<Rightarrow> True | Some p \<Rightarrow> path_matches p path))"

definition entry_route :: "compiled_route_entry \<Rightarrow> selected_route" where
  "entry_route entry =
     \<lparr>sel_app = ce_app entry, sel_path = ce_path entry, sel_source_ip = ce_source_ip entry\<rparr>"

lemma select_compiled_find:
  "select_route_for_request_compiled routes host path =
     map_option entry_route (find (entry_matches host path) routes)"
  by (induction routes) (auto simp: entry_matches_def entry_route_def split: option.splits)

lemma compile_route_sel [simp]:
  "ce_app (compile_route e) = re_app e"
  "ce_source_ip (compile_route e) = re_source_ip e"
  "ce_host (compile_route e) = fst (split_route (re_pattern e))"
  "ce_path (compile_route e) = snd (split_route (re_pattern e))"
  "ce_specificity (compile_route e) = route_specificity (re_pattern e)"
  by (simp_all add: compile_route_def split: prod.splits)

lemma entry_matches_compile_route:
  "re_pattern e \<noteq> [] \<Longrightarrow>
     entry_matches host path (compile_route e) = route_matches (re_pattern e) host path"
  by (auto simp: entry_matches_def route_matches_def split: prod.splits option.splits)

lemma route_matches_nonempty: "route_matches r host path \<Longrightarrow> r \<noteq> []"
  by (auto simp: route_matches_def)

lemma entry_matches_iff:
  "re_pattern e \<noteq> [] \<and> entry_matches host path (compile_route e) \<and> Q \<longleftrightarrow>
     route_matches (re_pattern e) host path \<and> Q"
  using entry_matches_compile_route route_matches_nonempty by blast

lemma find_map_filter:
  "find P (map f (filter Q xs)) = map_option f (find (\<lambda>x. Q x \<and> P (f x)) xs)"
  by (induction xs) auto

text \<open>What the compiled search finds, in terms of the uncompiled entries.\<close>

lemma select_app_loop_keep:
  "\<forall>e\<in>set es. route_matches (re_pattern e) host path \<longrightarrow>
      route_specificity (re_pattern e) \<le> s \<Longrightarrow>
   select_app_loop host path (Some (z, s)) es = Some (z, s)"
  by (induction es) (auto simp: Let_def)

lemma select_app_loop_none:
  "(\<And>e. e \<in> set es \<Longrightarrow> \<not> route_matches (re_pattern e) host path) \<Longrightarrow>
   select_app_loop host path b es = b"
  by (induction es) auto

lemma select_app_loop_first_max:
  assumes "find (\<lambda>e. route_matches (re_pattern e) host path \<and>
             route_specificity (re_pattern e) = route_specificity (re_pattern x)) es = Some x"
    and "\<And>e. e \<in> set es \<Longrightarrow> route_matches (re_pattern e) host path \<Longrightarrow>
             route_specificity (re_pattern e) \<le> route_specificity (re_pattern x)"
    and "\<And>z s. b = Some (z, s) \<Longrightarrow> s < route_specificity (re_pattern x)"
  shows "select_app_loop host path b es = Some (x, route_specificity (re_pattern x))"
  using assms
proof (induction es arbitrary: b)
  case Nil
  then show ?case by simp
next
  case (Cons e es)
  let ?m = "route_matches (re_pattern e) host path"
  let ?s = "route_specificity (re_pattern e)" and ?x = "route_specificity (re_pattern x)"
  show ?case
  proof (cases "?m \<and> ?s = ?x")
    case True
    then have "e = x" using Cons.prems(1) by simp
    moreover have "select_app_loop host path (Some (x, ?x)) es = Some (x, ?x)"
      using Cons.prems(2) by (intro select_app_loop_keep) auto
    ultimately show ?thesis
      using True Cons.prems(3) by (cases b) (auto simp: Let_def)
  next
    case False
    then have "find (\<lambda>e. route_matches (re_pattern e) host path \<and>
        route_specificity (re_pattern e) = ?x) es = Some x"
      using Cons.prems(1) by (auto split: if_splits)
    moreover have "?m \<Longrightarrow> ?s < ?x" using Cons.prems(2) [of e] False by auto
    ultimately show ?thesis
      using Cons.prems(2,3) False
      by (auto simp: Let_def intro!: Cons.IH split: option.splits prod.splits if_splits)
  qed
qed

lemma find_compile_routes:
  "find (entry_matches host path) (compile_routes es) =
     map_option (compile_route o fst) (select_app_loop host path None es)"
proof (cases "find (entry_matches host path) (compile_routes es)")
  case None
  then have "select_app_loop host path None es = None"
    by (intro select_app_loop_none)
       (auto simp: compile_routes_def find_None_sort_desc_key entry_matches_compile_route
         dest: route_matches_nonempty)
  then show ?thesis using None by simp
next
  case (Some c)
  let ?m = "\<lambda>e. route_matches (re_pattern e) host path"
  note facts = find_sort_desc_key [OF Some [unfolded compile_routes_def]]
  have "find (\<lambda>e. re_pattern e \<noteq> [] \<and> entry_matches host path (compile_route e) \<and>
          route_specificity (re_pattern e) = ce_specificity c) es =
        find (\<lambda>e. ?m e \<and> route_specificity (re_pattern e) = ce_specificity c) es"
    by (simp only: entry_matches_iff)
  then obtain x where x: "c = compile_route x"
      and first: "find (\<lambda>e. ?m e \<and> route_specificity (re_pattern e) = ce_specificity c) es = Some x"
    using facts(4) by (auto simp: find_map_filter)
  have "route_specificity (re_pattern e) \<le> ce_specificity c" if "e \<in> set es" "?m e" for e
    using facts(3) [of "compile_route e"] that entry_matches_iff [of e host path True] by simp
  then have "select_app_loop host path None es = Some (x, route_specificity (re_pattern x))"
    using first x by (intro select_app_loop_first_max) auto
  then show ?thesis using Some x by simp
qed

section \<open>Hosts are compared without regard to case\<close>

lemma ascii_lower_dot: "ascii_lower c = CHR ''.'' \<longleftrightarrow> c = CHR ''.''"
proof -
  have "char_of n \<noteq> CHR ''.''" if "97 \<le> n" "n \<le> 122" for n :: nat
  proof
    assume "char_of n = CHR ''.''"
    then have "of_char (char_of n :: char) = (46 :: nat)" by simp
    then show False using that by simp
  qed
  then show ?thesis
    by (auto simp: ascii_lower_def Let_def)
qed

lemma hostname_matches_case:
  assumes "eq_ignore_ascii_case host host'" and "hostname_matches pattern host"
  shows "hostname_matches pattern host'"
proof (cases "starts_with pattern ''*.''")
  case False
  then show ?thesis
    using assms eq_ignore_ascii_case_trans by (auto simp: hostname_matches_exact)
next
  case True
  then obtain suffix where pat: "pattern = ''*.'' @ suffix"
    by (auto simp: starts_with_iff)
  then obtain l s where h: "host = l @ ''.'' @ s" and s: "eq_ignore_ascii_case s suffix"
    using assms(2) hostname_wildcard_iff by blast
  have "map ascii_lower host' = map ascii_lower l @ ascii_lower (CHR ''.'') # map ascii_lower s"
    using assms(1) h by (simp add: eq_ignore_ascii_case_def)
  then obtain l' d s' where h': "host' = l' @ d # s'" and d: "ascii_lower d = ascii_lower (CHR ''.'')"
      and s': "map ascii_lower s' = map ascii_lower s"
    by (auto simp: map_eq_append_conv map_eq_Cons_conv)
  have "d = CHR ''.''" using d ascii_lower_dot [of d] ascii_lower_dot [of "CHR ''.''"] by simp
  moreover have "eq_ignore_ascii_case s' suffix"
    using s s' by (simp add: eq_ignore_ascii_case_def)
  ultimately show ?thesis
    using pat h' hostname_wildcard_iff by fastforce
qed

lemma entry_matches_case:
  "eq_ignore_ascii_case host host' \<Longrightarrow> entry_matches host path = entry_matches host' path"
  unfolding entry_matches_def
  by (rule ext) (use hostname_matches_case eq_ignore_ascii_case_sym in blast)

section \<open>The table invariant\<close>

lemma keys_delete: "fst ` set (AList.delete k al) = fst ` set al - {k}"
  by (metis dom_map_of_conv_image_fst delete_conv' dom_fun_upd)

definition route_table_ok :: "(app_routes_map \<Rightarrow> app_routes_map) \<Rightarrow> route_table \<Rightarrow> bool" where
  "route_table_ok iter t =
     (distinct (map fst (app_routes t))
      \<and> fst ` set (app_routes t) = fst ` set (app_source_ip t)
      \<and> compiled t = compile_routes (table_entries iter t))"

definition hash_iteration :: "(app_routes_map \<Rightarrow> app_routes_map) \<Rightarrow> bool" where
  "hash_iteration iter = (\<forall>xs. mset (iter xs) = mset xs)"

lemma hash_iteration_set [simp]: "hash_iteration iter \<Longrightarrow> set (iter xs) = set xs"
  unfolding hash_iteration_def by (metis set_mset_mset)

lemma route_table_reachable_ok:
  "route_table_reachable iter t \<Longrightarrow> hash_iteration iter \<Longrightarrow> route_table_ok iter t"
proof (induction rule: route_table_reachable.induct)
  case default
  then have "iter [] = []" by (metis hash_iteration_set set_empty)
  then show ?case
    by (simp add: route_table_ok_def route_table_default_def table_entries_def compile_routes_def
        sort_desc_key_def)
next
  case (set_routes t app routes source_ip)
  then show ?case
    by (simp add: route_table_ok_def set_app_routes_with_source_ip_def rebuild_def Let_def
        table_entries_def dom_update distinct_update)
next
  case (remove_routes t app)
  then show ?case
    using keys_delete [of app "app_routes t"] keys_delete [of app "app_source_ip t"]
    by (simp add: route_table_ok_def remove_app_routes_def rebuild_def Let_def table_entries_def
        distinct_delete)
qed

text \<open>An entry of the table: a non-empty pattern registered for an app.\<close>

lemma table_entries_iff:
  assumes "hash_iteration iter" "route_table_ok iter t"
  shows "e \<in> set (table_entries iter t) \<longleftrightarrow>
    (\<exists>rs. map_of (app_routes t) (re_app e) = Some rs \<and> re_pattern e \<in> set rs) \<and>
    re_pattern e \<noteq> [] \<and> map_of (app_source_ip t) (re_app e) = Some (re_source_ip e)"
proof -
  have "map_of (app_routes t) a = Some rs \<longleftrightarrow> (a, rs) \<in> set (app_routes t)" for a rs
    using assms(2) by (auto simp: route_table_ok_def)
  moreover have "\<exists>m. map_of (app_source_ip t) a = Some m" if "(a, rs) \<in> set (app_routes t)" for a rs
    using assms(2) that unfolding route_table_ok_def
    by (metis domD dom_map_of_conv_image_fst fst_conv imageI)
  ultimately show ?thesis
    using assms(1) by (cases e) (fastforce simp: table_entries_def Let_def image_iff)
qed

text \<open>What a request is sent to, over the registered patterns.\<close>

lemma select_with_route_cases:
  assumes "hash_iteration iter" "route_table_ok iter t"
  shows "case select_with_route t host path of
      None \<Rightarrow> \<forall>e\<in>set (table_entries iter t). \<not> route_matches (re_pattern e) host path
    | Some sel \<Rightarrow> \<exists>e\<in>set (table_entries iter t). sel = entry_route (compile_route e)
        \<and> route_matches (re_pattern e) host path
        \<and> (\<forall>e'\<in>set (table_entries iter t). route_matches (re_pattern e') host path
             \<longrightarrow> route_specificity (re_pattern e') \<le> route_specificity (re_pattern e))"
proof -
  let ?es = "table_entries iter t"
  have ne: "e \<in> set ?es \<Longrightarrow> re_pattern e \<noteq> []" for e
    using table_entries_iff [OF assms] by simp
  then have "filter (\<lambda>e. re_pattern e \<noteq> []) ?es = ?es"
    by (simp add: filter_id_conv)
  then have sel: "select_with_route t host path = map_option entry_route
      (find (entry_matches host path) (sort_desc_key ce_specificity (map compile_route ?es)))"
    (is "_ = map_option _ ?find")
    using assms(2)
    by (simp add: select_with_route_def select_compiled_find route_table_ok_def compile_routes_def)
  have m: "e \<in> set ?es \<Longrightarrow> entry_matches host path (compile_route e) \<longleftrightarrow>
      route_matches (re_pattern e) host path" for e
    using ne by (simp add: entry_matches_compile_route)
  show ?thesis
  proof (cases ?find)
    case None
    then have "\<forall>e\<in>set ?es. \<not> entry_matches host path (compile_route e)"
      by (simp add: find_None_sort_desc_key)
    then show ?thesis using sel None m by simp
  next
    case (Some c)
    note facts = find_sort_desc_key [OF Some]
    obtain e where e: "e \<in> set ?es" "c = compile_route e" using facts(2) by auto
    have "route_specificity (re_pattern e') \<le> route_specificity (re_pattern e)"
      if "e' \<in> set ?es" "route_matches (re_pattern e') host path" for e'
      using facts(3) [of "compile_route e'"] that e m [OF that(1)] by simp
    then show ?thesis
      using sel Some e facts(1) m [OF e(1)] by auto
  qed
qed

section \<open>Properties of the router\<close>

text \<open>C13. The selection over the compiled, specificity-sorted table picks for every request the
  same app as the uncompiled reference search, which scans all entries in order and keeps the
  first one of the greatest specificity.\<close>

theorem select_compiled_eq_reference:
  "select_app_for_request_compiled (compile_routes routes) host path =
     select_app_for_request routes host path"
  by (cases "select_app_loop host path None routes")
     (auto simp: select_app_for_request_compiled_def select_app_for_request_def
       select_compiled_find find_compile_routes entry_route_def)

text \<open>C14. In every table the server can reach, whatever order the hash maps iterate in, a request
  goes to an app one of whose registered patterns matches it, with that pattern's path and that
  app's source-address mode, and no registered pattern that matches the request is more specific;
  a request is refused only when no registered pattern matches it.\<close>

theorem select_most_specific:
  assumes "hash_iteration iter" "route_table_reachable iter t"
  shows "case select_with_route t host path of
      None \<Rightarrow> \<forall>app. \<forall>r\<in>set (routes_for_app app t). \<not> route_matches r host path
    | Some sel \<Rightarrow>
        map_of (app_source_ip t) (sel_app sel) = Some (sel_source_ip sel) \<and>
        (\<exists>r\<in>set (routes_for_app (sel_app sel) t).
           route_matches r host path \<and> sel_path sel = snd (split_route r) \<and>
           (\<forall>app. \<forall>r'\<in>set (routes_for_app app t).
              route_matches r' host path \<longrightarrow> route_specificity r' \<le> route_specificity r))"
proof -
  note ok = route_table_reachable_ok [OF assms(2,1)]
  have entry: "\<exists>e\<in>set (table_entries iter t). re_app e = app \<and> re_pattern e = r"
    if "r \<in> set (routes_for_app app t)" "route_matches r host path" for app r
  proof -
    have "\<exists>rs. map_of (app_routes t) app = Some rs \<and> r \<in> set rs"
      using that(1) by (cases "map_of (app_routes t) app") (auto simp: routes_for_app_def)
    then obtain rs where rs: "map_of (app_routes t) app = Some rs" "r \<in> set rs" by blast
    then obtain m where "map_of (app_source_ip t) app = Some m"
      using ok unfolding route_table_ok_def
      by (metis domD domI dom_map_of_conv_image_fst)
    then show ?thesis
      using rs route_matches_nonempty [OF that(2)] table_entries_iff [OF assms(1) ok,
          of "\<lparr>re_app = app, re_pattern = r, re_source_ip = m\<rparr>"]
      by (intro bexI [of _ "\<lparr>re_app = app, re_pattern = r, re_source_ip = m\<rparr>"]) auto
  qed
  have route: "re_pattern e \<in> set (routes_for_app (re_app e) t) \<and>
      map_of (app_source_ip t) (re_app e) = Some (re_source_ip e)"
    if "e \<in> set (table_entries iter t)" for e
    using that table_entries_iff [OF assms(1) ok] by (auto simp: routes_for_app_def)
  show ?thesis
    using select_with_route_cases [OF assms(1) ok, of host path]
    by (auto split: option.splits simp: entry_route_def dest: route) (metis entry route)+
qed

theorem select_most_specific_witness:
  "let t = set_app_routes_with_source_ip rev ''b'' [''*.ex.com'', ''ex.com/api/*''] Direct
             (set_app_routes rev ''a'' [''ex.com''] route_table_default)
   in hash_iteration rev \<and> route_table_reachable rev t
      \<and> select_with_route t ''EX.com'' ''/api/x'' =
          Some \<lparr>sel_app = ''b'', sel_path = Some ''/api/*'', sel_source_ip = Direct\<rparr>
      \<and> (\<exists>r\<in>set (routes_for_app ''b'' t). route_matches r ''EX.com'' ''/api/x'')"
proof -
  let ?t = "set_app_routes_with_source_ip rev ''b'' [''*.ex.com'', ''ex.com/api/*''] Direct
             (set_app_routes rev ''a'' [''ex.com''] route_table_default)"
  have it: "hash_iteration rev" by (simp add: hash_iteration_def)
  have re: "route_table_reachable rev ?t"
    unfolding set_app_routes_def by (intro route_table_reachable.intros)
  have sel: "select_with_route ?t ''EX.com'' ''/api/x'' =
      Some \<lparr>sel_app = ''b'', sel_path = Some ''/api/*'', sel_source_ip = Direct\<rparr>"
    by code_simp
  show ?thesis
    using it re sel select_most_specific [OF it re, of "''EX.com''" "''/api/x''"]
    by (auto simp: Let_def)
qed

text \<open>A wildcard host pattern \<open>*.d\<close> matches exactly the hosts that end in a dot and \<open>d\<close>, in
  any letter case, so never \<open>d\<close> itself; any other host pattern matches exactly the hosts equal to
  it up to letter case.\<close>

theorem hostname_matches_meaning:
  "(hostname_matches (''*.'' @ d) hostname \<longleftrightarrow>
      (\<exists>label s. hostname = label @ ''.'' @ s \<and> eq_ignore_ascii_case s d))
   \<and> \<not> hostname_matches (''*.'' @ d) d
   \<and> (starts_with pattern ''*.'' \<or> hostname_matches pattern hostname = eq_ignore_ascii_case pattern hostname)"
  using hostname_wildcard_iff [of d hostname] hostname_matches_exact [of pattern hostname]
  by (auto simp: hostname_matches_def strip_prefix_def starts_with_def)

text \<open>Letter case of the request's host never changes the route that is selected.\<close>

theorem select_host_case_insensitive:
  "eq_ignore_ascii_case host host' \<Longrightarrow> select_with_route t host path = select_with_route t host' path"
  by (simp add: select_with_route_def select_compiled_find entry_matches_case)

theorem select_host_case_insensitive_witness:
  "select_with_route (set_app_routes id ''a'' [''*.ex.com/v1*''] route_table_default) ''W.EX.com'' ''/v12''
   = select_with_route (set_app_routes id ''a'' [''*.ex.com/v1*''] route_table_default) ''w.ex.COM'' ''/v12''"
  by (rule select_host_case_insensitive) code_simp

text \<open>After an app's routes are removed no request is sent to it, and the routes of every other
  app are what they were.\<close>

theorem remove_app_routes_unselects:
  assumes "hash_iteration iter" "route_table_reachable iter t"
  shows "(\<nexists>sel. select_with_route (remove_app_routes iter app t) host path = Some sel \<and> sel_app sel = app)
    \<and> (\<forall>other. routes_for_app other (remove_app_routes iter app t) =
         (if other = app then [] else routes_for_app other t))"
proof -
  let ?t = "remove_app_routes iter app t"
  have "route_table_ok iter ?t"
    by (intro route_table_reachable_ok route_table_reachable.remove_routes assms)
  note cs = select_with_route_cases [OF assms(1) this, of host path]
    and ents = table_entries_iff [OF assms(1) this]
  have gone: "map_of (app_routes ?t) = (map_of (app_routes t))(app := None)"
    by (simp add: remove_app_routes_def rebuild_def Let_def delete_conv')
  have "\<forall>e\<in>set (table_entries iter ?t). re_app e \<noteq> app"
    using ents gone by auto
  then show ?thesis
    using cs gone by (auto simp: routes_for_app_def entry_route_def split: option.splits)
qed

theorem remove_app_routes_unselects_witness:
  "let t = set_app_routes id ''a'' [''ex.com/p''] (set_app_routes id ''b'' [''ex.com/*''] route_table_default)
   in (\<nexists>sel. select_with_route (remove_app_routes id ''a'' t) ''ex.com'' ''/p'' = Some sel \<and> sel_app sel = ''a'')
      \<and> select t ''ex.com'' ''/p'' = Some ''a''
      \<and> select (remove_app_routes id ''a'' t) ''ex.com'' ''/p'' = Some ''b''"
proof -
  let ?t = "set_app_routes id ''a'' [''ex.com/p''] (set_app_routes id ''b'' [''ex.com/*''] route_table_default)"
  have "hash_iteration id" by (simp add: hash_iteration_def)
  moreover have "route_table_reachable id ?t"
    unfolding set_app_routes_def by (intro route_table_reachable.intros)
  moreover have "select ?t ''ex.com'' ''/p'' = Some ''a''"
    and "select (remove_app_routes id ''a'' ?t) ''ex.com'' ''/p'' = Some ''b''"
    by code_simp+
  ultimately show ?thesis
    using remove_app_routes_unselects [of id ?t "''a''" "''ex.com''" "''/p''"] by (simp add: Let_def)
qed

end
