(* ===== verification/Sql_Table.thy ===== *)
theory Sql_Table
  imports Prelude
begin

text \<open>
  Tables of the SQL stores as lists of rows, with one function per statement shape
  the sources use.  A row is identified by its primary key, a function of the row.
  The abstract content of a table is its lookup by key; the lemmas give the effect
  of each statement on lookups and show that it keeps the primary key unique.
\<close>

section \<open>Statements\<close>

definition sql_lookup :: "('r \<Rightarrow> 'k) \<Rightarrow> 'k \<Rightarrow> 'r list \<Rightarrow> 'r option" where
  "sql_lookup key k t = find (\<lambda>r. key r = k) t"

definition sql_count :: "('r \<Rightarrow> bool) \<Rightarrow> 'r list \<Rightarrow> nat" where
  "sql_count P t = length (filter P t)"

definition sql_update :: "('r \<Rightarrow> bool) \<Rightarrow> ('r \<Rightarrow> 'r) \<Rightarrow> 'r list \<Rightarrow> 'r list" where
  "sql_update P f t = map (\<lambda>r. if P r then f r else r) t"

definition sql_delete :: "('r \<Rightarrow> bool) \<Rightarrow> 'r list \<Rightarrow> 'r list" where
  "sql_delete P t = filter (\<lambda>r. \<not> P r) t"

text \<open>\<^verbatim>\<open>INSERT OR IGNORE\<close>, \<^verbatim>\<open>INSERT .. ON CONFLICT DO NOTHING\<close>.\<close>

definition sql_insert_ignore :: "('r \<Rightarrow> 'k) \<Rightarrow> 'r \<Rightarrow> 'r list \<Rightarrow> 'r list" where
  "sql_insert_ignore key r t = (if sql_lookup key (key r) t = None then t @ [r] else t)"

text \<open>\<^verbatim>\<open>INSERT OR REPLACE\<close>: the conflicting row is deleted, the new one inserted.\<close>

definition sql_insert_replace :: "('r \<Rightarrow> 'k) \<Rightarrow> 'r \<Rightarrow> 'r list \<Rightarrow> 'r list" where
  "sql_insert_replace key r t = sql_delete (\<lambda>x. key x = key r) t @ [r]"

text \<open>\<^verbatim>\<open>INSERT .. ON CONFLICT DO UPDATE\<close>.\<close>

definition sql_upsert :: "('r \<Rightarrow> 'k) \<Rightarrow> ('r \<Rightarrow> 'r) \<Rightarrow> 'r \<Rightarrow> 'r list \<Rightarrow> 'r list" where
  "sql_upsert key f r t =
     (if sql_lookup key (key r) t = None then t @ [r]
      else sql_update (\<lambda>x. key x = key r) f t)"

text \<open>\<^verbatim>\<open>COALESCE(MAX(..), 0)\<close>.\<close>

definition max_or_zero :: "int list \<Rightarrow> int" where
  "max_or_zero xs = (case xs of [] \<Rightarrow> 0 | x # ys \<Rightarrow> foldl max x ys)"

text \<open>A scalar subquery on a key with \<^verbatim>\<open>COALESCE(.., 0)\<close>.\<close>

definition value_or_zero :: "('k \<times> int) list \<Rightarrow> 'k \<Rightarrow> int" where
  "value_or_zero t k = (case map_of t k of None \<Rightarrow> 0 | Some v \<Rightarrow> v)"

definition unique_key :: "('r \<Rightarrow> 'k) \<Rightarrow> 'r list \<Rightarrow> bool" where
  "unique_key key t = distinct (map key t)"

section \<open>Lookups\<close>

lemma sql_lookup_Nil [simp]: "sql_lookup key k [] = None"
  by (simp add: sql_lookup_def)

lemma sql_lookup_Cons [simp]:
  "sql_lookup key k (r # t) = (if key r = k then Some r else sql_lookup key k t)"
  by (simp add: sql_lookup_def)

lemma sql_lookup_append [simp]:
  "sql_lookup key k (t @ u) =
     (case sql_lookup key k t of None \<Rightarrow> sql_lookup key k u | Some r \<Rightarrow> Some r)"
  by (induction t) auto

lemma sql_lookup_SomeD: "sql_lookup key k t = Some r \<Longrightarrow> r \<in> set t \<and> key r = k"
  by (induction t) (auto split: if_splits)

lemma sql_lookup_key: "sql_lookup key k t = Some r \<Longrightarrow> key r = k"
  by (drule sql_lookup_SomeD) simp

lemma sql_lookup_in: "sql_lookup key k t = Some r \<Longrightarrow> r \<in> set t"
  by (drule sql_lookup_SomeD) simp

lemma sql_lookup_None: "sql_lookup key k t = None \<longleftrightarrow> k \<notin> key ` set t"
  by (induction t) auto

lemma sql_lookup_unique:
  "unique_key key t \<Longrightarrow> r \<in> set t \<Longrightarrow> sql_lookup key (key r) t = Some r"
  by (induction t) (auto simp: unique_key_def)

lemma sql_lookup_iff:
  assumes "unique_key key t"
  shows "sql_lookup key k t = Some r \<longleftrightarrow> r \<in> set t \<and> key r = k"
proof
  assume "r \<in> set t \<and> key r = k"
  then show "sql_lookup key k t = Some r"
    using sql_lookup_unique [OF assms, of r] by simp
qed (rule sql_lookup_SomeD)

lemma unique_keyD:
  assumes "unique_key key t" "r \<in> set t" "r' \<in> set t" "key r = key r'"
  shows "r = r'"
  using assms unfolding unique_key_def distinct_map inj_on_def by blast

lemma lookup_update [sql_simps]:
  "(\<And>r. key (f r) = key r) \<Longrightarrow>
     sql_lookup key k (sql_update P f t) =
       map_option (\<lambda>r. if P r then f r else r) (sql_lookup key k t)"
  by (induction t) (auto simp: sql_update_def)

lemma lookup_delete [sql_simps]:
  "unique_key key t \<Longrightarrow>
     sql_lookup key k (sql_delete P t) =
       (case sql_lookup key k t of None \<Rightarrow> None | Some r \<Rightarrow> if P r then None else Some r)"
proof (induction t)
  case (Cons x t)
  have "sql_lookup key (key x) t = None"
    using Cons.prems by (simp add: unique_key_def sql_lookup_None)
  then show ?case
    using Cons by (auto simp: sql_delete_def unique_key_def split: option.splits)
qed (simp add: sql_delete_def)

lemma lookup_insert_ignore [sql_simps]:
  "sql_lookup key k (sql_insert_ignore key r t) =
     (if sql_lookup key k t = None \<and> k = key r then Some r else sql_lookup key k t)"
  by (auto simp: sql_insert_ignore_def split: option.splits)

lemma lookup_insert_replace [sql_simps]:
  "unique_key key t \<Longrightarrow>
     sql_lookup key k (sql_insert_replace key r t) =
       (if k = key r then Some r else sql_lookup key k t)"
  by (auto simp: sql_insert_replace_def lookup_delete split: option.splits dest: sql_lookup_key)

lemma lookup_upsert [sql_simps]:
  "(\<And>x. key (f x) = key x) \<Longrightarrow>
     sql_lookup key k (sql_upsert key f r t) =
       (if k = key r then Some (case sql_lookup key k t of None \<Rightarrow> r | Some x \<Rightarrow> f x)
        else sql_lookup key k t)"
  by (cases "sql_lookup key k t")
     (auto simp: sql_upsert_def lookup_update dest: sql_lookup_key split: option.splits)

lemma map_update:
  "(\<And>r. g (f r) = g r) \<Longrightarrow> map g (sql_update P f t) = map g t"
  by (simp add: sql_update_def)

lemma lookup_map_cong:
  assumes "\<And>r. sql_lookup key k t = Some r \<Longrightarrow> key r = k \<Longrightarrow> f r = g r"
  shows "map_option f (sql_lookup key k t) = map_option g (sql_lookup key k t)"
proof (cases "sql_lookup key k t")
  case (Some r)
  show ?thesis
    unfolding Some using assms [OF Some sql_lookup_key [OF Some]] by simp
qed simp

section \<open>Primary keys stay unique\<close>

lemma unique_key_Nil [simp]: "unique_key key []"
  by (simp add: unique_key_def)

lemma unique_update [sql_simps]:
  "(\<And>r. key (f r) = key r) \<Longrightarrow> unique_key key (sql_update P f t) = unique_key key t"
  by (simp add: unique_key_def map_update)

lemma unique_delete [intro]: "unique_key key t \<Longrightarrow> unique_key key (sql_delete P t)"
  by (simp add: unique_key_def sql_delete_def distinct_map_filter)

lemma unique_append1:
  "unique_key key t \<Longrightarrow> sql_lookup key (key r) t = None \<Longrightarrow> unique_key key (t @ [r])"
  by (simp add: unique_key_def sql_lookup_None)

lemma unique_insert_ignore [intro]:
  "unique_key key t \<Longrightarrow> unique_key key (sql_insert_ignore key r t)"
  by (simp add: sql_insert_ignore_def unique_append1)

lemma unique_insert_replace [intro]:
  "unique_key key t \<Longrightarrow> unique_key key (sql_insert_replace key r t)"
  unfolding sql_insert_replace_def
  by (rule unique_append1, rule unique_delete, assumption) (auto simp: sql_lookup_None sql_delete_def)

lemma unique_upsert [intro]:
  "(\<And>x. key (f x) = key x) \<Longrightarrow> unique_key key t \<Longrightarrow> unique_key key (sql_upsert key f r t)"
  by (auto simp: sql_upsert_def unique_update intro: unique_append1)

lemma unique_fold_insert_ignore [intro]:
  "unique_key key t \<Longrightarrow> unique_key key (fold (sql_insert_ignore key) rs t)"
  by (induction rs arbitrary: t) auto

lemma unique_filter: "unique_key key t \<Longrightarrow> unique_key key (filter P t)"
  by (simp add: unique_key_def distinct_map_filter)

section \<open>Rows touched\<close>

lemma set_update: "set (sql_update P f t) = f ` {r \<in> set t. P r} \<union> {r \<in> set t. \<not> P r}"
  by (auto simp: sql_update_def)

lemma set_delete [simp]: "set (sql_delete P t) = {r \<in> set t. \<not> P r}"
  by (auto simp: sql_delete_def)

lemma set_insert_ignore:
  "set (sql_insert_ignore key r t) =
     (if sql_lookup key (key r) t = None then insert r (set t) else set t)"
  by (auto simp: sql_insert_ignore_def)

lemma set_insert_ignore_subset: "set (sql_insert_ignore key r t) \<subseteq> insert r (set t)"
  by (auto simp: sql_insert_ignore_def)

lemma set_insert_replace:
  "set (sql_insert_replace key r t) = insert r {x \<in> set t. key x \<noteq> key r}"
  by (auto simp: sql_insert_replace_def)

lemma update_none: "sql_count P t = 0 \<Longrightarrow> sql_update P f t = t"
  by (simp add: sql_count_def sql_update_def filter_empty_conv map_idI)

lemma sql_count_zero: "sql_count P t = 0 \<longleftrightarrow> (\<forall>r\<in>set t. \<not> P r)"
  by (simp add: sql_count_def filter_empty_conv)

lemma image_key_update:
  "(\<And>r. key (f r) = key r) \<Longrightarrow> key ` set (sql_update P f t) = key ` set t"
  by (metis list.set_map map_update)

lemma unique_filter_single:
  assumes "unique_key key t" "r \<in> set t" "P r" "\<And>x. P x \<Longrightarrow> key x = key r"
  shows "filter P t = [r]"
  using assms(1,2)
proof (induction t)
  case (Cons x t)
  show ?case
  proof (cases "x = r")
    case True
    then have "\<not> P y" if "y \<in> set t" for y
      using Cons.prems(1) that assms(4) [of y] by (auto simp: unique_key_def image_iff)
    then show ?thesis using True assms(3) by (simp add: filter_empty_conv)
  next
    case False
    then have "r \<in> set t" using Cons.prems by simp
    moreover then have "\<not> P x"
      using Cons.prems(1) assms(4) [of x] by (auto simp: unique_key_def image_iff)
    ultimately show ?thesis using Cons by (simp add: unique_key_def)
  qed
qed simp

text \<open>With a unique key, the rows a statement touches are counted by their keys.\<close>

lemma keys_filter:
  "unique_key key t \<Longrightarrow> {k. \<exists>r. sql_lookup key k t = Some r \<and> P r} = key ` set (filter P t)"
  by (auto simp: sql_lookup_iff)

lemma sql_count_card:
  assumes "unique_key key t"
  shows "sql_count P t = card {k. \<exists>r. sql_lookup key k t = Some r \<and> P r}"
proof -
  have "distinct (map key (filter P t))"
    using assms by (simp add: unique_key_def distinct_map_filter)
  then show ?thesis
    unfolding keys_filter [OF assms] sql_count_def
    by (metis distinct_card length_map set_map)
qed

lemma mset_map_filter:
  "mset (List.map_filter f xs) = image_mset (\<lambda>x. the (f x)) (mset (filter (\<lambda>x. f x \<noteq> None) xs))"
  by (induction xs) (auto simp: List.map_filter_simps split: option.splits)

section \<open>Ascending keys and aggregates\<close>

lemma sorted_lt_filter: "sorted_wrt (<) (map f xs) \<Longrightarrow> sorted_wrt (<) (map f (filter P xs))"
  by (induction xs) auto

lemma sorted_lt_sort_key:
  fixes f :: "'a \<Rightarrow> 'k::linorder"
  shows "sorted_wrt (<) (map f xs) \<Longrightarrow> sort_key f xs = xs"
  by (rule sort_key_id_if_sorted) (simp add: strict_sorted_imp_sorted)

lemma sorted_lt_inj: "sorted_wrt (<) (map f xs) \<Longrightarrow> inj_on (f :: 'a \<Rightarrow> 'k::linorder) (set xs)"
  by (metis distinct_map strict_sorted_iff)

lemma max_or_zero_Max: "max_or_zero xs = (if xs = [] then 0 else Max (set xs))"
proof (cases xs)
  case (Cons x ys)
  have "foldl max x ys = Max (set (x # ys))"
  proof (induction ys rule: rev_induct)
    case (snoc y ys)
    have "Max (set (x # ys @ [y])) = Max (insert y (set (x # ys)))" by (simp add: insert_commute)
    also have "\<dots> = max y (Max (set (x # ys)))" by (rule Max_insert) simp_all
    finally show ?case using snoc by (simp add: max.commute)
  qed simp
  then show ?thesis using Cons by (simp add: max_or_zero_def)
qed (simp add: max_or_zero_def)

lemma max_or_zero_ge: "x \<in> set xs \<Longrightarrow> x \<le> max_or_zero xs"
  by (auto simp: max_or_zero_Max)

lemma max_or_zero_in: "max_or_zero xs = 0 \<or> max_or_zero xs \<in> set xs"
  by (auto simp: max_or_zero_Max)

lemma max_or_zero_Cons: "0 < x \<Longrightarrow> max_or_zero (x # xs) = max x (max_or_zero xs)"
  by (simp add: max_or_zero_Max)

lemma max_or_zero_snoc:
  "(\<And>x. x \<in> set xs \<Longrightarrow> x \<le> y) \<Longrightarrow> 0 \<le> y \<Longrightarrow> max_or_zero (xs @ [y]) = y"
  by (auto simp: max_or_zero_Max intro!: Max_eqI)

lemma max_or_zero_eqI:
  assumes "\<And>x. x \<in> set xs \<Longrightarrow> x \<le> y" "y = 0 \<or> y \<in> set xs" "\<And>x. x \<in> set xs \<Longrightarrow> 0 < x"
  shows "max_or_zero xs = y"
proof (cases "xs = []")
  case False
  then obtain x where "x \<in> set xs" by (meson list.set_sel(1))
  then have "y \<noteq> 0" using assms(1,3) by fastforce
  then show ?thesis using False assms by (auto simp: max_or_zero_Max intro!: Max_eqI)
qed (use assms in \<open>auto simp: max_or_zero_def\<close>)

lemma value_or_zero_lookup: "value_or_zero t k = (case sql_lookup fst k t of None \<Rightarrow> 0 | Some e \<Rightarrow> snd e)"
  by (induction t) (auto simp: value_or_zero_def)

lemma value_or_zero_upsert:
  assumes "\<And>v. fst (f (k, v)) = k" "\<And>e. fst (f e) = fst e"
  shows "value_or_zero (sql_upsert fst f (k, v) t) k' =
    (if k' = k then (case map_of t k of None \<Rightarrow> v | Some w \<Rightarrow> snd (f (k, w))) else value_or_zero t k')"
proof -
  have m: "map_of t k = map_option snd (sql_lookup fst k t)" by (induction t) auto
  show ?thesis
    unfolding value_or_zero_lookup m using assms(2)
    by (auto simp: lookup_upsert dest: sql_lookup_key split: option.splits)
qed

end
