(* ===== verification/Workflow_Store.thy ===== *)
theory Workflow_Store
  imports Sql_Table
begin

text \<open>
  The data of the workflow engine shared by its two stores
  (\<^verbatim>\<open>tako-workflows/src/enqueue.rs\<close>, \<^verbatim>\<open>schema.rs\<close>, and the workflow messages of
  \<^verbatim>\<open>tako-core/src/protocol.rs\<close>): the rows of the four tables, the errors, the request
  and response types of the store operations, and the helpers both stores call.

  JSON values are opaque: \<^verbatim>\<open>serde_json\<close> is the parameter \<open>codec\<close>.  The order in which
  the SQL engine yields rows a statement does not order is the parameter \<open>scans\<close>, one
  permutation per table.  The clock is a parameter \<open>now\<close> of every operation, the
  generated run identifier a parameter \<open>fresh\<close>.
\<close>

section \<open>Rows\<close>

datatype run_status = Pending | Running | Succeeded | Cancelled | Dead

record run_row =
  r_id :: string
  r_name :: string
  r_payload :: string
  r_status :: run_status
  r_attempts :: int
  r_max_attempts :: int
  r_run_at :: int
  r_lease_until :: "int option"
  r_worker_id :: "string option"
  r_last_error :: "string option"
  r_created_at :: int
  r_finished_at :: "int option"

record step_row =
  st_run_id :: string
  st_name :: string
  st_result :: string
  st_completed_at :: int

record waiter_row =
  w_run_id :: string
  w_step_name :: string
  w_event_name :: string
  w_expires_at :: "int option"

record schedule_row =
  s_name :: string
  s_cron :: string
  s_last_run_at :: "int option"

definition st_key :: "step_row \<Rightarrow> string \<times> string" where
  "st_key s = (st_run_id s, st_name s)"

definition w_key :: "waiter_row \<Rightarrow> string \<times> string" where
  "w_key w = (w_run_id w, w_step_name w)"

record runs_db =
  db_runs :: "run_row list"
  db_steps :: "step_row list"
  db_waiters :: "waiter_row list"
  db_schedules :: "schedule_row list"

definition terminal :: "run_status \<Rightarrow> bool" where
  "terminal st = (st = Succeeded \<or> st = Cancelled \<or> st = Dead)"

section \<open>Parameters\<close>

record 'j codec =
  to_string :: "'j \<Rightarrow> string option"
  from_str :: "string \<Rightarrow> 'j option"
  json_null :: 'j

definition json_or_null :: "'j codec \<Rightarrow> string \<Rightarrow> 'j" where
  "json_or_null c s = (case from_str c s of Some v \<Rightarrow> v | None \<Rightarrow> json_null c)"

record scans =
  scan_runs :: "run_row list \<Rightarrow> run_row list"
  scan_steps :: "step_row list \<Rightarrow> step_row list"
  scan_waiters :: "waiter_row list \<Rightarrow> waiter_row list"
  scan_schedules :: "schedule_row list \<Rightarrow> schedule_row list"

text \<open>The engine yields every row exactly once, in some order.\<close>

definition scans_ok :: "scans \<Rightarrow> bool" where
  "scans_ok sc =
     ((\<forall>xs. mset (scan_runs sc xs) = mset xs) \<and> (\<forall>xs. mset (scan_steps sc xs) = mset xs)
      \<and> (\<forall>xs. mset (scan_waiters sc xs) = mset xs) \<and> (\<forall>xs. mset (scan_schedules sc xs) = mset xs))"

section \<open>Requests, responses, errors\<close>

record enqueue_opts =
  o_run_at_ms :: "int option"
  o_max_attempts :: "32 word option"
  o_id :: "string option"

record enqueue_run_response =
  er_id :: string
  er_deduplicated :: bool

record 'j run_payload =
  rp_id :: string
  rp_worker_id :: string
  rp_name :: string
  rp_payload :: 'j
  rp_status :: run_status
  rp_attempts :: "32 word"
  rp_max_attempts :: "32 word"
  rp_run_at_ms :: int
  rp_step_state :: "(string \<times> 'j) list"

record schedule_spec =
  sp_name :: string
  sp_cron :: string

datatype runs_db_error =
    SqliteError
  | PostgresError
  | JsonError
  | Storage string
  | UnsupportedBackend string
  | IdConflict string
  | InvalidId
  | StaleWorker

datatype 'j store_op =
    Op_enqueue string 'j enqueue_opts
  | Op_claim string "string list" "64 word"
  | Op_heartbeat string string "64 word"
  | Op_save_step string string string 'j
  | Op_complete string string
  | Op_cancel string string "string option"
  | Op_fail string string string "int option" bool
  | Op_prune int "32 word"
  | Op_defer string string "int option"
  | Op_reclaim
  | Op_reclaim_with_workers
  | Op_wait_for_event string string string string "int option"
  | Op_signal string 'j
  | Op_replace_schedules "schedule_spec list"
  | Op_set_schedule string int

datatype 'j store_ok =
    Ok_unit
  | Ok_enqueued enqueue_run_response
  | Ok_claimed "'j run_payload option"
  | Ok_count nat
  | Ok_workers "string list"

type_synonym 'j store_resp = "runs_db_error + 'j store_ok"

section \<open>Helpers of both stores\<close>

definition MAX_LEASE_MS :: "64 word" where
  "MAX_LEASE_MS = 7 * 24 * 60 * 60 * 1000"

definition clamp_lease_ms :: "64 word \<Rightarrow> int" where
  "clamp_lease_ms lease_ms = sint (min lease_ms MAX_LEASE_MS)"

definition DEFAULT_MAX_ATTEMPTS :: "32 word" where
  "DEFAULT_MAX_ATTEMPTS = 3"

definition DEFAULT_RETENTION_MS :: int where
  "DEFAULT_RETENTION_MS = 184 * 24 * 60 * 60 * 1000"

definition check_existing_run ::
    "'j codec \<Rightarrow> string \<Rightarrow> string \<Rightarrow> 'j \<Rightarrow> string \<Rightarrow> string \<Rightarrow> runs_db_error + unit" where
  "check_existing_run c rid name payload existing_name existing_payload =
     (if existing_name \<noteq> name then Inl (IdConflict rid)
      else case from_str c existing_payload of
             None \<Rightarrow> Inl JsonError
           | Some v \<Rightarrow> if v \<noteq> payload then Inl (IdConflict rid) else Inr ())"

text \<open>The new row of an enqueued run.\<close>

definition new_run :: "int \<Rightarrow> string \<Rightarrow> string \<Rightarrow> string \<Rightarrow> enqueue_opts \<Rightarrow> run_row" where
  "new_run now rid name payload_json opts =
     \<lparr>r_id = rid, r_name = name, r_payload = payload_json, r_status = Pending, r_attempts = 0,
      r_max_attempts =
        uint (case o_max_attempts opts of Some m \<Rightarrow> m | None \<Rightarrow> DEFAULT_MAX_ATTEMPTS),
      r_run_at = (case o_run_at_ms opts of Some t \<Rightarrow> t | None \<Rightarrow> now),
      r_lease_until = None, r_worker_id = None, r_last_error = None, r_created_at = now,
      r_finished_at = None\<rparr>"

text \<open>The condition and the assignments of the statements both stores issue.\<close>

definition owned_by :: "string \<Rightarrow> string \<Rightarrow> run_row \<Rightarrow> bool" where
  "owned_by rid w r = (r_id r = rid \<and> r_worker_id r = Some w \<and> r_status r = Running)"

definition claimable :: "int \<Rightarrow> string list \<Rightarrow> run_row \<Rightarrow> bool" where
  "claimable now names r = (r_status r = Pending \<and> r_run_at r \<le> now \<and> r_name r \<in> set names)"

definition expired :: "int \<Rightarrow> run_row \<Rightarrow> bool" where
  "expired now r =
     (r_status r = Running \<and> (case r_lease_until r of Some l \<Rightarrow> l < now | None \<Rightarrow> False))"

definition prunable :: "int \<Rightarrow> run_row \<Rightarrow> bool" where
  "prunable cutoff r =
     (terminal (r_status r) \<and> (case r_finished_at r of Some f \<Rightarrow> f \<le> cutoff | None \<Rightarrow> False))"

definition waiter_expired :: "int \<Rightarrow> string \<Rightarrow> waiter_row \<Rightarrow> bool" where
  "waiter_expired now rid w =
     (w_run_id w = rid \<and> (case w_expires_at w of Some e \<Rightarrow> e \<le> now | None \<Rightarrow> False))"

definition set_running :: "string \<Rightarrow> int \<Rightarrow> run_row \<Rightarrow> run_row" where
  "set_running w lease r =
     r\<lparr>r_status := Running, r_worker_id := Some w, r_lease_until := Some lease,
       r_attempts := r_attempts r + 1\<rparr>"

definition set_finished ::
    "run_status \<Rightarrow> string option \<Rightarrow> int \<Rightarrow> run_row \<Rightarrow> run_row" where
  "set_finished st err now r =
     r\<lparr>r_status := st, r_last_error := err, r_worker_id := None, r_lease_until := None,
       r_finished_at := Some now\<rparr>"

definition set_retry :: "string \<Rightarrow> int \<Rightarrow> run_row \<Rightarrow> run_row" where
  "set_retry err next r =
     r\<lparr>r_status := Pending, r_last_error := Some err, r_worker_id := None,
       r_lease_until := None, r_run_at := next\<rparr>"

definition set_parked :: "int \<Rightarrow> run_row \<Rightarrow> run_row" where
  "set_parked at r =
     r\<lparr>r_status := Pending, r_worker_id := None, r_lease_until := None, r_run_at := at,
       r_attempts := r_attempts r - 1\<rparr>"

definition set_reclaimed :: "run_row \<Rightarrow> run_row" where
  "set_reclaimed r = r\<lparr>r_status := Pending, r_worker_id := None, r_lease_until := None\<rparr>"

definition hydrate :: "'j codec \<Rightarrow> step_row list \<Rightarrow> (string \<times> 'j) list" where
  "hydrate c rows =
     fold (\<lambda>s m. AList.update (st_name s) (json_or_null c (st_result s)) m) rows []"

definition claimed_payload ::
    "'j codec \<Rightarrow> string \<Rightarrow> run_row \<Rightarrow> step_row list \<Rightarrow> 'j run_payload" where
  "claimed_payload c w r step_rows =
     \<lparr>rp_id = r_id r, rp_worker_id = w, rp_name = r_name r,
      rp_payload = json_or_null c (r_payload r), rp_status = r_status r,
      rp_attempts = word_of_int (r_attempts r), rp_max_attempts = word_of_int (r_max_attempts r),
      rp_run_at_ms = r_run_at r, rp_step_state = hydrate c step_rows\<rparr>"

section \<open>Facts on the helpers\<close>

lemma sint_eq_uint_small: "uint w < 2 ^ 63 \<Longrightarrow> sint (w :: 64 word) = uint w"
proof -
  assume "uint w < 2 ^ 63"
  moreover have "- (2 ^ 63) \<le> uint w"
    by (rule order_trans [OF _ uint_ge_0]) simp
  ultimately show ?thesis
    by (simp add: sint_uint signed_take_bit_int_eq_self)
qed

lemma clamp_lease_ms_bounds: "0 \<le> clamp_lease_ms l \<and> clamp_lease_ms l \<le> 7 * 24 * 60 * 60 * 1000"
proof -
  let ?m = "min l MAX_LEASE_MS"
  have le: "uint ?m \<le> uint MAX_LEASE_MS"
    by (simp add: word_le_def [symmetric])
  moreover have "uint MAX_LEASE_MS = 7 * 24 * 60 * 60 * 1000"
    by (simp add: MAX_LEASE_MS_def)
  ultimately have small: "uint ?m < 2 ^ 63" and le': "uint ?m \<le> 7 * 24 * 60 * 60 * 1000"
    by simp_all
  then show ?thesis
    using sint_eq_uint_small [OF small] le' by (simp add: clamp_lease_ms_def)
qed

lemma clamp_lease_ms_exact: "l \<le> MAX_LEASE_MS \<Longrightarrow> clamp_lease_ms l = uint l"
proof -
  assume "l \<le> MAX_LEASE_MS"
  then have "uint l \<le> uint MAX_LEASE_MS" and m: "min l MAX_LEASE_MS = l"
    by (simp_all add: word_le_def)
  then have "uint l < 2 ^ 63" by (simp add: MAX_LEASE_MS_def)
  then show ?thesis
    using m by (simp add: clamp_lease_ms_def sint_eq_uint_small)
qed

lemma row_setters_id [simp]:
  "r_id (set_running w l r) = r_id r" "r_id (set_finished st e t r) = r_id r"
  "r_id (set_retry err t r) = r_id r" "r_id (set_parked t r) = r_id r"
  "r_id (set_reclaimed r) = r_id r"
  by (simp_all add: set_running_def set_finished_def set_retry_def set_parked_def set_reclaimed_def)

lemma scans_set [simp]:
  assumes "scans_ok sc"
  shows "set (scan_runs sc rs) = set rs" "set (scan_steps sc ss) = set ss"
    "set (scan_waiters sc ws) = set ws" "set (scan_schedules sc xs) = set xs"
  using assms unfolding scans_ok_def by (metis set_mset_mset)+

lemma scans_length [simp]:
  assumes "scans_ok sc"
  shows "length (scan_runs sc rs) = length rs" "length (scan_waiters sc ws) = length ws"
  using assms unfolding scans_ok_def by (metis size_mset)+

lemma scans_distinct:
  assumes "scans_ok sc"
  shows "distinct (map f (scan_runs sc rs)) = distinct (map f rs)"
    "distinct (map g (scan_steps sc ss)) = distinct (map g ss)"
    "distinct (map h (scan_waiters sc ws)) = distinct (map h ws)"
  using assms unfolding scans_ok_def
  by (metis distinct_map mset_eq_imp_distinct_iff mset_map)+

end
