(* ===== verification/Workflow_Spec.thy ===== *)
theory Workflow_Spec
  imports Workflow_Store
begin

text \<open>
  The contract of a workflow store.  Where the stores keep flat tables, the contract
  has one object per run: its phase carries the owner and the lease while the run is
  held, and the event while it is parked, so ownership and waiting are properties of
  the run and not of rows that must agree.  The relation \<open>astep\<close> gives every
  operation's effect and response; the locale \<open>run_store\<close> is the interface a store
  implements, and its lemmas hold of every store.
\<close>

section \<open>Abstract state\<close>

datatype phase =
    Queued
  | Parked string string "int option"
  | Held string int
  | Ended run_status int

record arun =
  a_name :: string
  a_payload :: string
  a_phase :: phase
  a_attempts :: int
  a_max_attempts :: int
  a_run_at :: int
  a_error :: "string option"
  a_created :: int
  a_steps :: "string \<rightharpoonup> string"

record astate =
  as_runs :: "string \<rightharpoonup> arun"
  as_schedules :: "string \<rightharpoonup> string \<times> int option"

definition a_new :: "int \<Rightarrow> string \<Rightarrow> string \<Rightarrow> enqueue_opts \<Rightarrow> arun" where
  "a_new now name text opts =
     \<lparr>a_name = name, a_payload = text, a_phase = Queued, a_attempts = 0,
      a_max_attempts =
        uint (case o_max_attempts opts of Some m \<Rightarrow> m | None \<Rightarrow> DEFAULT_MAX_ATTEMPTS),
      a_run_at = (case o_run_at_ms opts of Some t \<Rightarrow> t | None \<Rightarrow> now),
      a_error = None, a_created = now, a_steps = Map.empty\<rparr>"

text \<open>The first result of a step is the one that stays.\<close>

definition put_step :: "string \<Rightarrow> string \<Rightarrow> arun \<Rightarrow> arun" where
  "put_step n text r =
     (if a_steps r n = None then r\<lparr>a_steps := (a_steps r)(n \<mapsto> text)\<rparr> else r)"

definition a_due :: "int \<Rightarrow> string list \<Rightarrow> arun \<Rightarrow> bool" where
  "a_due now names r =
     ((case a_phase r of Queued \<Rightarrow> True | Parked _ _ _ \<Rightarrow> True | _ \<Rightarrow> False)
      \<and> a_run_at r \<le> now \<and> a_name r \<in> set names)"

definition a_claim :: "string \<Rightarrow> int \<Rightarrow> arun \<Rightarrow> arun" where
  "a_claim w lease r =
     (case a_phase r of Parked n _ _ \<Rightarrow> put_step n ''null'' r | _ \<Rightarrow> r)
       \<lparr>a_phase := Held w lease, a_attempts := a_attempts r + 1\<rparr>"

definition a_payload_of :: "'j codec \<Rightarrow> string \<Rightarrow> string \<Rightarrow> arun \<Rightarrow> 'j run_payload \<Rightarrow> bool" where
  "a_payload_of c w rid r p =
     (rp_id p = rid \<and> rp_worker_id p = w \<and> rp_name p = a_name r
      \<and> rp_payload p = json_or_null c (a_payload r) \<and> rp_status p = Running
      \<and> rp_attempts p = word_of_int (a_attempts r)
      \<and> rp_max_attempts p = word_of_int (a_max_attempts r) \<and> rp_run_at_ms p = a_run_at r
      \<and> map_of (rp_step_state p) = (\<lambda>n. map_option (json_or_null c) (a_steps r n)))"

definition a_owns :: "string \<Rightarrow> string \<Rightarrow> astate \<Rightarrow> bool" where
  "a_owns rid w s = (\<exists>r lease. as_runs s rid = Some r \<and> a_phase r = Held w lease)"

definition a_owner_op ::
    "string \<Rightarrow> string \<Rightarrow> (arun \<Rightarrow> arun) \<Rightarrow> astate \<Rightarrow> 'j store_resp \<Rightarrow> astate \<Rightarrow> bool" where
  "a_owner_op rid w f s resp s' =
     (if a_owns rid w s
      then resp = Inr Ok_unit \<and> s' = s\<lparr>as_runs := (as_runs s)(rid \<mapsto> f (the (as_runs s rid)))\<rparr>
      else resp = Inl StaleWorker \<and> s' = s)"

definition a_map_runs :: "(arun \<Rightarrow> arun) \<Rightarrow> astate \<Rightarrow> astate" where
  "a_map_runs f s = s\<lparr>as_runs := (\<lambda>rid. map_option f (as_runs s rid))\<rparr>"

definition a_expired :: "int \<Rightarrow> arun \<Rightarrow> bool" where
  "a_expired now r = (case a_phase r of Held _ lease \<Rightarrow> lease < now | _ \<Rightarrow> False)"

definition a_reclaim :: "int \<Rightarrow> arun \<Rightarrow> arun" where
  "a_reclaim now r = (if a_expired now r then r\<lparr>a_phase := Queued\<rparr> else r)"

definition a_waits_for :: "string \<Rightarrow> arun \<Rightarrow> bool" where
  "a_waits_for ev r = (case a_phase r of Parked _ e _ \<Rightarrow> e = ev | _ \<Rightarrow> False)"

definition a_signal :: "int \<Rightarrow> string \<Rightarrow> string \<Rightarrow> arun \<Rightarrow> arun" where
  "a_signal now ev text r =
     (case a_phase r of
        Parked n e _ \<Rightarrow>
          if e = ev then (put_step n text r)\<lparr>a_phase := Queued, a_run_at := now\<rparr> else r
      | _ \<Rightarrow> r)"

definition a_prunable :: "int \<Rightarrow> arun \<Rightarrow> bool" where
  "a_prunable cutoff r = (case a_phase r of Ended _ t \<Rightarrow> t \<le> cutoff | _ \<Rightarrow> False)"

definition a_ended_at :: "arun \<Rightarrow> int" where
  "a_ended_at r = (case a_phase r of Ended _ t \<Rightarrow> t | _ \<Rightarrow> 0)"

definition a_ids :: "(arun \<Rightarrow> bool) \<Rightarrow> astate \<Rightarrow> string set" where
  "a_ids P s = {rid. \<exists>r. as_runs s rid = Some r \<and> P r}"

definition a_holder :: "astate \<Rightarrow> string \<Rightarrow> string" where
  "a_holder s rid = (case as_runs s rid of
     Some r \<Rightarrow> (case a_phase r of Held w _ \<Rightarrow> w | _ \<Rightarrow> []) | None \<Rightarrow> [])"

definition wake_time :: "int option \<Rightarrow> int" where
  "wake_time t = (case t of Some x \<Rightarrow> x | None \<Rightarrow> i64_max)"

section \<open>Abstract operations\<close>

fun astep ::
    "'j codec \<Rightarrow> int \<Rightarrow> string \<Rightarrow> 'j store_op \<Rightarrow> astate \<Rightarrow> 'j store_resp \<Rightarrow> astate \<Rightarrow> bool" where
  "astep c now fresh (Op_enqueue name payload opts) s resp s' =
     (case to_string c payload of
        None \<Rightarrow> resp = Inl JsonError \<and> s' = s
      | Some text \<Rightarrow>
          (let rid = (case o_id opts of Some i \<Rightarrow> i | None \<Rightarrow> fresh)
           in case as_runs s rid of
                None \<Rightarrow>
                  resp = Inr (Ok_enqueued \<lparr>er_id = rid, er_deduplicated = False\<rparr>)
                  \<and> s' = s\<lparr>as_runs := (as_runs s)(rid \<mapsto> a_new now name text opts)\<rparr>
              | Some r \<Rightarrow>
                  s' = s \<and>
                  resp = (case check_existing_run c rid name payload (a_name r) (a_payload r) of
                            Inl e \<Rightarrow> Inl e
                          | Inr _ \<Rightarrow> Inr (Ok_enqueued \<lparr>er_id = rid, er_deduplicated = True\<rparr>))))"
| "astep c now fresh (Op_claim w names lease_ms) s resp s' =
     (if a_ids (a_due now names) s = {} then resp = Inr (Ok_claimed None) \<and> s' = s
      else \<exists>rid r p. as_runs s rid = Some r \<and> a_due now names r
             \<and> (\<forall>rid' r'. as_runs s rid' = Some r' \<longrightarrow> a_due now names r'
                  \<longrightarrow> a_run_at r \<le> a_run_at r')
             \<and> a_payload_of c w rid (a_claim w (i64_sat_add now (clamp_lease_ms lease_ms)) r) p
             \<and> resp = Inr (Ok_claimed (Some p))
             \<and> s' = s\<lparr>as_runs := (as_runs s)
                   (rid \<mapsto> a_claim w (i64_sat_add now (clamp_lease_ms lease_ms)) r)\<rparr>)"
| "astep c now fresh (Op_heartbeat rid w lease_ms) s resp s' =
     a_owner_op rid w
       (\<lambda>r. r\<lparr>a_phase := Held w (i64_sat_add now (clamp_lease_ms lease_ms))\<rparr>) s resp s'"
| "astep c now fresh (Op_save_step rid w n result) s resp s' =
     (case to_string c result of
        None \<Rightarrow> resp = Inl JsonError \<and> s' = s
      | Some text \<Rightarrow> a_owner_op rid w (put_step n text) s resp s')"
| "astep c now fresh (Op_complete rid w) s resp s' =
     a_owner_op rid w (\<lambda>r. r\<lparr>a_phase := Ended Succeeded now\<rparr>) s resp s'"
| "astep c now fresh (Op_cancel rid w reason) s resp s' =
     a_owner_op rid w (\<lambda>r. r\<lparr>a_phase := Ended Cancelled now, a_error := reason\<rparr>) s resp s'"
| "astep c now fresh (Op_fail rid w err next_at finalize) s resp s' =
     (if finalize
      then a_owner_op rid w (\<lambda>r. r\<lparr>a_phase := Ended Dead now, a_error := Some err\<rparr>) s resp s'
      else case next_at of
             None \<Rightarrow> s' = s \<and> (\<exists>msg. resp = Inl (Storage msg) \<or> resp = Inl (UnsupportedBackend msg))
           | Some t \<Rightarrow>
               a_owner_op rid w
                 (\<lambda>r. r\<lparr>a_phase := Queued, a_error := Some err, a_run_at := t\<rparr>) s resp s')"
| "astep c now fresh (Op_prune cutoff limit) s resp s' =
     (\<exists>D. D \<subseteq> a_ids (a_prunable cutoff) s
        \<and> card D = min (unat limit) (card (a_ids (a_prunable cutoff) s))
        \<and> (\<forall>i\<in>D. \<forall>j\<in>a_ids (a_prunable cutoff) s - D.
             a_ended_at (the (as_runs s i)) \<le> a_ended_at (the (as_runs s j)))
        \<and> resp = Inr (Ok_count (card D))
        \<and> s' = s\<lparr>as_runs := as_runs s |` (- D)\<rparr>)"
| "astep c now fresh (Op_defer rid w wake_at) s resp s' =
     a_owner_op rid w
       (\<lambda>r. r\<lparr>a_phase := Queued, a_run_at := wake_time wake_at,
              a_attempts := a_attempts r - 1\<rparr>) s resp s'"
| "astep c now fresh Op_reclaim s resp s' =
     (resp = Inr (Ok_count (card (a_ids (a_expired now) s))) \<and> s' = a_map_runs (a_reclaim now) s)"
| "astep c now fresh Op_reclaim_with_workers s resp s' =
     (s' = a_map_runs (a_reclaim now) s
      \<and> (\<exists>ws. resp = Inr (Ok_workers ws)
           \<and> mset ws = image_mset (a_holder s) (mset_set (a_ids (a_expired now) s))))"
| "astep c now fresh (Op_wait_for_event rid w n ev timeout_at) s resp s' =
     a_owner_op rid w
       (\<lambda>r. r\<lparr>a_phase := Parked n ev timeout_at, a_run_at := wake_time timeout_at,
              a_attempts := a_attempts r - 1\<rparr>) s resp s'"
| "astep c now fresh (Op_signal ev payload) s resp s' =
     (case to_string c payload of
        None \<Rightarrow> resp = Inl JsonError \<and> s' = s
      | Some text \<Rightarrow>
          resp = Inr (Ok_count (card (a_ids (a_waits_for ev) s)))
          \<and> s' = a_map_runs (a_signal now ev text) s)"
| "astep c now fresh (Op_replace_schedules specs) s resp s' =
     (resp = Inr Ok_unit
      \<and> s' = s\<lparr>as_schedules := (\<lambda>n.
           map_option (\<lambda>cron. (cron, case as_schedules s n of Some (_, t) \<Rightarrow> t | None \<Rightarrow> Some now))
             (map_of (rev (map (\<lambda>sp. (sp_name sp, sp_cron sp)) specs)) n))\<rparr>)"
| "astep c now fresh (Op_set_schedule n ts) s resp s' =
     (resp = Inr Ok_unit
      \<and> s' = s\<lparr>as_schedules :=
           (case as_schedules s n of None \<Rightarrow> as_schedules s
            | Some (cron, _) \<Rightarrow> (as_schedules s)(n \<mapsto> (cron, Some ts)))\<rparr>)"

section \<open>What every operation keeps\<close>

definition is_prune :: "'j store_op \<Rightarrow> bool" where
  "is_prune op = (case op of Op_prune _ _ \<Rightarrow> True | _ \<Rightarrow> False)"

definition owner_of_op :: "'j store_op \<Rightarrow> (string \<times> string) option" where
  "owner_of_op op = (case op of
      Op_heartbeat rid w _ \<Rightarrow> Some (rid, w)
    | Op_save_step rid w _ _ \<Rightarrow> Some (rid, w)
    | Op_complete rid w \<Rightarrow> Some (rid, w)
    | Op_cancel rid w _ \<Rightarrow> Some (rid, w)
    | Op_fail rid w _ _ _ \<Rightarrow> Some (rid, w)
    | Op_defer rid w _ \<Rightarrow> Some (rid, w)
    | Op_wait_for_event rid w _ _ _ \<Rightarrow> Some (rid, w)
    | _ \<Rightarrow> None)"

lemmas astep_defs = a_owner_op_def a_owns_def a_map_runs_def a_reclaim_def a_expired_def
  a_signal_def a_waits_for_def a_claim_def a_due_def put_step_def a_ids_def

lemma a_steps_put_step: "a_steps r \<subseteq>\<^sub>m a_steps (put_step n text r)"
  by (auto simp: put_step_def map_le_def)

lemma put_step_same [simp]:
  "a_name (put_step n text r) = a_name r" "a_payload (put_step n text r) = a_payload r"
  "a_phase (put_step n text r) = a_phase r" "a_run_at (put_step n text r) = a_run_at r"
  "a_attempts (put_step n text r) = a_attempts r"
  "a_max_attempts (put_step n text r) = a_max_attempts r"
  "a_error (put_step n text r) = a_error r" "a_created (put_step n text r) = a_created r"
  by (simp_all add: put_step_def)

lemma a_claim_same [simp]:
  "a_name (a_claim w l r) = a_name r" "a_payload (a_claim w l r) = a_payload r"
  "a_phase (a_claim w l r) = Held w l" "a_run_at (a_claim w l r) = a_run_at r"
  by (simp_all add: a_claim_def split: phase.splits)

text \<open>A run survives every operation but pruning, and its step results are never changed.\<close>

definition a_extends :: "arun \<Rightarrow> arun \<Rightarrow> bool" where
  "a_extends r r' = (a_name r' = a_name r \<and> a_payload r' = a_payload r \<and> a_steps r \<subseteq>\<^sub>m a_steps r')"

lemma a_extends_refl [simp]: "a_extends r r"
  by (simp add: a_extends_def)

lemma a_extends_trans: "a_extends r r' \<Longrightarrow> a_extends r' r'' \<Longrightarrow> a_extends r r''"
  by (auto simp: a_extends_def intro: map_le_trans)

lemma a_extends_claim [simp]: "a_extends r (a_claim w l r)"
  by (auto simp: a_extends_def a_claim_def a_steps_put_step split: phase.splits)

lemma a_extends_signal [simp]: "a_extends r (a_signal now ev text r)"
  by (auto simp: a_extends_def a_signal_def a_steps_put_step split: phase.splits)

lemma a_extends_put [simp]: "a_extends r (put_step n text r)"
  by (simp add: a_extends_def a_steps_put_step)

lemma a_owner_op_runs:
  "a_owner_op rid w f s resp s' \<Longrightarrow>
     as_runs s' i = (if i = rid \<and> a_owns rid w s then Some (f (the (as_runs s rid))) else as_runs s i)"
  by (auto simp: a_owner_op_def split: if_splits)

lemma a_owner_op_extends:
  assumes "a_owner_op rid w f s resp s'" "as_runs s i = Some r" "\<And>r. a_extends r (f r)"
  shows "\<exists>r'. as_runs s' i = Some r' \<and> a_extends r r'"
  using a_owner_op_runs [OF assms(1), of i] assms(2,3) by auto

lemma astep_extends:
  assumes "astep c now fresh op s resp s'" "\<not> is_prune op" "as_runs s rid = Some r"
  shows "\<exists>r'. as_runs s' rid = Some r' \<and> a_extends r r'"
proof (cases op)
  case (Op_enqueue name payload opts)
  then show ?thesis
    using assms by (auto simp: Let_def split: option.splits)
next
  case (Op_claim w names lease)
  then show ?thesis
    using assms by (auto split: if_splits)
next
  case (Op_save_step i w n result)
  then show ?thesis
    using assms by (auto split: option.splits elim!: a_owner_op_extends)
next
  case (Op_fail i w err next_at finalize)
  then show ?thesis
    using assms by (auto split: option.splits if_splits elim!: a_owner_op_extends)
      (simp_all add: a_extends_def)
next
  case (Op_signal ev payload)
  then show ?thesis
    using assms by (auto split: option.splits simp: a_map_runs_def)
qed (use assms in \<open>auto simp: is_prune_def a_map_runs_def a_reclaim_def
      elim!: a_owner_op_extends, simp_all add: a_extends_def\<close>)

text \<open>An operation that is not the owner's leaves a held run alone while its lease lasts, and
  every operation but pruning leaves an ended run alone.\<close>

definition a_settled :: "int \<Rightarrow> (string \<times> string) option \<Rightarrow> string \<Rightarrow> arun \<Rightarrow> bool" where
  "a_settled now owner rid r = (case a_phase r of
      Ended _ _ \<Rightarrow> True
    | Held w lease \<Rightarrow> now \<le> lease \<and> owner \<noteq> Some (rid, w)
    | _ \<Rightarrow> False)"

lemma a_owner_op_settled:
  assumes "a_owner_op i w f s resp s'" "as_runs s rid = Some r" "a_settled now (Some (i, w)) rid r"
  shows "as_runs s' rid = Some r"
  using a_owner_op_runs [OF assms(1), of rid] assms(2,3)
  by (auto simp: a_owns_def a_settled_def)

lemma astep_settled:
  assumes "astep c now fresh op s resp s'" "\<not> is_prune op" "as_runs s rid = Some r"
    and "a_settled now (owner_of_op op) rid r"
  shows "as_runs s' rid = Some r"
proof (cases op)
  case (Op_enqueue name payload opts)
  then show ?thesis
    using assms by (auto simp: Let_def split: option.splits)
next
  case (Op_claim w names lease)
  then show ?thesis
    using assms by (auto simp: a_settled_def a_due_def split: if_splits phase.splits)
next
  case (Op_save_step i w n result)
  then show ?thesis
    using assms by (auto simp: owner_of_op_def split: option.splits elim: a_owner_op_settled)
next
  case (Op_fail i w err next_at finalize)
  then show ?thesis
    using assms by (auto simp: owner_of_op_def split: option.splits if_splits elim: a_owner_op_settled)
next
  case (Op_signal ev payload)
  then show ?thesis
    using assms by (auto simp: a_map_runs_def a_signal_def a_settled_def split: option.splits phase.splits)
qed (use assms in \<open>auto simp: is_prune_def owner_of_op_def a_map_runs_def a_reclaim_def a_expired_def
      a_settled_def split: phase.splits elim: a_owner_op_settled\<close>)

lemma astep_not_owner:
  assumes "astep c now fresh op s resp s'" "owner_of_op op = Some (rid, w)" "\<not> a_owns rid w s"
  shows "s' = s \<and> (\<exists>e. resp = Inl e)"
  using assms
  by (cases op) (auto simp: owner_of_op_def a_owner_op_def split: option.splits if_splits)

section \<open>The interface of a store\<close>

text \<open>A store may refuse a request up front, as \<^verbatim>\<open>RunsDb::enqueue\<close> refuses malformed run ids;
  every request it accepts is a step of the contract.\<close>

definition contract ::
    "('j store_op \<Rightarrow> bool) \<Rightarrow> 'j codec \<Rightarrow> int \<Rightarrow> string \<Rightarrow> 'j store_op \<Rightarrow> astate \<Rightarrow> 'j store_resp
     \<Rightarrow> astate \<Rightarrow> bool" where
  "contract accepts c now fresh op s resp s' =
     (if accepts op then astep c now fresh op s resp s' else resp = Inl InvalidId \<and> s' = s)"

lemma contract_extends:
  assumes "contract accepts c now fresh op s resp s'" "\<not> is_prune op" "as_runs s rid = Some r"
  shows "\<exists>r'. as_runs s' rid = Some r' \<and> a_extends r r'"
  using assms astep_extends by (auto simp: contract_def split: if_splits)

lemma contract_settled:
  assumes "contract accepts c now fresh op s resp s'" "\<not> is_prune op" "as_runs s rid = Some r"
    and "a_settled now (owner_of_op op) rid r"
  shows "as_runs s' rid = Some r"
  using assms astep_settled by (auto simp: contract_def split: if_splits)

lemma contract_not_owner:
  assumes "contract accepts c now fresh op s resp s'" "owner_of_op op = Some (rid, w)"
    and "\<not> a_owns rid w s"
  shows "s' = s \<and> (\<exists>e. resp = Inl e)"
proof (cases "accepts op")
  case True
  then have "astep c now fresh op s resp s'" using assms(1) by (simp add: contract_def)
  then show ?thesis using assms(2,3) by (rule astep_not_owner)
qed (use assms(1) in \<open>simp add: contract_def\<close>)

type_synonym 'j trace = "(int \<times> string \<times> 'j store_op) list"

fun run_ops ::
    "(int \<Rightarrow> string \<Rightarrow> 'j store_op \<Rightarrow> 's \<Rightarrow> 'j store_resp \<times> 's) \<Rightarrow> 'j trace \<Rightarrow> 's \<Rightarrow> 's" where
  "run_ops ex [] s = s"
| "run_ops ex ((now, fresh, op) # ops) s = run_ops ex ops (snd (ex now fresh op s))"

text \<open>The clock stays below the largest 64-bit time, which stands for never.\<close>

definition clock_ok :: "'j trace \<Rightarrow> bool" where
  "clock_ok ops = list_all (\<lambda>(now, _, _). now < i64_max) ops"

definition no_prune :: "'j trace \<Rightarrow> bool" where
  "no_prune ops = list_all (\<lambda>(_, _, op). \<not> is_prune op) ops"

definition within_lease :: "int \<Rightarrow> string \<Rightarrow> string \<Rightarrow> 'j trace \<Rightarrow> bool" where
  "within_lease lease rid w ops =
     list_all (\<lambda>(now, _, op). now \<le> lease \<and> owner_of_op op \<noteq> Some (rid, w)) ops"

locale run_store =
  fixes codec :: "'j codec"
    and ex :: "int \<Rightarrow> string \<Rightarrow> 'j store_op \<Rightarrow> 's \<Rightarrow> 'j store_resp \<times> 's"
    and view :: "'s \<Rightarrow> astate"
    and inv :: "'s \<Rightarrow> bool"
    and accepts :: "'j store_op \<Rightarrow> bool"
  assumes refines: "inv s \<Longrightarrow> now < i64_max \<Longrightarrow> ex now fresh op s = (resp, s') \<Longrightarrow>
      contract accepts codec now fresh op (view s) resp (view s')"
    and keeps: "inv s \<Longrightarrow> now < i64_max \<Longrightarrow> ex now fresh op s = (resp, s') \<Longrightarrow> inv s'"
begin

lemma step_inv: "inv s \<Longrightarrow> now < i64_max \<Longrightarrow> inv (snd (ex now fresh op s))"
  by (metis keeps prod.collapse)

lemma step_refines:
  "inv s \<Longrightarrow> now < i64_max \<Longrightarrow>
     contract accepts codec now fresh op (view s) (fst (ex now fresh op s))
       (view (snd (ex now fresh op s)))"
  by (metis refines prod.collapse)

lemma run_inv: "inv s \<Longrightarrow> clock_ok ops \<Longrightarrow> inv (run_ops ex ops s)"
  by (induction ops arbitrary: s) (auto simp: clock_ok_def step_inv)

lemma run_extends:
  "inv s \<Longrightarrow> clock_ok ops \<Longrightarrow> no_prune ops \<Longrightarrow> as_runs (view s) rid = Some r \<Longrightarrow>
     \<exists>r'. as_runs (view (run_ops ex ops s)) rid = Some r' \<and> a_extends r r'"
proof (induction ops arbitrary: s r)
  case (Cons o' ops)
  obtain now fresh op where o': "o' = (now, fresh, op)" by (cases o')
  let ?s = "snd (ex now fresh op s)"
  have now: "now < i64_max" and np: "\<not> is_prune op"
    using Cons.prems o' by (simp_all add: clock_ok_def no_prune_def)
  obtain r1 where "as_runs (view ?s) rid = Some r1" and r1: "a_extends r r1"
    using contract_extends [OF step_refines [OF Cons.prems(1) now] np Cons.prems(4)] by blast
  moreover have "clock_ok ops" "no_prune ops"
    using Cons.prems o' by (simp_all add: clock_ok_def no_prune_def)
  ultimately obtain r' where "as_runs (view (run_ops ex ops ?s)) rid = Some r'" "a_extends r1 r'"
    using Cons.IH [OF step_inv [OF Cons.prems(1) now]] by blast
  then show ?case using r1 o' a_extends_trans by auto
qed auto

lemma run_ended:
  "inv s \<Longrightarrow> clock_ok ops \<Longrightarrow> no_prune ops \<Longrightarrow> as_runs (view s) rid = Some r \<Longrightarrow>
     a_phase r = Ended st t \<Longrightarrow> as_runs (view (run_ops ex ops s)) rid = Some r"
proof (induction ops arbitrary: s)
  case (Cons o' ops)
  obtain now fresh op where o': "o' = (now, fresh, op)" by (cases o')
  have now: "now < i64_max" and np: "\<not> is_prune op"
    using Cons.prems o' by (simp_all add: clock_ok_def no_prune_def)
  have "as_runs (view (snd (ex now fresh op s))) rid = Some r"
    using contract_settled [OF step_refines [OF Cons.prems(1) now] np Cons.prems(4)] Cons.prems(5)
    by (simp add: a_settled_def)
  then show ?case
    using Cons.IH [OF step_inv [OF Cons.prems(1) now]] Cons.prems o'
    by (simp add: clock_ok_def no_prune_def)
qed auto

lemma run_lease:
  "inv s \<Longrightarrow> clock_ok ops \<Longrightarrow> no_prune ops \<Longrightarrow> within_lease lease rid w ops \<Longrightarrow>
     as_runs (view s) rid = Some r \<Longrightarrow> a_phase r = Held w lease \<Longrightarrow>
     as_runs (view (run_ops ex ops s)) rid = Some r"
proof (induction ops arbitrary: s)
  case (Cons o' ops)
  obtain now fresh op where o': "o' = (now, fresh, op)" by (cases o')
  have now: "now < i64_max" and np: "\<not> is_prune op"
    using Cons.prems o' by (simp_all add: clock_ok_def no_prune_def)
  have "as_runs (view (snd (ex now fresh op s))) rid = Some r"
    using contract_settled [OF step_refines [OF Cons.prems(1) now] np Cons.prems(5)] Cons.prems(4,6) o'
    by (simp add: a_settled_def within_lease_def)
  then show ?case
    using Cons.IH [OF step_inv [OF Cons.prems(1) now]] Cons.prems o'
    by (simp add: clock_ok_def no_prune_def within_lease_def)
qed auto

lemma stale_rejected:
  assumes "inv s" "now < i64_max" "owner_of_op op = Some (rid, w)" "\<not> a_owns rid w (view s)"
  shows "view (snd (ex now fresh op s)) = view s \<and> (\<exists>e. fst (ex now fresh op s) = Inl e)"
  using contract_not_owner [OF step_refines [OF assms(1,2)] assms(3,4)] .

end

end
