(* ===== verification/Workflow_Sqlite.thy ===== *)
theory Workflow_Sqlite
  imports Workflow_Spec
begin

text \<open>
  The SQLite workflow store (\<^verbatim>\<open>tako-workflows/src/enqueue/sqlite.rs\<close>), one definition
  per method of \<^verbatim>\<open>SqliteRunsDb\<close>.  A method that returns an error rolls its transaction
  back: its result state is the state before.
\<close>

section \<open>Operations\<close>

type_synonym 'a sqlite_result = "(runs_db_error + 'a) \<times> runs_db"

definition sqlite_enqueue ::
    "'j codec \<Rightarrow> int \<Rightarrow> string \<Rightarrow> string \<Rightarrow> 'j \<Rightarrow> enqueue_opts \<Rightarrow> runs_db
     \<Rightarrow> enqueue_run_response sqlite_result" where
  "sqlite_enqueue c now fresh name payload opts db =
     (case to_string c payload of
        None \<Rightarrow> (Inl JsonError, db)
      | Some payload_json \<Rightarrow>
          let rid = (case o_id opts of Some i \<Rightarrow> i | None \<Rightarrow> fresh);
              existing = sql_lookup r_id rid (db_runs db);
              runs' = sql_insert_ignore r_id (new_run now rid name payload_json opts) (db_runs db)
          in case existing of
               None \<Rightarrow>
                 (Inr \<lparr>er_id = rid, er_deduplicated = False\<rparr>, db\<lparr>db_runs := runs'\<rparr>)
             | Some r \<Rightarrow>
                 (case check_existing_run c rid name payload (r_name r) (r_payload r) of
                    Inl e \<Rightarrow> (Inl e, db)
                  | Inr _ \<Rightarrow>
                      (Inr \<lparr>er_id = rid, er_deduplicated = True\<rparr>, db\<lparr>db_runs := runs'\<rparr>)))"

text \<open>\<^verbatim>\<open>SELECT .. ORDER BY run_at LIMIT 1\<close>.\<close>

definition select_claim :: "scans \<Rightarrow> int \<Rightarrow> string list \<Rightarrow> run_row list \<Rightarrow> run_row option" where
  "select_claim sc now names runs =
     (case sort_key r_run_at (scan_runs sc (filter (claimable now names) runs)) of
        [] \<Rightarrow> None
      | r # _ \<Rightarrow> Some r)"

definition sqlite_claim ::
    "'j codec \<Rightarrow> scans \<Rightarrow> int \<Rightarrow> string \<Rightarrow> string list \<Rightarrow> 64 word \<Rightarrow> runs_db
     \<Rightarrow> 'j run_payload option sqlite_result" where
  "sqlite_claim c sc now w names lease_ms db =
     (if names = [] then (Inr None, db)
      else
        let lease_until = i64_sat_add now (clamp_lease_ms lease_ms)
        in case select_claim sc now names (db_runs db) of
             None \<Rightarrow> (Inr None, db)
           | Some cand \<Rightarrow>
               let rid = r_id cand;
                   runs' = sql_update (\<lambda>r. r_id r = rid) (set_running w lease_until) (db_runs db);
                   timed_out = scan_waiters sc (filter (waiter_expired now rid) (db_waiters db));
                   steps' = fold (sql_insert_ignore st_key)
                     (map (\<lambda>x. \<lparr>st_run_id = w_run_id x, st_name = w_step_name x,
                                 st_result = ''null'', st_completed_at = now\<rparr>) timed_out)
                     (db_steps db);
                   waiters' = sql_delete (waiter_expired now rid) (db_waiters db);
                   step_rows = scan_steps sc (filter (\<lambda>s. st_run_id s = rid) steps')
               in (Inr (Some (claimed_payload c w (set_running w lease_until cand) step_rows)),
                   db\<lparr>db_runs := runs', db_steps := steps', db_waiters := waiters'\<rparr>))"

text \<open>An \<^verbatim>\<open>UPDATE\<close> of the run the worker owns, \<^verbatim>\<open>StaleWorker\<close> when no row qualifies.\<close>

definition update_owned ::
    "string \<Rightarrow> string \<Rightarrow> (run_row \<Rightarrow> run_row) \<Rightarrow> runs_db \<Rightarrow> unit sqlite_result" where
  "update_owned rid w f db =
     (if sql_count (owned_by rid w) (db_runs db) = 0 then (Inl StaleWorker, db)
      else (Inr (), db\<lparr>db_runs := sql_update (owned_by rid w) f (db_runs db)\<rparr>))"

definition sqlite_heartbeat ::
    "int \<Rightarrow> string \<Rightarrow> string \<Rightarrow> 64 word \<Rightarrow> runs_db \<Rightarrow> unit sqlite_result" where
  "sqlite_heartbeat now rid w lease_ms db =
     (let lease_until = i64_sat_add now (clamp_lease_ms lease_ms)
      in update_owned rid w (\<lambda>r. r\<lparr>r_lease_until := Some lease_until\<rparr>) db)"

definition sqlite_save_step ::
    "'j codec \<Rightarrow> int \<Rightarrow> string \<Rightarrow> string \<Rightarrow> string \<Rightarrow> 'j \<Rightarrow> runs_db \<Rightarrow> unit sqlite_result" where
  "sqlite_save_step c now rid w step_name result db =
     (case to_string c result of
        None \<Rightarrow> (Inl JsonError, db)
      | Some text \<Rightarrow>
          let row = \<lparr>st_run_id = rid, st_name = step_name, st_result = text, st_completed_at = now\<rparr>;
              selected = filter (owned_by rid w) (db_runs db);
              steps' = fold (\<lambda>_. sql_insert_ignore st_key row) selected (db_steps db);
              db' = db\<lparr>db_steps := steps'\<rparr>
          in if length steps' = length (db_steps db)
             then case find (\<lambda>r. r_id r = rid \<and> r_status r = Running) (db_runs db) of
                    None \<Rightarrow> (Inl StaleWorker, db')
                  | Some r \<Rightarrow> if r_worker_id r = Some w then (Inr (), db') else (Inl StaleWorker, db')
             else (Inr (), db'))"

definition sqlite_complete :: "int \<Rightarrow> string \<Rightarrow> string \<Rightarrow> runs_db \<Rightarrow> unit sqlite_result" where
  "sqlite_complete now rid w db =
     update_owned rid w (\<lambda>r. set_finished Succeeded (r_last_error r) now r) db"

definition sqlite_cancel ::
    "int \<Rightarrow> string \<Rightarrow> string \<Rightarrow> string option \<Rightarrow> runs_db \<Rightarrow> unit sqlite_result" where
  "sqlite_cancel now rid w reason db = update_owned rid w (set_finished Cancelled reason now) db"

definition sqlite_fail ::
    "int \<Rightarrow> string \<Rightarrow> string \<Rightarrow> string \<Rightarrow> int option \<Rightarrow> bool \<Rightarrow> runs_db \<Rightarrow> unit sqlite_result" where
  "sqlite_fail now rid w err next_run_at_ms finalize db =
     (if finalize then update_owned rid w (set_finished Dead (Some err) now) db
      else case next_run_at_ms of
             None \<Rightarrow> (Inl (Storage ''fail(finalize=false) requires next_run_at_ms''), db)
           | Some next_at \<Rightarrow> update_owned rid w (set_retry err next_at) db)"

text \<open>The ids of \<^verbatim>\<open>SELECT id .. ORDER BY finished_at LIMIT n\<close>.\<close>

definition select_prune :: "scans \<Rightarrow> int \<Rightarrow> nat \<Rightarrow> run_row list \<Rightarrow> string list" where
  "select_prune sc cutoff limit runs =
     map r_id (take limit
       (sort_key (\<lambda>r. the (r_finished_at r)) (scan_runs sc (filter (prunable cutoff) runs))))"

text \<open>Deleting a run deletes its steps and waiters (\<^verbatim>\<open>ON DELETE CASCADE\<close>).\<close>

definition sqlite_prune_finished_before ::
    "scans \<Rightarrow> int \<Rightarrow> 32 word \<Rightarrow> runs_db \<Rightarrow> nat sqlite_result" where
  "sqlite_prune_finished_before sc cutoff limit db =
     (let ids = select_prune sc cutoff (unat limit) (db_runs db)
      in (Inr (sql_count (\<lambda>r. r_id r \<in> set ids) (db_runs db)),
          db\<lparr>db_runs := sql_delete (\<lambda>r. r_id r \<in> set ids) (db_runs db),
             db_steps := sql_delete (\<lambda>s. st_run_id s \<in> set ids) (db_steps db),
             db_waiters := sql_delete (\<lambda>x. w_run_id x \<in> set ids) (db_waiters db)\<rparr>))"

definition sqlite_defer ::
    "string \<Rightarrow> string \<Rightarrow> int option \<Rightarrow> runs_db \<Rightarrow> unit sqlite_result" where
  "sqlite_defer rid w wake_at_ms db =
     (let run_at = (case wake_at_ms of Some t \<Rightarrow> t | None \<Rightarrow> i64_max)
      in update_owned rid w (set_parked run_at) db)"

definition sqlite_reclaim_expired :: "int \<Rightarrow> runs_db \<Rightarrow> nat sqlite_result" where
  "sqlite_reclaim_expired now db =
     (Inr (sql_count (expired now) (db_runs db)),
      db\<lparr>db_runs := sql_update (expired now) set_reclaimed (db_runs db)\<rparr>)"

definition sqlite_reclaim_expired_with_workers ::
    "scans \<Rightarrow> int \<Rightarrow> runs_db \<Rightarrow> string list sqlite_result" where
  "sqlite_reclaim_expired_with_workers sc now db =
     (let workers = List.map_filter r_worker_id
            (scan_runs sc (filter (\<lambda>r. expired now r \<and> r_worker_id r \<noteq> None) (db_runs db)))
      in (Inr workers, db\<lparr>db_runs := sql_update (expired now) set_reclaimed (db_runs db)\<rparr>))"

definition sqlite_in_flight_by_worker :: "runs_db \<Rightarrow> (string \<times> 32 word) list" where
  "sqlite_in_flight_by_worker db =
     (let running = filter (\<lambda>r. r_status r = Running \<and> r_worker_id r \<noteq> None) (db_runs db)
      in map (\<lambda>w. (w, of_nat (sql_count (\<lambda>r. r_worker_id r = Some w) running)))
           (remdups (List.map_filter r_worker_id running)))"

definition sqlite_wait_for_event ::
    "string \<Rightarrow> string \<Rightarrow> string \<Rightarrow> string \<Rightarrow> int option \<Rightarrow> runs_db \<Rightarrow> unit sqlite_result" where
  "sqlite_wait_for_event rid w step_name event_name timeout_at_ms db =
     (let at = (case timeout_at_ms of Some t \<Rightarrow> t | None \<Rightarrow> i64_max)
      in case update_owned rid w (set_parked at) db of
           (Inl e, _) \<Rightarrow> (Inl e, db)
         | (Inr _, db1) \<Rightarrow>
             (Inr (),
              db1\<lparr>db_waiters := sql_insert_replace w_key
                    \<lparr>w_run_id = rid, w_step_name = step_name, w_event_name = event_name,
                     w_expires_at = timeout_at_ms\<rparr> (db_waiters db1)\<rparr>))"

definition sqlite_signal_one ::
    "string \<Rightarrow> int \<Rightarrow> waiter_row \<Rightarrow> runs_db \<Rightarrow> runs_db" where
  "sqlite_signal_one text now x db =
     (let row = \<lparr>st_run_id = w_run_id x, st_name = w_step_name x, st_result = text,
                 st_completed_at = now\<rparr>
      in db\<lparr>db_steps := sql_insert_ignore st_key row (db_steps db),
            db_runs := sql_update (\<lambda>r. r_id r = w_run_id x \<and> r_status r = Pending)
                         (\<lambda>r. r\<lparr>r_status := Pending, r_run_at := now\<rparr>) (db_runs db),
            db_waiters := sql_delete
                         (\<lambda>y. w_run_id y = w_run_id x \<and> w_step_name y = w_step_name x)
                         (db_waiters db)\<rparr>)"

definition sqlite_signal ::
    "'j codec \<Rightarrow> scans \<Rightarrow> int \<Rightarrow> string \<Rightarrow> 'j \<Rightarrow> runs_db \<Rightarrow> nat sqlite_result" where
  "sqlite_signal c sc now event_name payload db =
     (case to_string c payload of
        None \<Rightarrow> (Inl JsonError, db)
      | Some text \<Rightarrow>
          let waiters = scan_waiters sc (filter (\<lambda>x. w_event_name x = event_name) (db_waiters db))
          in (Inr (length waiters), fold (sqlite_signal_one text now) waiters db))"

definition sqlite_pending_count :: "runs_db \<Rightarrow> nat" where
  "sqlite_pending_count db = sql_count (\<lambda>r. r_status r = Pending) (db_runs db)"

definition sqlite_has_runnable_work :: "int \<Rightarrow> runs_db \<Rightarrow> bool" where
  "sqlite_has_runnable_work now db =
     list_ex (\<lambda>r. r_status r = Pending \<and> r_run_at r \<le> now) (db_runs db)"

definition sqlite_replace_schedules ::
    "int \<Rightarrow> schedule_spec list \<Rightarrow> runs_db \<Rightarrow> unit sqlite_result" where
  "sqlite_replace_schedules now schedules db =
     (let kept = (if schedules = [] then []
                  else sql_delete (\<lambda>s. s_name s \<notin> set (map sp_name schedules)) (db_schedules db));
          put = (\<lambda>sp. sql_upsert s_name (\<lambda>x. x\<lparr>s_cron := sp_cron sp\<rparr>)
                   \<lparr>s_name = sp_name sp, s_cron = sp_cron sp, s_last_run_at = Some now\<rparr>)
      in (Inr (), db\<lparr>db_schedules := fold put schedules kept\<rparr>))"

definition sqlite_list_schedules :: "scans \<Rightarrow> runs_db \<Rightarrow> schedule_row list" where
  "sqlite_list_schedules sc db = scan_schedules sc (db_schedules db)"

definition sqlite_set_schedule_last_run_at ::
    "string \<Rightarrow> int \<Rightarrow> runs_db \<Rightarrow> unit sqlite_result" where
  "sqlite_set_schedule_last_run_at name ts db =
     (Inr (), db\<lparr>db_schedules := sql_update (\<lambda>s. s_name s = name)
                   (\<lambda>s. s\<lparr>s_last_run_at := Some ts\<rparr>) (db_schedules db)\<rparr>)"

text \<open>Opening a database: runs that had ended before finish times were recorded get the time of
  the upgrade, so that they are retained for the full period.\<close>

definition unfinished :: "run_row \<Rightarrow> bool" where
  "unfinished r = (r_finished_at r = None \<and> terminal (r_status r))"

definition schema_init :: "int \<Rightarrow> runs_db \<Rightarrow> runs_db" where
  "schema_init now db =
     db\<lparr>db_runs := sql_update unfinished (\<lambda>r. r\<lparr>r_finished_at := Some now\<rparr>) (db_runs db)\<rparr>"

section \<open>The store as one state machine\<close>

definition lift_ok ::
    "('a \<Rightarrow> 'j store_ok) \<Rightarrow> (runs_db_error + 'a) \<times> 's \<Rightarrow> 'j store_resp \<times> 's" where
  "lift_ok f p = (case fst p of Inl e \<Rightarrow> (Inl e, snd p) | Inr v \<Rightarrow> (Inr (f v), snd p))"

fun sqlite_exec ::
    "'j codec \<Rightarrow> scans \<Rightarrow> int \<Rightarrow> string \<Rightarrow> 'j store_op \<Rightarrow> runs_db \<Rightarrow> 'j store_resp \<times> runs_db" where
  "sqlite_exec c sc now fresh (Op_enqueue name payload opts) db =
     lift_ok Ok_enqueued (sqlite_enqueue c now fresh name payload opts db)"
| "sqlite_exec c sc now fresh (Op_claim w names lease_ms) db =
     lift_ok Ok_claimed (sqlite_claim c sc now w names lease_ms db)"
| "sqlite_exec c sc now fresh (Op_heartbeat rid w lease_ms) db =
     lift_ok (\<lambda>_. Ok_unit) (sqlite_heartbeat now rid w lease_ms db)"
| "sqlite_exec c sc now fresh (Op_save_step rid w n result) db =
     lift_ok (\<lambda>_. Ok_unit) (sqlite_save_step c now rid w n result db)"
| "sqlite_exec c sc now fresh (Op_complete rid w) db =
     lift_ok (\<lambda>_. Ok_unit) (sqlite_complete now rid w db)"
| "sqlite_exec c sc now fresh (Op_cancel rid w reason) db =
     lift_ok (\<lambda>_. Ok_unit) (sqlite_cancel now rid w reason db)"
| "sqlite_exec c sc now fresh (Op_fail rid w err next_at finalize) db =
     lift_ok (\<lambda>_. Ok_unit) (sqlite_fail now rid w err next_at finalize db)"
| "sqlite_exec c sc now fresh (Op_prune cutoff limit) db =
     lift_ok Ok_count (sqlite_prune_finished_before sc cutoff limit db)"
| "sqlite_exec c sc now fresh (Op_defer rid w wake_at) db =
     lift_ok (\<lambda>_. Ok_unit) (sqlite_defer rid w wake_at db)"
| "sqlite_exec c sc now fresh Op_reclaim db =
     lift_ok Ok_count (sqlite_reclaim_expired now db)"
| "sqlite_exec c sc now fresh Op_reclaim_with_workers db =
     lift_ok Ok_workers (sqlite_reclaim_expired_with_workers sc now db)"
| "sqlite_exec c sc now fresh (Op_wait_for_event rid w n ev timeout_at) db =
     lift_ok (\<lambda>_. Ok_unit) (sqlite_wait_for_event rid w n ev timeout_at db)"
| "sqlite_exec c sc now fresh (Op_signal ev payload) db =
     lift_ok Ok_count (sqlite_signal c sc now ev payload db)"
| "sqlite_exec c sc now fresh (Op_replace_schedules specs) db =
     lift_ok (\<lambda>_. Ok_unit) (sqlite_replace_schedules now specs db)"
| "sqlite_exec c sc now fresh (Op_set_schedule n ts) db =
     lift_ok (\<lambda>_. Ok_unit) (sqlite_set_schedule_last_run_at n ts db)"

definition empty_db :: runs_db where
  "empty_db = \<lparr>db_runs = [], db_steps = [], db_waiters = [], db_schedules = []\<rparr>"

section \<open>Invariant and abstraction\<close>

definition row_ok :: "run_row \<Rightarrow> bool" where
  "row_ok r =
     ((r_worker_id r \<noteq> None \<longleftrightarrow> r_status r = Running)
      \<and> (r_lease_until r \<noteq> None \<longleftrightarrow> r_status r = Running)
      \<and> (r_finished_at r \<noteq> None \<longleftrightarrow> terminal (r_status r))
      \<and> 0 \<le> r_attempts r \<and> (r_status r = Running \<longrightarrow> 1 \<le> r_attempts r))"

definition waiter_ok :: "run_row list \<Rightarrow> waiter_row \<Rightarrow> bool" where
  "waiter_ok runs x =
     (case sql_lookup r_id (w_run_id x) runs of
        None \<Rightarrow> False
      | Some r \<Rightarrow> r_status r = Pending \<and> r_run_at r = wake_time (w_expires_at x))"

definition wf_db :: "runs_db \<Rightarrow> bool" where
  "wf_db db =
     (unique_key r_id (db_runs db) \<and> unique_key st_key (db_steps db)
      \<and> unique_key w_run_id (db_waiters db) \<and> unique_key s_name (db_schedules db)
      \<and> (\<forall>r\<in>set (db_runs db). row_ok r)
      \<and> (\<forall>s\<in>set (db_steps db). st_run_id s \<in> r_id ` set (db_runs db))
      \<and> (\<forall>x\<in>set (db_waiters db). waiter_ok (db_runs db) x))"

definition abs_phase :: "runs_db \<Rightarrow> run_row \<Rightarrow> phase" where
  "abs_phase db r =
     (case r_status r of
        Pending \<Rightarrow>
          (case sql_lookup w_run_id (r_id r) (db_waiters db) of
             None \<Rightarrow> Queued
           | Some x \<Rightarrow> Parked (w_step_name x) (w_event_name x) (w_expires_at x))
      | Running \<Rightarrow> Held (the (r_worker_id r)) (the (r_lease_until r))
      | st \<Rightarrow> Ended st (the (r_finished_at r)))"

definition abs_run :: "runs_db \<Rightarrow> run_row \<Rightarrow> arun" where
  "abs_run db r =
     \<lparr>a_name = r_name r, a_payload = r_payload r, a_phase = abs_phase db r,
      a_attempts = r_attempts r, a_max_attempts = r_max_attempts r, a_run_at = r_run_at r,
      a_error = r_last_error r, a_created = r_created_at r,
      a_steps = (\<lambda>n. map_option st_result (sql_lookup st_key (r_id r, n) (db_steps db)))\<rparr>"

definition sqlite_view :: "runs_db \<Rightarrow> astate" where
  "sqlite_view db =
     \<lparr>as_runs = (\<lambda>rid. map_option (abs_run db) (sql_lookup r_id rid (db_runs db))),
      as_schedules = (\<lambda>n. map_option (\<lambda>s. (s_cron s, s_last_run_at s))
                           (sql_lookup s_name n (db_schedules db)))\<rparr>"

lemma wf_empty_db: "wf_db empty_db"
  by (simp add: wf_db_def empty_db_def)

text \<open>Opening a well-formed database changes nothing.\<close>

lemma schema_init_wf: "wf_db db \<Longrightarrow> schema_init now db = db"
proof -
  assume "wf_db db"
  then have "sql_count unfinished (db_runs db) = 0"
    by (auto simp: sql_count_zero wf_db_def row_ok_def unfinished_def)
  then show ?thesis by (simp add: schema_init_def update_none)
qed

lemma view_empty_db: "sqlite_view empty_db = \<lparr>as_runs = Map.empty, as_schedules = Map.empty\<rparr>"
  by (auto simp: sqlite_view_def empty_db_def)

lemma lift_ok_simps [simp]:
  "lift_ok f (Inl e, s) = (Inl e, s)" "lift_ok f (Inr v, s) = (Inr (f v), s)"
  by (simp_all add: lift_ok_def)

lemma wf_lookup_ok: "wf_db db \<Longrightarrow> sql_lookup r_id rid (db_runs db) = Some r \<Longrightarrow> row_ok r"
  by (auto simp: wf_db_def dest: sql_lookup_in)

lemma wf_no_waiter:
  assumes "wf_db db" "sql_lookup r_id rid (db_runs db) = Some r" "r_status r \<noteq> Pending"
  shows "sql_lookup w_run_id rid (db_waiters db) = None"
proof (rule ccontr)
  assume "sql_lookup w_run_id rid (db_waiters db) \<noteq> None"
  then obtain x where x: "x \<in> set (db_waiters db)" "w_run_id x = rid"
    by (auto dest!: sql_lookup_SomeD)
  then have "waiter_ok (db_runs db) x" using assms(1) by (simp add: wf_db_def)
  then show False using assms(2,3) x(2) by (simp add: waiter_ok_def)
qed

lemma abs_run_other_tables [simp]:
  "abs_run (db\<lparr>db_runs := rs\<rparr>) r = abs_run db r"
  "abs_run (db\<lparr>db_schedules := xs\<rparr>) r = abs_run db r"
  by (cases "r_status r"; simp add: abs_run_def abs_phase_def)+

text \<open>A statement on the runs alone acts on the abstract runs one by one.\<close>

lemma view_update_runs:
  assumes "\<And>r. r_id (f r) = r_id r"
  shows "as_runs (sqlite_view (db\<lparr>db_runs := sql_update P f (db_runs db)\<rparr>)) rid =
     map_option (\<lambda>r. abs_run db (if P r then f r else r)) (sql_lookup r_id rid (db_runs db))"
  using assms by (simp add: sqlite_view_def lookup_update option.map_comp o_def)

lemma view_schedules_runs [simp]:
  "as_schedules (sqlite_view (db\<lparr>db_runs := rs\<rparr>)) = as_schedules (sqlite_view db)"
  "as_schedules (sqlite_view (db\<lparr>db_steps := ss\<rparr>)) = as_schedules (sqlite_view db)"
  "as_schedules (sqlite_view (db\<lparr>db_waiters := ws\<rparr>)) = as_schedules (sqlite_view db)"
  by (simp_all add: sqlite_view_def)

lemma abs_phase_Held:
  "row_ok r \<Longrightarrow> abs_phase db r = Held w l \<longleftrightarrow>
     r_status r = Running \<and> r_worker_id r = Some w \<and> r_lease_until r = Some l"
  by (auto simp: abs_phase_def row_ok_def split: run_status.splits option.splits)

lemma owned_iff:
  assumes "wf_db db"
  shows "a_owns rid w (sqlite_view db) \<longleftrightarrow> sql_count (owned_by rid w) (db_runs db) \<noteq> 0"
proof -
  have "sql_count (owned_by rid w) (db_runs db) \<noteq> 0 \<longleftrightarrow>
      (\<exists>r. sql_lookup r_id rid (db_runs db) = Some r \<and> owned_by rid w r)"
    using assms by (auto simp: sql_count_zero wf_db_def sql_lookup_iff owned_by_def)
  moreover have "owned_by rid w r \<longleftrightarrow> (\<exists>l. abs_phase db r = Held w l)"
    if "sql_lookup r_id rid (db_runs db) = Some r" for r
    using abs_phase_Held [OF wf_lookup_ok [OF assms that]] wf_lookup_ok [OF assms that]
      sql_lookup_key [OF that]
    by (auto simp: owned_by_def row_ok_def)
  ultimately show ?thesis
    by (auto simp: a_owns_def sqlite_view_def abs_run_def)
qed

lemma astate_eqI:
  fixes s :: astate
  assumes "as_runs s = as_runs s'" "as_schedules s = as_schedules s'"
  shows "s = s'"
  using assms by simp

lemma update_owned_refines:
  assumes wf: "wf_db db" and f: "\<And>r. r_id (f r) = r_id r"
    and g: "\<And>r. owned_by rid w r \<Longrightarrow> row_ok r \<Longrightarrow> sql_lookup r_id rid (db_runs db) = Some r \<Longrightarrow>
              abs_run db (f r) = g (abs_run db r)"
    and res: "lift_ok (\<lambda>_. Ok_unit) (update_owned rid w f db) = (resp, db')"
  shows "a_owner_op rid w g (sqlite_view db) resp (sqlite_view db')"
proof (cases "sql_count (owned_by rid w) (db_runs db) = 0")
  case True
  then show ?thesis
    using res owned_iff [OF wf, of rid w] by (auto simp: update_owned_def a_owner_op_def)
next
  case False
  then obtain r where "r \<in> set (db_runs db)" "owned_by rid w r"
    by (auto simp: sql_count_zero)
  then have r: "sql_lookup r_id rid (db_runs db) = Some r" "owned_by rid w r"
    using wf by (simp_all add: wf_db_def sql_lookup_iff owned_by_def)
  have other: "\<not> owned_by rid w r'" if "sql_lookup r_id i (db_runs db) = Some r'" "i \<noteq> rid" for i r'
    using sql_lookup_key [OF that(1)] that(2) by (simp add: owned_by_def)
  have "as_runs (sqlite_view db') i =
      ((as_runs (sqlite_view db))(rid \<mapsto> g (the (as_runs (sqlite_view db) rid)))) i" for i
    using res False r g [OF r(2) wf_lookup_ok [OF wf r(1)] r(1)] other
    by (cases "i = rid"; cases "sql_lookup r_id i (db_runs db)")
       (auto simp: update_owned_def view_update_runs [OF f], simp_all add: sqlite_view_def)
  then show ?thesis
    using res False owned_iff [OF wf, of rid w]
    by (auto simp: update_owned_def a_owner_op_def intro!: astate_eqI)
qed

lemma update_runs_wf:
  assumes wf: "wf_db db" and f: "\<And>r. r_id (f r) = r_id r"
    and ok: "\<And>r. P r \<Longrightarrow> row_ok r \<Longrightarrow> row_ok (f r)" and P: "\<And>r. P r \<Longrightarrow> r_status r \<noteq> Pending"
  shows "wf_db (db\<lparr>db_runs := sql_update P f (db_runs db)\<rparr>)"
proof -
  have "waiter_ok (sql_update P f (db_runs db)) x" if "waiter_ok (db_runs db) x" for x
    using that P by (auto simp: waiter_ok_def lookup_update [where key = r_id and f = f, OF f] split: option.splits)
  moreover have "row_ok r" if "r \<in> set (sql_update P f (db_runs db))" for r
    using that wf ok by (auto simp: wf_db_def set_update)
  ultimately show ?thesis
    using wf by (simp add: wf_db_def unique_update [where key = r_id and f = f, OF f]
        image_key_update [where key = r_id and f = f, OF f])
qed

lemma update_owned_wf:
  assumes "wf_db db" "\<And>r. r_id (f r) = r_id r"
    and "\<And>r. owned_by rid w r \<Longrightarrow> row_ok r \<Longrightarrow> row_ok (f r)"
  shows "wf_db (snd (update_owned rid w f db))"
  using assms update_runs_wf [of db f "owned_by rid w"]
  by (auto simp: update_owned_def owned_by_def)

lemma snd_lift_ok: "lift_ok f p = (resp, s) \<Longrightarrow> s = snd p"
  by (auto simp: lift_ok_def split: sum.splits)

end
