(* ===== verification/Workflow_Sqlite_Refine.thy ===== *)
theory Workflow_Sqlite_Refine
  imports Workflow_Sqlite
begin

text \<open>
  The SQLite store implements the contract of \<open>Workflow_Spec\<close>: every operation on a
  well-formed database is a step of the contract on its abstraction and leaves a
  well-formed database.
\<close>

section \<open>Every operation implements the contract\<close>

text \<open>The owner's operations, all of one shape.\<close>

lemma owner_op_implements:
  assumes "wf_db db" "lift_ok (\<lambda>_. Ok_unit) (update_owned rid w f db) = (resp, db')"
    and "\<And>r. r_id (f r) = r_id r"
    and "\<And>r. owned_by rid w r \<Longrightarrow> row_ok r \<Longrightarrow> row_ok (f r)"
    and "\<And>r. owned_by rid w r \<Longrightarrow> row_ok r \<Longrightarrow> sql_lookup r_id rid (db_runs db) = Some r \<Longrightarrow>
            abs_run db (f r) = g (abs_run db r)"
  shows "a_owner_op rid w g (sqlite_view db) resp (sqlite_view db') \<and> wf_db db'"
proof
  show "a_owner_op rid w g (sqlite_view db) resp (sqlite_view db')"
    by (rule update_owned_refines [where f = f and g = g, OF assms(1)]) (fact assms)+
  have "wf_db (snd (update_owned rid w f db))"
    by (rule update_owned_wf [where f = f, OF assms(1)]) (fact assms)+
  then show "wf_db db'" using snd_lift_ok [OF assms(2)] by (rule ssubst [rotated])
qed

lemmas owner_simps = owned_by_def row_ok_def abs_run_def abs_phase_def terminal_def
  set_finished_def set_retry_def set_parked_def

lemma heartbeat_implements:
  assumes "wf_db db" "sqlite_exec c sc now fresh (Op_heartbeat rid w l) db = (resp, db')"
  shows "astep c now fresh (Op_heartbeat rid w l) (sqlite_view db) resp (sqlite_view db')
    \<and> wf_db db'"
proof -
  have "lift_ok (\<lambda>_. Ok_unit) (update_owned rid w (\<lambda>r. r\<lparr>r_lease_until := Some (i64_sat_add now (clamp_lease_ms l))\<rparr>) db) = (resp, db')"
    using assms(2) by (simp add: sqlite_heartbeat_def Let_def)
  then have "a_owner_op rid w (\<lambda>r. r\<lparr>a_phase := Held w (i64_sat_add now (clamp_lease_ms l))\<rparr>)
      (sqlite_view db) resp (sqlite_view db') \<and> wf_db db'"
    by (rule owner_op_implements [OF assms(1)]) (auto simp: owner_simps)
  then show ?thesis by simp
qed

lemma complete_implements:
  assumes "wf_db db" "sqlite_exec c sc now fresh (Op_complete rid w) db = (resp, db')"
  shows "astep c now fresh (Op_complete rid w) (sqlite_view db) resp (sqlite_view db')
    \<and> wf_db db'"
proof -
  have "lift_ok (\<lambda>_. Ok_unit) (update_owned rid w (\<lambda>r. set_finished Succeeded (r_last_error r) now r) db) = (resp, db')"
    using assms(2) by (simp add: sqlite_complete_def Let_def)
  then have "a_owner_op rid w (\<lambda>r. r\<lparr>a_phase := Ended Succeeded now\<rparr>)
      (sqlite_view db) resp (sqlite_view db') \<and> wf_db db'"
    by (rule owner_op_implements [OF assms(1)]) (auto simp: owner_simps)
  then show ?thesis by simp
qed

lemma cancel_implements:
  assumes "wf_db db" "sqlite_exec c sc now fresh (Op_cancel rid w reason) db = (resp, db')"
  shows "astep c now fresh (Op_cancel rid w reason) (sqlite_view db) resp (sqlite_view db')
    \<and> wf_db db'"
proof -
  have "lift_ok (\<lambda>_. Ok_unit) (update_owned rid w (set_finished Cancelled reason now) db) = (resp, db')"
    using assms(2) by (simp add: sqlite_cancel_def Let_def)
  then have "a_owner_op rid w (\<lambda>r. r\<lparr>a_phase := Ended Cancelled now, a_error := reason\<rparr>)
      (sqlite_view db) resp (sqlite_view db') \<and> wf_db db'"
    by (rule owner_op_implements [OF assms(1)]) (auto simp: owner_simps)
  then show ?thesis by simp
qed

lemma parked_run:
  assumes "wf_db db" "owned_by rid w r" "sql_lookup r_id rid (db_runs db) = Some r"
  shows "abs_run db (set_parked t r) =
    (abs_run db r)\<lparr>a_phase := Queued, a_run_at := t, a_attempts := a_attempts (abs_run db r) - 1\<rparr>"
    and "abs_run db (set_retry err t r) =
    (abs_run db r)\<lparr>a_phase := Queued, a_error := Some err, a_run_at := t\<rparr>"
  using assms wf_no_waiter [OF assms(1,3)]
  by (simp_all add: owned_by_def abs_run_def abs_phase_def set_parked_def set_retry_def)

lemma row_ok_parked:
  assumes "owned_by rid w r" "row_ok r"
  shows "row_ok (set_parked t r)" "row_ok (set_retry err t r)"
  using assms by (auto simp: owner_simps)

lemma fail_implements:
  assumes "wf_db db" "sqlite_exec c sc now fresh (Op_fail rid w err next_at fin) db = (resp, db')"
  shows "astep c now fresh (Op_fail rid w err next_at fin) (sqlite_view db) resp (sqlite_view db')
    \<and> wf_db db'"
proof (cases fin)
  case True
  then have "lift_ok (\<lambda>_. Ok_unit) (update_owned rid w (set_finished Dead (Some err) now) db) = (resp, db')"
    using assms(2) by (simp add: sqlite_fail_def)
  then have "a_owner_op rid w (\<lambda>r. r\<lparr>a_phase := Ended Dead now, a_error := Some err\<rparr>)
      (sqlite_view db) resp (sqlite_view db') \<and> wf_db db'"
    by (rule owner_op_implements [OF assms(1)]) (auto simp: owner_simps)
  then show ?thesis using True by simp
next
  case False
  show ?thesis
  proof (cases next_at)
    case None
    then show ?thesis using False assms by (auto simp: sqlite_fail_def)
  next
    case (Some t)
    have "lift_ok (\<lambda>_. Ok_unit) (update_owned rid w (set_retry err t) db) = (resp, db')"
      using assms(2) False Some by (simp add: sqlite_fail_def)
    then have "a_owner_op rid w (\<lambda>r. r\<lparr>a_phase := Queued, a_error := Some err, a_run_at := t\<rparr>)
        (sqlite_view db) resp (sqlite_view db') \<and> wf_db db'"
      by (rule owner_op_implements [OF assms(1)])
         (simp_all add: parked_run [OF assms(1), of rid w] row_ok_parked [of rid w])
    then show ?thesis using False Some by simp
  qed
qed

lemma defer_implements:
  assumes "wf_db db" "sqlite_exec c sc now fresh (Op_defer rid w wake) db = (resp, db')"
  shows "astep c now fresh (Op_defer rid w wake) (sqlite_view db) resp (sqlite_view db') \<and> wf_db db'"
proof -
  have "lift_ok (\<lambda>_. Ok_unit) (update_owned rid w (set_parked (wake_time wake)) db) = (resp, db')"
    using assms(2) by (simp add: sqlite_defer_def wake_time_def Let_def)
  then have "a_owner_op rid w (\<lambda>r. r\<lparr>a_phase := Queued, a_run_at := wake_time wake,
      a_attempts := a_attempts r - 1\<rparr>) (sqlite_view db) resp (sqlite_view db') \<and> wf_db db'"
    by (rule owner_op_implements [OF assms(1)])
       (simp_all add: parked_run [OF assms(1), of rid w] row_ok_parked [of rid w])
  then show ?thesis by simp
qed

section \<open>Operations beyond the owner's update\<close>

lemma wf_no_orphans:
  assumes "wf_db db" "sql_lookup r_id rid (db_runs db) = None"
  shows "sql_lookup w_run_id rid (db_waiters db) = None"
    and "sql_lookup st_key (rid, n) (db_steps db) = None"
  using assms
  by (auto simp: wf_db_def waiter_ok_def sql_lookup_None st_key_def split: option.splits)

lemma abs_run_new:
  assumes "wf_db db" "sql_lookup r_id rid (db_runs db) = None"
  shows "abs_run db (new_run now rid name text opts) = a_new now name text opts"
  using wf_no_orphans [OF assms] by (auto simp: abs_run_def abs_phase_def new_run_def a_new_def)

lemma enqueue_implements:
  assumes wf: "wf_db db" and exq: "sqlite_exec c sc now fresh (Op_enqueue name payload opts) db = (resp, db')"
  shows "astep c now fresh (Op_enqueue name payload opts) (sqlite_view db) resp (sqlite_view db')
    \<and> wf_db db'"
proof (cases "to_string c payload")
  case None
  then show ?thesis using assms by (auto simp: sqlite_enqueue_def)
next
  case (Some js)
  let ?rid = "case o_id opts of None \<Rightarrow> fresh | Some i \<Rightarrow> i"
  let ?new = "new_run now ?rid name js opts"
  show ?thesis
  proof (cases "sql_lookup r_id ?rid (db_runs db)")
    case None
    have idn: "r_id ?new = ?rid" by (simp add: new_run_def)
    have db': "db' = db\<lparr>db_runs := db_runs db @ [?new]\<rparr>"
      and resp: "resp = Inr (Ok_enqueued \<lparr>er_id = ?rid, er_deduplicated = False\<rparr>)"
      using exq Some None idn by (auto simp: sqlite_enqueue_def sql_insert_ignore_def Let_def)
    have "sqlite_view db' = (sqlite_view db)\<lparr>as_runs := (as_runs (sqlite_view db))
        (?rid \<mapsto> a_new now name js opts)\<rparr>"
      using db' None idn abs_run_new [OF wf None, of now name js opts]
      by (auto intro!: astate_eqI ext simp: sqlite_view_def split: option.splits)
    moreover have "as_runs (sqlite_view db) ?rid = None"
      using None by (simp add: sqlite_view_def)
    moreover have "waiter_ok (db_runs db @ [?new]) x" if "waiter_ok (db_runs db) x" for x
      using that by (auto simp: waiter_ok_def split: option.splits)
    then have "wf_db db'"
      using wf db' None idn unique_append1 [of r_id "db_runs db" ?new]
      by (auto simp: wf_db_def row_ok_def new_run_def terminal_def)
    ultimately show ?thesis
      using Some resp by (simp add: Let_def)
  next
    case (Some r)
    then show ?thesis
      using \<open>to_string c payload = Some js\<close> exq wf
      by (auto simp: sqlite_enqueue_def sql_insert_ignore_def sqlite_view_def abs_run_def new_run_def
          Let_def split: sum.splits)
  qed
qed

text \<open>Writing a step result.\<close>

lemma abs_run_insert_step:
  "abs_run (db\<lparr>db_steps := sql_insert_ignore st_key
      \<lparr>st_run_id = rid, st_name = n, st_result = text, st_completed_at = t\<rparr> (db_steps db)\<rparr>) r =
   (if r_id r = rid then put_step n text (abs_run db r) else abs_run db r)"
proof -
  have "abs_phase (db\<lparr>db_steps := ss\<rparr>) r = abs_phase db r" for ss
    by (cases "r_status r") (simp_all add: abs_phase_def)
  then show ?thesis
    by (auto simp: abs_run_def put_step_def lookup_insert_ignore st_key_def intro!: ext)
qed

lemma save_step_cases:
  assumes wf: "wf_db db" and js: "to_string c result = Some text"
  shows "sqlite_save_step c now rid w n result db =
    (if sql_count (owned_by rid w) (db_runs db) = 0 then (Inl StaleWorker, db)
     else (Inr (), db\<lparr>db_steps := sql_insert_ignore st_key
        \<lparr>st_run_id = rid, st_name = n, st_result = text, st_completed_at = now\<rparr> (db_steps db)\<rparr>))"
proof (cases "sql_count (owned_by rid w) (db_runs db) = 0")
  case True
  then have "filter (owned_by rid w) (db_runs db) = []" by (simp add: sql_count_def)
  moreover have "r_worker_id r \<noteq> Some w"
    if "find (\<lambda>r. r_id r = rid \<and> r_status r = Running) (db_runs db) = Some r" for r
    using that True by (auto simp: find_Some_iff sql_count_zero owned_by_def)
  ultimately show ?thesis
    using True js by (auto simp: sqlite_save_step_def split: option.splits)
next
  case False
  then obtain r where r: "r \<in> set (db_runs db)" "owned_by rid w r"
    by (auto simp: sql_count_zero)
  have "filter (owned_by rid w) (db_runs db) = [r]"
    using wf r by (intro unique_filter_single [where key = r_id]) (auto simp: wf_db_def owned_by_def)
  moreover have "find (\<lambda>r. r_id r = rid \<and> r_status r = Running) (db_runs db) = Some r"
  proof -
    have "filter (\<lambda>r. r_id r = rid \<and> r_status r = Running) (db_runs db) = [r]"
      using wf r by (intro unique_filter_single [where key = r_id]) (auto simp: wf_db_def owned_by_def)
    moreover have "filter P xs = y # ys \<Longrightarrow> find P xs = Some y" for P :: "run_row \<Rightarrow> bool" and xs y ys
      by (induction xs) (auto split: if_splits)
    ultimately show ?thesis by blast
  qed
  ultimately show ?thesis
    using False js r by (auto simp: sqlite_save_step_def owned_by_def Let_def)
qed

lemma insert_step_wf:
  assumes "wf_db db" "st_run_id row \<in> r_id ` set (db_runs db)"
  shows "wf_db (db\<lparr>db_steps := sql_insert_ignore st_key row (db_steps db)\<rparr>)"
  using assms set_insert_ignore_subset [of st_key row "db_steps db"]
  by (auto simp: wf_db_def)

lemma save_step_implements:
  assumes wf: "wf_db db" and exq: "sqlite_exec c sc now fresh (Op_save_step rid w n result) db = (resp, db')"
  shows "astep c now fresh (Op_save_step rid w n result) (sqlite_view db) resp (sqlite_view db')
    \<and> wf_db db'"
proof (cases "to_string c result")
  case None
  then show ?thesis using assms by (auto simp: sqlite_save_step_def)
next
  case (Some js)
  let ?db = "db\<lparr>db_steps := sql_insert_ignore st_key
        \<lparr>st_run_id = rid, st_name = n, st_result = js, st_completed_at = now\<rparr> (db_steps db)\<rparr>"
  note eq = save_step_cases [OF wf Some, of now rid w n] and own = owned_iff [OF wf, of rid w]
  show ?thesis
  proof (cases "sql_count (owned_by rid w) (db_runs db) = 0")
    case True
    then show ?thesis using wf exq eq own Some by (auto simp: a_owner_op_def)
  next
    case False
    then have "resp = Inr Ok_unit" and db': "db' = ?db" using exq eq by auto
    obtain r where r: "r \<in> set (db_runs db)" "r_id r = rid"
      using False by (auto simp: sql_count_zero owned_by_def)
    then have "sql_lookup r_id rid (db_runs db) = Some r"
      using wf by (simp add: wf_db_def sql_lookup_iff)
    then have "as_runs (sqlite_view ?db) i = ((as_runs (sqlite_view db))
        (rid \<mapsto> put_step n js (the (as_runs (sqlite_view db) rid)))) i" for i
      using r by (auto simp: sqlite_view_def abs_run_insert_step intro!: lookup_map_cong)
    then have "sqlite_view ?db = (sqlite_view db)\<lparr>as_runs := (as_runs (sqlite_view db))
        (rid \<mapsto> put_step n js (the (as_runs (sqlite_view db) rid)))\<rparr>"
      by (intro astate_eqI ext) simp_all
    moreover have "wf_db ?db" using wf r by (intro insert_step_wf) auto
    ultimately show ?thesis
      using False \<open>resp = Inr Ok_unit\<close> db' own Some by (simp add: a_owner_op_def)
  qed
qed

text \<open>Reclaiming expired leases.\<close>

lemma a_ids_view:
  assumes "wf_db db"
  shows "a_ids P (sqlite_view db) = r_id ` set (filter (\<lambda>r. P (abs_run db r)) (db_runs db))"
proof -
  have "a_ids P (sqlite_view db) =
      {k. \<exists>r. sql_lookup r_id k (db_runs db) = Some r \<and> P (abs_run db r)}"
    by (auto simp: a_ids_def sqlite_view_def)
  then show ?thesis
    using assms keys_filter [of r_id "db_runs db" "\<lambda>r. P (abs_run db r)"] by (simp add: wf_db_def)
qed

lemma card_a_ids_view:
  assumes "wf_db db" "\<And>r. r \<in> set (db_runs db) \<Longrightarrow> P (abs_run db r) = Q r"
  shows "card (a_ids P (sqlite_view db)) = sql_count Q (db_runs db)"
proof -
  have "distinct (map r_id (filter Q (db_runs db)))"
    using assms(1) by (simp add: wf_db_def unique_key_def distinct_map_filter)
  moreover have "filter (\<lambda>r. P (abs_run db r)) (db_runs db) = filter Q (db_runs db)"
    using assms(2) by (simp cong: filter_cong)
  ultimately show ?thesis
    using distinct_card [of "map r_id (filter Q (db_runs db))"]
    by (simp add: a_ids_view [OF assms(1)] sql_count_def)
qed

lemma wf_row: "wf_db db \<Longrightarrow> r \<in> set (db_runs db) \<Longrightarrow> row_ok r"
  by (simp add: wf_db_def)

lemma a_expired_abs: "row_ok r \<Longrightarrow> a_expired now (abs_run db r) = expired now r"
  by (auto simp: a_expired_def abs_run_def abs_phase_def expired_def row_ok_def
      split: run_status.splits option.splits)

lemma view_reclaim:
  assumes "wf_db db"
  shows "sqlite_view (db\<lparr>db_runs := sql_update (expired now) set_reclaimed (db_runs db)\<rparr>) =
    a_map_runs (a_reclaim now) (sqlite_view db)"
proof -
  have "abs_run db (if expired now r then set_reclaimed r else r) = a_reclaim now (abs_run db r)"
    if "sql_lookup r_id i (db_runs db) = Some r" for i r
  proof (cases "expired now r")
    case True
    have "sql_lookup w_run_id (r_id r) (db_waiters db) = None"
      using True wf_no_waiter [OF assms that] sql_lookup_key [OF that] by (simp add: expired_def)
    then have "abs_run db (set_reclaimed r) = (abs_run db r)\<lparr>a_phase := Queued\<rparr>"
      by (simp add: abs_run_def abs_phase_def set_reclaimed_def)
    then show ?thesis
      using True a_expired_abs [OF wf_lookup_ok [OF assms that], of now db]
      by (simp add: a_reclaim_def)
  next
    case False
    then show ?thesis
      using a_expired_abs [OF wf_lookup_ok [OF assms that], of now db] by (simp add: a_reclaim_def)
  qed
  then have "as_runs (sqlite_view (db\<lparr>db_runs := sql_update (expired now) set_reclaimed (db_runs db)\<rparr>)) i
      = as_runs (a_map_runs (a_reclaim now) (sqlite_view db)) i" for i
    by (cases "sql_lookup r_id i (db_runs db)")
       (simp_all add: view_update_runs a_map_runs_def, simp_all add: sqlite_view_def)
  then show ?thesis
    by (intro astate_eqI ext) (simp_all add: a_map_runs_def)
qed

lemma reclaim_wf:
  "wf_db db \<Longrightarrow> wf_db (db\<lparr>db_runs := sql_update (expired now) set_reclaimed (db_runs db)\<rparr>)"
  by (rule update_runs_wf) (auto simp: expired_def set_reclaimed_def row_ok_def terminal_def)

lemma reclaim_implements:
  assumes "wf_db db" "sqlite_exec c sc now fresh Op_reclaim db = (resp, db')"
  shows "astep c now fresh Op_reclaim (sqlite_view db) resp (sqlite_view db') \<and> wf_db db'"
  using assms view_reclaim [OF assms(1), of now] reclaim_wf [OF assms(1), of now]
    card_a_ids_view [OF assms(1), of "a_expired now" "expired now"] a_expired_abs wf_row [OF assms(1)]
  by (auto simp: sqlite_reclaim_expired_def)

lemma mset_holders:
  assumes "wf_db db"
  shows "image_mset (\<lambda>r. the (r_worker_id r)) (mset (filter (expired now) (db_runs db))) =
    image_mset (a_holder (sqlite_view db)) (mset_set (a_ids (a_expired now) (sqlite_view db)))"
proof -
  let ?es = "filter (expired now) (db_runs db)"
  have "filter (\<lambda>r. a_expired now (abs_run db r)) (db_runs db) = ?es"
    using a_expired_abs wf_row [OF assms] by (simp cong: filter_cong)
  then have ids: "a_ids (a_expired now) (sqlite_view db) = set (map r_id ?es)"
    by (simp add: a_ids_view [OF assms])
  have "distinct (map r_id ?es)"
    using assms by (simp add: wf_db_def unique_key_def distinct_map_filter)
  then have ms: "mset_set (set (map r_id ?es)) = mset (map r_id ?es)"
    by (rule mset_set_set)
  have "a_holder (sqlite_view db) (r_id r) = the (r_worker_id r)" if "r \<in> set ?es" for r
    using that assms sql_lookup_unique [of r_id "db_runs db" r]
    by (auto simp: a_holder_def sqlite_view_def abs_run_def abs_phase_def expired_def wf_db_def)
  then show ?thesis
    unfolding ids ms mset_map multiset.map_comp by (intro image_mset_cong) simp
qed

lemma reclaim_with_workers_implements:
  assumes wf: "wf_db db" and sc: "scans_ok sc"
    and exq: "sqlite_exec c sc now fresh Op_reclaim_with_workers db = (resp, db')"
  shows "astep c now fresh Op_reclaim_with_workers (sqlite_view db) resp (sqlite_view db') \<and> wf_db db'"
proof -
  let ?es = "filter (expired now) (db_runs db)"
  let ?ws = "List.map_filter r_worker_id (scan_runs sc ?es)"
  have own: "r_worker_id r \<noteq> None" if "r \<in> set ?es" for r
    using that wf_row [OF wf, of r] by (auto simp: expired_def row_ok_def)
  have "filter (\<lambda>r. expired now r \<and> r_worker_id r \<noteq> None) (db_runs db) = ?es"
    using own by (intro filter_cong) auto
  then have resp: "resp = Inr (Ok_workers ?ws)"
    and db': "db' = db\<lparr>db_runs := sql_update (expired now) set_reclaimed (db_runs db)\<rparr>"
    using exq by (auto simp: sqlite_reclaim_expired_with_workers_def Let_def)
  have "filter (\<lambda>r. r_worker_id r \<noteq> None) (scan_runs sc ?es) = scan_runs sc ?es"
    using own sc by (auto simp: filter_id_conv)
  then have "mset ?ws = image_mset (\<lambda>r. the (r_worker_id r)) (mset ?es)"
    using sc by (simp add: mset_map_filter scans_ok_def del: mset_filter)
  then show ?thesis
    using resp db' view_reclaim [OF wf, of now] reclaim_wf [OF wf, of now] mset_holders [OF wf, of now]
    by simp
qed

text \<open>Parking a run on an event.\<close>

lemma wait_implements:
  assumes wf: "wf_db db"
    and exq: "sqlite_exec c sc now fresh (Op_wait_for_event rid w n ev t) db = (resp, db')"
  shows "astep c now fresh (Op_wait_for_event rid w n ev t) (sqlite_view db) resp (sqlite_view db')
    \<and> wf_db db'"
proof (cases "sql_count (owned_by rid w) (db_runs db) = 0")
  case True
  then show ?thesis
    using wf exq owned_iff [OF wf, of rid w]
    by (auto simp: sqlite_wait_for_event_def update_owned_def a_owner_op_def Let_def)
next
  case False
  let ?x = "\<lparr>w_run_id = rid, w_step_name = n, w_event_name = ev, w_expires_at = t\<rparr>"
  let ?runs = "sql_update (owned_by rid w) (set_parked (wake_time t)) (db_runs db)"
  let ?db1 = "db\<lparr>db_runs := ?runs\<rparr>"
  obtain r where "r \<in> set (db_runs db)" and own: "owned_by rid w r"
    using False by (auto simp: sql_count_zero)
  then have r: "sql_lookup r_id rid (db_runs db) = Some r"
    using wf by (simp add: wf_db_def sql_lookup_iff owned_by_def)
  have none: "sql_lookup w_run_id rid (db_waiters db) = None"
    using wf_no_waiter [OF wf r] own by (simp add: owned_by_def)
  then have fresh_w: "w_run_id y \<noteq> rid" if "y \<in> set (db_waiters db)" for y
    using that by (auto simp: sql_lookup_None)
  have "sql_insert_replace w_key ?x (db_waiters db) = db_waiters db @ [?x]"
    using fresh_w by (simp add: sql_insert_replace_def sql_delete_def w_key_def filter_id_conv)
  then have resp: "resp = Inr Ok_unit" and db': "db' = ?db1\<lparr>db_waiters := db_waiters db @ [?x]\<rparr>"
    using exq False
    by (auto simp: sqlite_wait_for_event_def update_owned_def wake_time_def Let_def)
  have lookup: "sql_lookup r_id i ?runs =
      (if i = rid then Some (set_parked (wake_time t) r) else sql_lookup r_id i (db_runs db))" for i
    using own r by (auto simp: lookup_update owned_by_def intro!: lookup_map_cong [where g = id, simplified option.map_id0 id_apply])
  have abs_same: "abs_run db' r' = abs_run db r'" if "r_id r' \<noteq> rid" for r'
    using that by (cases "r_status r'") (simp_all add: db' abs_run_def abs_phase_def split: option.splits)
  have abs_rid: "abs_run db' (set_parked (wake_time t) r) = (abs_run db r)\<lparr>a_phase := Parked n ev t,
      a_run_at := wake_time t, a_attempts := a_attempts (abs_run db r) - 1\<rparr>"
    using none own by (simp add: db' abs_run_def abs_phase_def set_parked_def owned_by_def)
  have "as_runs (sqlite_view db') i = ((as_runs (sqlite_view db))(rid \<mapsto>
      (abs_run db r)\<lparr>a_phase := Parked n ev t, a_run_at := wake_time t,
        a_attempts := a_attempts (abs_run db r) - 1\<rparr>)) i" for i
    using lookup [of i] abs_rid abs_same
    by (auto simp: sqlite_view_def db' intro!: lookup_map_cong)
  then have "sqlite_view db' = (sqlite_view db)\<lparr>as_runs := (as_runs (sqlite_view db))(rid \<mapsto>
      (abs_run db r)\<lparr>a_phase := Parked n ev t, a_run_at := wake_time t,
        a_attempts := a_attempts (abs_run db r) - 1\<rparr>)\<rparr>"
    by (intro astate_eqI ext) (simp_all add: db')
  moreover have "as_runs (sqlite_view db) rid = Some (abs_run db r)"
    using r by (simp add: sqlite_view_def)
  moreover have "wf_db ?db1"
    using row_ok_parked [of rid w]
    by (intro update_runs_wf [OF wf]) (auto simp: owned_by_def)
  then have "wf_db db'"
    using none lookup [of rid] unique_append1 [of w_run_id "db_waiters db" ?x]
    by (auto simp: wf_db_def db' waiter_ok_def set_parked_def)
  ultimately show ?thesis
    using resp False owned_iff [OF wf, of rid w] by (simp add: a_owner_op_def)
qed

text \<open>Schedules.\<close>

lemma view_set_schedules:
  "as_runs (sqlite_view (db\<lparr>db_schedules := xs\<rparr>)) = as_runs (sqlite_view db)"
proof -
  have "abs_run (db\<lparr>db_schedules := xs\<rparr>) = abs_run db" by (rule ext) simp
  then show ?thesis by (simp add: sqlite_view_def)
qed

lemma set_schedules_wf: "wf_db db \<Longrightarrow> unique_key s_name xs \<Longrightarrow> wf_db (db\<lparr>db_schedules := xs\<rparr>)"
  by (simp add: wf_db_def)

lemma set_schedule_implements:
  assumes "wf_db db" "sqlite_exec c sc now fresh (Op_set_schedule n ts) db = (resp, db')"
  shows "astep c now fresh (Op_set_schedule n ts) (sqlite_view db) resp (sqlite_view db') \<and> wf_db db'"
proof -
  let ?xs = "sql_update (\<lambda>s. s_name s = n) (\<lambda>s. s\<lparr>s_last_run_at := Some ts\<rparr>) (db_schedules db)"
  have db': "db' = db\<lparr>db_schedules := ?xs\<rparr>" and resp: "resp = Inr Ok_unit"
    using assms(2) by (auto simp: sqlite_set_schedule_last_run_at_def)
  have "as_schedules (sqlite_view db') i = (case as_schedules (sqlite_view db) n of
      None \<Rightarrow> as_schedules (sqlite_view db)
    | Some (cron, _) \<Rightarrow> (as_schedules (sqlite_view db))(n \<mapsto> (cron, Some ts))) i" for i
  proof (cases "i = n")
    case True
    then show ?thesis
      by (cases "sql_lookup s_name n (db_schedules db)")
         (auto simp: sqlite_view_def db' lookup_update dest: sql_lookup_key)
  next
    case False
    then have "as_schedules (sqlite_view db') i = as_schedules (sqlite_view db) i"
      by (auto simp: sqlite_view_def db' lookup_update option.map_comp intro!: lookup_map_cong)
    then show ?thesis using False by (auto split: option.splits)
  qed
  then show ?thesis
    using assms(1) resp db' set_schedules_wf [OF assms(1), of ?xs]
    by (auto intro!: astate_eqI ext simp: view_set_schedules unique_update wf_db_def)
qed

definition put_schedule :: "int \<Rightarrow> schedule_spec \<Rightarrow> schedule_row list \<Rightarrow> schedule_row list" where
  "put_schedule now sp = sql_upsert s_name (\<lambda>x. x\<lparr>s_cron := sp_cron sp\<rparr>)
     \<lparr>s_name = sp_name sp, s_cron = sp_cron sp, s_last_run_at = Some now\<rparr>"

lemma unique_put_schedules:
  "unique_key s_name t \<Longrightarrow> unique_key s_name (fold (put_schedule now) specs t)"
proof (induction specs arbitrary: t)
  case (Cons sp specs)
  have "unique_key s_name (put_schedule now sp t)"
    unfolding put_schedule_def using Cons.prems by (intro unique_upsert) simp_all
  then show ?case using Cons.IH by simp
qed simp

lemma lookup_put_schedules:
  "map_option (\<lambda>s. (s_cron s, s_last_run_at s))
     (sql_lookup s_name n (fold (put_schedule now) specs t)) =
   (case map_of (rev (map (\<lambda>sp. (sp_name sp, sp_cron sp)) specs)) n of
      None \<Rightarrow> map_option (\<lambda>s. (s_cron s, s_last_run_at s)) (sql_lookup s_name n t)
    | Some cron \<Rightarrow> Some (cron, case sql_lookup s_name n t of None \<Rightarrow> Some now
                                | Some s \<Rightarrow> s_last_run_at s))"
proof (induction specs arbitrary: t)
  case (Cons sp specs)
  show ?case
    unfolding fold_simps Cons.IH
    by (auto simp: put_schedule_def lookup_upsert map_add_def map_of_append split: option.splits)
qed simp

lemma replace_schedules_implements:
  assumes wf: "wf_db db" and exq: "sqlite_exec c sc now fresh (Op_replace_schedules specs) db = (resp, db')"
  shows "astep c now fresh (Op_replace_schedules specs) (sqlite_view db) resp (sqlite_view db')
    \<and> wf_db db'"
proof -
  let ?names = "set (map sp_name specs)"
  let ?kept = "if specs = [] then [] else sql_delete (\<lambda>s. s_name s \<notin> ?names) (db_schedules db)"
  have db': "db' = db\<lparr>db_schedules := fold (put_schedule now) specs ?kept\<rparr>" and resp: "resp = Inr Ok_unit"
    using exq by (auto simp: sqlite_replace_schedules_def Let_def put_schedule_def [abs_def])
  have uniq: "unique_key s_name (db_schedules db)" using wf by (simp add: wf_db_def)
  have kept: "sql_lookup s_name n ?kept =
      (if n \<in> ?names then sql_lookup s_name n (db_schedules db) else None)" for n
    using lookup_delete [OF uniq, of n "\<lambda>s. s_name s \<notin> ?names"] sql_lookup_key [of s_name n "db_schedules db"]
    by (auto split: option.splits)
  have names: "map_of (rev (map (\<lambda>sp. (sp_name sp, sp_cron sp)) specs)) n = None \<longleftrightarrow> n \<notin> ?names" for n
    by (auto simp: map_of_eq_None_iff image_image)
  have "as_schedules (sqlite_view db') n = map_option (\<lambda>cron. (cron,
      case as_schedules (sqlite_view db) n of Some (_, t) \<Rightarrow> t | None \<Rightarrow> Some now))
      (map_of (rev (map (\<lambda>sp. (sp_name sp, sp_cron sp)) specs)) n)" for n
    using lookup_put_schedules [of n now specs ?kept] kept [of n] names [of n]
    by (auto simp: sqlite_view_def db' split: option.splits)
  moreover have "wf_db db'"
    using uniq unfolding db' by (intro set_schedules_wf [OF wf] unique_put_schedules) auto
  ultimately show ?thesis
    using resp by (auto intro!: astate_eqI ext simp: db' view_set_schedules)
qed

section \<open>Claiming a run\<close>

lemma a_due_abs: "a_due now names (abs_run db r) = claimable now names r"
  by (auto simp: a_due_def claimable_def abs_run_def abs_phase_def split: run_status.splits option.splits)

lemma abs_run_run_at [simp]: "a_run_at (abs_run db r) = r_run_at r"
  by (simp add: abs_run_def)

lemma select_claim_None:
  assumes "scans_ok sc"
  shows "select_claim sc now names runs = None \<longleftrightarrow> (\<forall>r\<in>set runs. \<not> claimable now names r)"
proof -
  have "select_claim sc now names runs = None \<longleftrightarrow>
      sort_key r_run_at (scan_runs sc (filter (claimable now names) runs)) = []"
    by (simp add: select_claim_def split: list.splits)
  also have "\<dots> \<longleftrightarrow> set (sort_key r_run_at (scan_runs sc (filter (claimable now names) runs))) = {}"
    by (simp only: set_empty)
  also have "\<dots> \<longleftrightarrow> (\<forall>r\<in>set runs. \<not> claimable now names r)"
    using assms by auto
  finally show ?thesis .
qed

lemma select_claim_Some:
  assumes "scans_ok sc" "select_claim sc now names runs = Some r"
  shows "r \<in> set runs" "claimable now names r"
    "\<And>r'. r' \<in> set runs \<Longrightarrow> claimable now names r' \<Longrightarrow> r_run_at r \<le> r_run_at r'"
proof -
  obtain rs where rs: "sort_key r_run_at (scan_runs sc (filter (claimable now names) runs)) = r # rs"
    using assms(2) by (auto simp: select_claim_def split: list.splits)
  have st: "set (r # rs) = set (filter (claimable now names) runs)"
    using assms(1) by (simp flip: rs)
  then show "r \<in> set runs" "claimable now names r" by auto
  show "r_run_at r \<le> r_run_at r'" if "r' \<in> set runs" "claimable now names r'" for r'
  proof -
    have "r' \<in> set (r # rs)" using st that by simp
    moreover have "sorted (map r_run_at (r # rs))" unfolding rs [symmetric] by (rule sorted_sort_key)
    ultimately show ?thesis by auto
  qed
qed

lemma map_of_hydrate_fold:
  "distinct (map st_name rows) \<Longrightarrow>
   map_of (fold (\<lambda>s m. AList.update (st_name s) (json_or_null c (st_result s)) m) rows m) n =
     (case sql_lookup st_name n rows of None \<Rightarrow> map_of m n
      | Some s \<Rightarrow> Some (json_or_null c (st_result s)))"
proof (induction rows arbitrary: m)
  case (Cons s rows)
  then have "sql_lookup st_name (st_name s) rows = None"
    by (simp add: sql_lookup_None)
  then show ?case
    using Cons by (auto simp: update_conv' split: option.splits)
qed simp

lemma map_of_hydrate:
  assumes "scans_ok sc" "unique_key st_key steps"
  shows "map_of (hydrate c (scan_steps sc (filter (\<lambda>s. st_run_id s = rid) steps))) n =
    map_option (json_or_null c) (map_option st_result (sql_lookup st_key (rid, n) steps))"
proof -
  let ?fs = "filter (\<lambda>s. st_run_id s = rid) steps"
  let ?rows = "scan_steps sc ?fs"
  have "inj_on st_name (set ?fs)" and "distinct ?fs"
    using assms(2) by (auto simp: inj_on_def unique_key_def distinct_map st_key_def)
  then have d: "distinct (map st_name ?rows)"
    using scans_distinct(2) [OF assms(1), of st_name ?fs] by (simp add: distinct_map)
  then have "sql_lookup st_name n ?rows = sql_lookup st_key (rid, n) steps"
    using sql_lookup_iff [of st_name ?rows n] sql_lookup_iff [OF assms(2), of "(rid, n)"] assms(1)
    by (intro option_eqI) (auto simp: unique_key_def st_key_def)
  then show ?thesis
    using map_of_hydrate_fold [OF d, of c "[]" n] by (auto simp: hydrate_def split: option.splits)
qed

text \<open>A due run that is parked has timed out: its one waiter is the one that expires.\<close>

lemma claim_waiters:
  assumes wf: "wf_db db" and sc: "scans_ok sc" and now: "now < i64_max"
    and r: "sql_lookup r_id rid (db_runs db) = Some r" "r_run_at r \<le> now"
  shows "scan_waiters sc (filter (waiter_expired now rid) (db_waiters db)) =
      (case sql_lookup w_run_id rid (db_waiters db) of None \<Rightarrow> [] | Some x \<Rightarrow> [x])"
    and "sql_delete (waiter_expired now rid) (db_waiters db) =
      sql_delete (\<lambda>y. w_run_id y = rid) (db_waiters db)"
proof -
  have exp: "waiter_expired now rid y \<longleftrightarrow> w_run_id y = rid" if "y \<in> set (db_waiters db)" for y
  proof -
    have "waiter_ok (db_runs db) y" using wf that by (simp add: wf_db_def)
    then show ?thesis
      using r now by (auto simp: waiter_ok_def waiter_expired_def wake_time_def split: option.splits)
  qed
  then show "sql_delete (waiter_expired now rid) (db_waiters db) =
      sql_delete (\<lambda>y. w_run_id y = rid) (db_waiters db)"
    by (simp add: sql_delete_def cong: filter_cong)
  have uniq: "unique_key w_run_id (db_waiters db)" using wf by (simp add: wf_db_def)
  have fs: "filter (waiter_expired now rid) (db_waiters db) =
      (case sql_lookup w_run_id rid (db_waiters db) of None \<Rightarrow> [] | Some x \<Rightarrow> [x])"
  proof (cases "sql_lookup w_run_id rid (db_waiters db)")
    case None
    then have "filter (waiter_expired now rid) (db_waiters db) = []"
      using exp by (auto simp: filter_empty_conv sql_lookup_None)
    then show ?thesis using None by simp
  next
    case (Some x)
    then have x: "x \<in> set (db_waiters db)" "w_run_id x = rid" by (auto dest: sql_lookup_SomeD)
    have "filter (waiter_expired now rid) (db_waiters db) = [x]"
      using uniq x exp by (intro unique_filter_single [where key = w_run_id]) (auto simp: waiter_expired_def)
    then show ?thesis using Some by simp
  qed
  have "mset (scan_waiters sc ys) = mset ys" for ys using sc by (simp add: scans_ok_def)
  from this [of "[]"] this [of "[_]"]
  have "scan_waiters sc [] = []" and "scan_waiters sc [x] = [x]" for x
    by (simp_all add: mset_single_conv)
  then show "scan_waiters sc (filter (waiter_expired now rid) (db_waiters db)) =
      (case sql_lookup w_run_id rid (db_waiters db) of None \<Rightarrow> [] | Some x \<Rightarrow> [x])"
    unfolding fs by (simp split: option.split)
qed

definition timeout_step :: "int \<Rightarrow> waiter_row \<Rightarrow> step_row" where
  "timeout_step now x =
     \<lparr>st_run_id = w_run_id x, st_name = w_step_name x, st_result = ''null'', st_completed_at = now\<rparr>"

definition claim_db :: "int \<Rightarrow> string \<Rightarrow> int \<Rightarrow> string \<Rightarrow> runs_db \<Rightarrow> runs_db" where
  "claim_db now w l rid db =
     db\<lparr>db_runs := sql_update (\<lambda>r. r_id r = rid) (set_running w l) (db_runs db),
        db_steps := (case sql_lookup w_run_id rid (db_waiters db) of
             None \<Rightarrow> db_steps db
           | Some x \<Rightarrow> sql_insert_ignore st_key (timeout_step now x) (db_steps db)),
        db_waiters := sql_delete (\<lambda>y. w_run_id y = rid) (db_waiters db)\<rparr>"

lemma sqlite_claim_eq:
  assumes "wf_db db" "scans_ok sc" "now < i64_max" "names \<noteq> []"
    and "select_claim sc now names (db_runs db) = Some r"
  shows "sqlite_claim c sc now w names lease db =
    (let l = i64_sat_add now (clamp_lease_ms lease); db' = claim_db now w l (r_id r) db
     in (Inr (Some (claimed_payload c w (set_running w l r)
               (scan_steps sc (filter (\<lambda>s. st_run_id s = r_id r) (db_steps db'))))), db'))"
proof -
  note sel = select_claim_Some [OF assms(2,5)]
  have "sql_lookup r_id (r_id r) (db_runs db) = Some r"
    using assms(1) sel(1) by (simp add: wf_db_def sql_lookup_unique)
  note cw = claim_waiters [OF assms(1-3) this]
  have "r_run_at r \<le> now" using sel(2) by (simp add: claimable_def)
  then show ?thesis
    using assms(4,5) cw
    by (cases "sql_lookup w_run_id (r_id r) (db_waiters db)")
       (simp_all add: sqlite_claim_def claim_db_def timeout_step_def Let_def)
qed

lemma claim_db_same: "r_id r \<noteq> rid \<Longrightarrow> wf_db db \<Longrightarrow> abs_run (claim_db now w l rid db) r = abs_run db r"
proof -
  assume r: "r_id r \<noteq> rid" and wf: "wf_db db"
  have "w_run_id x = rid" if "sql_lookup w_run_id rid (db_waiters db) = Some x" for x
    using that by (rule sql_lookup_key)
  then have "sql_lookup st_key (r_id r, n) (db_steps (claim_db now w l rid db)) =
      sql_lookup st_key (r_id r, n) (db_steps db)" for n
    using r by (auto simp: claim_db_def lookup_insert_ignore timeout_step_def st_key_def split: option.splits)
  moreover have "sql_lookup w_run_id (r_id r) (db_waiters (claim_db now w l rid db)) =
      sql_lookup w_run_id (r_id r) (db_waiters db)"
    using r wf by (auto simp: claim_db_def wf_db_def lookup_delete split: option.splits dest: sql_lookup_key)
  ultimately show ?thesis
    by (cases "r_status r") (simp_all add: abs_run_def abs_phase_def)
qed

lemma claim_db_run:
  assumes "wf_db db" "r_id r = rid" "r_status r = Pending"
  shows "abs_run (claim_db now w l rid db) (set_running w l r) = a_claim w l (abs_run db r)"
proof (cases "sql_lookup w_run_id rid (db_waiters db)")
  case None
  then show ?thesis
    using assms by (simp add: abs_run_def abs_phase_def claim_db_def set_running_def a_claim_def)
next
  case (Some x)
  then have "w_run_id x = rid" by (rule sql_lookup_key)
  then show ?thesis
    using assms Some
    by (auto simp: abs_run_def abs_phase_def claim_db_def set_running_def a_claim_def put_step_def
        lookup_insert_ignore timeout_step_def st_key_def intro!: ext)
qed

lemma claim_db_wf:
  assumes wf: "wf_db db" and r: "sql_lookup r_id rid (db_runs db) = Some r" "r_status r = Pending"
  shows "wf_db (claim_db now w l rid db)"
proof -
  let ?runs = "sql_update (\<lambda>r. r_id r = rid) (set_running w l) (db_runs db)"
  have rows: "row_ok x" if "x \<in> set ?runs" for x
  proof -
    have "r' = r" if "r' \<in> set (db_runs db)" "r_id r' = rid" for r'
      using that r(1) wf by (auto simp: wf_db_def sql_lookup_iff dest: unique_keyD)
    moreover have "row_ok (set_running w l r)"
      using wf_lookup_ok [OF wf r(1)] r(2) by (auto simp: set_running_def row_ok_def terminal_def)
    ultimately show ?thesis
      using that wf_row [OF wf] by (auto simp: set_update)
  qed
  have waiters: "waiter_ok ?runs x" if "x \<in> set (db_waiters db)" "w_run_id x \<noteq> rid" for x
  proof -
    have "waiter_ok (db_runs db) x" using wf that by (simp add: wf_db_def)
    moreover have "sql_lookup r_id (w_run_id x) ?runs = sql_lookup r_id (w_run_id x) (db_runs db)"
      using that by (auto simp: lookup_update
          intro!: lookup_map_cong [where g = id, simplified option.map_id0 id_apply])
    ultimately show ?thesis by (simp add: waiter_ok_def)
  qed
  have rid: "rid \<in> r_id ` set (db_runs db)"
    using sql_lookup_SomeD [OF r(1)] by auto
  have old: "st_run_id s \<in> r_id ` set (db_runs db)" if "s \<in> set (db_steps db)" for s
    using that wf by (simp add: wf_db_def)
  have steps: "st_run_id s \<in> r_id ` set (db_runs db)"
    if s: "s \<in> set (db_steps (claim_db now w l rid db))" for s
  proof (cases "sql_lookup w_run_id rid (db_waiters db)")
    case None
    then show ?thesis using s old by (simp add: claim_db_def)
  next
    case (Some x)
    then have "s = timeout_step now x \<or> s \<in> set (db_steps db)"
      using s set_insert_ignore_subset [of st_key "timeout_step now x" "db_steps db"]
      by (auto simp: claim_db_def)
    then show ?thesis
      using old rid sql_lookup_key [OF Some] by (auto simp: timeout_step_def)
  qed
  show ?thesis
    using wf rows waiters steps unfolding wf_db_def
    by (auto simp: claim_db_def unique_update image_key_update split: option.splits)
qed

lemma claim_view:
  assumes wf: "wf_db db" and r: "sql_lookup r_id rid (db_runs db) = Some r" "r_status r = Pending"
  shows "sqlite_view (claim_db now w l rid db) = (sqlite_view db)\<lparr>as_runs :=
    (as_runs (sqlite_view db))(rid \<mapsto> a_claim w l (abs_run db r))\<rparr>"
proof -
  have lookup: "sql_lookup r_id i (db_runs (claim_db now w l rid db)) =
      (if i = rid then Some (set_running w l r) else sql_lookup r_id i (db_runs db))" for i
    using r(1) sql_lookup_key [OF r(1)]
    by (auto simp: claim_db_def lookup_update
        intro!: lookup_map_cong [where g = id, simplified option.map_id0 id_apply])
  have "as_runs (sqlite_view (claim_db now w l rid db)) i =
      ((as_runs (sqlite_view db))(rid \<mapsto> a_claim w l (abs_run db r))) i" for i
    using lookup [of i] claim_db_run [OF wf sql_lookup_key [OF r(1)] r(2)] claim_db_same [OF _ wf]
    by (auto simp: sqlite_view_def intro!: lookup_map_cong)
  then show ?thesis
    by (intro astate_eqI ext, simp) (simp add: claim_db_def sqlite_view_def)
qed

lemma claim_payload:
  assumes wf: "wf_db db" and sc: "scans_ok sc"
    and r: "sql_lookup r_id rid (db_runs db) = Some r" "r_status r = Pending"
  shows "a_payload_of c w rid (a_claim w l (abs_run db r)) (claimed_payload c w (set_running w l r)
    (scan_steps sc (filter (\<lambda>s. st_run_id s = rid) (db_steps (claim_db now w l rid db)))))"
proof -
  let ?db = "claim_db now w l rid db"
  have rid: "r_id r = rid" using r(1) by (rule sql_lookup_key)
  have "unique_key st_key (db_steps ?db)"
    using claim_db_wf [OF wf r] unfolding wf_db_def by blast
  note hyd = map_of_hydrate [OF sc this, of c rid]
  have eq: "a_claim w l (abs_run db r) = abs_run ?db (set_running w l r)"
    using claim_db_run [OF wf rid r(2)] by simp
  show ?thesis
    unfolding eq a_payload_of_def claimed_payload_def
    using rid hyd by (auto simp: abs_run_def set_running_def intro!: ext)
qed

lemma claim_implements:
  assumes wf: "wf_db db" and sc: "scans_ok sc" and now: "now < i64_max"
    and exq: "sqlite_exec c sc now fresh (Op_claim w names lease) db = (resp, db')"
  shows "astep c now fresh (Op_claim w names lease) (sqlite_view db) resp (sqlite_view db') \<and> wf_db db'"
proof (cases "\<exists>r\<in>set (db_runs db). claimable now names r")
  case False
  then have "select_claim sc now names (db_runs db) = None"
    using select_claim_None [OF sc] by blast
  moreover have "a_ids (a_due now names) (sqlite_view db) = {}"
    using False by (simp add: a_ids_view [OF wf] a_due_abs)
  ultimately show ?thesis
    using exq wf by (auto simp: sqlite_claim_def Let_def split: if_splits)
next
  case True
  let ?l = "i64_sat_add now (clamp_lease_ms lease)"
  obtain r where sel: "select_claim sc now names (db_runs db) = Some r"
    using True select_claim_None [OF sc, of now names "db_runs db"] by (auto simp: not_None_eq)
  note s = select_claim_Some [OF sc sel]
  have r: "sql_lookup r_id (r_id r) (db_runs db) = Some r" and st: "r_status r = Pending"
    and ne: "names \<noteq> []"
    using s(1,2) wf by (auto simp: wf_db_def sql_lookup_unique claimable_def)
  let ?p = "claimed_payload c w (set_running w ?l r) (scan_steps sc
      (filter (\<lambda>s. st_run_id s = r_id r) (db_steps (claim_db now w ?l (r_id r) db))))"
  have resp: "resp = Inr (Ok_claimed (Some ?p))" and db': "db' = claim_db now w ?l (r_id r) db"
    using exq sqlite_claim_eq [OF wf sc now ne sel, of c w lease] by (auto simp: Let_def)
  have run: "as_runs (sqlite_view db) (r_id r) = Some (abs_run db r)"
    using r by (simp add: sqlite_view_def)
  have due: "a_due now names (abs_run db r)" using s(2) by (simp add: a_due_abs)
  have least: "a_run_at (abs_run db r) \<le> a_run_at r'"
    if "as_runs (sqlite_view db) i = Some r'" "a_due now names r'" for i r'
  proof -
    have "\<exists>r0. sql_lookup r_id i (db_runs db) = Some r0 \<and> r' = abs_run db r0"
      using that(1) by (auto simp: sqlite_view_def)
    then obtain r0 where "sql_lookup r_id i (db_runs db) = Some r0" "r' = abs_run db r0" by blast
    then show ?thesis
      using s(3) [of r0] that(2) by (auto simp: a_due_abs dest: sql_lookup_in)
  qed
  have ids: "a_ids (a_due now names) (sqlite_view db) \<noteq> {}"
    using run due by (auto simp: a_ids_def)
  have "astep c now fresh (Op_claim w names lease) (sqlite_view db) resp (sqlite_view db')"
    unfolding astep.simps if_not_P [OF ids]
    by (rule exI [of _ "r_id r"], rule exI [of _ "abs_run db r"], rule exI [of _ ?p])
       (use run due least claim_payload [OF wf sc r st] claim_view [OF wf r st] resp db' in simp)
  then show ?thesis
    using claim_db_wf [OF wf r st] db' by blast
qed

end
