(* ===== verification/Workflow_Sqlite_Signal.thy ===== *)
theory Workflow_Sqlite_Signal
  imports Workflow_Sqlite_Refine
begin

text \<open>
  The two operations of the SQLite store that touch many runs at once, delivering a
  signal and pruning finished runs, implement the contract; with them the store is an
  instance of the interface of \<open>Workflow_Spec\<close>.
\<close>

section \<open>Signals\<close>

text \<open>One waiter is woken: its step gets the payload, its run becomes due, the waiter goes.\<close>

lemma signal_one_run:
  assumes wf: "wf_db db" and x: "x \<in> set (db_waiters db)"
  shows "as_runs (sqlite_view (sqlite_signal_one js now x db)) =
    (as_runs (sqlite_view db))(w_run_id x := map_option (a_signal now (w_event_name x) js)
       (as_runs (sqlite_view db) (w_run_id x)))"
    and "wf_db (sqlite_signal_one js now x db)"
    and "db_waiters (sqlite_signal_one js now x db) =
      sql_delete (\<lambda>y. w_run_id y = w_run_id x) (db_waiters db)"
proof -
  let ?db = "sqlite_signal_one js now x db" and ?rid = "w_run_id x"
  have uniq: "unique_key w_run_id (db_waiters db)" using wf by (simp add: wf_db_def)
  have "waiter_ok (db_runs db) x" using wf x by (simp add: wf_db_def)
  then obtain r where r: "sql_lookup r_id ?rid (db_runs db) = Some r" "r_status r = Pending"
    by (auto simp: waiter_ok_def split: option.splits)
  have same: "w_step_name y = w_step_name x" if "y \<in> set (db_waiters db)" "w_run_id y = ?rid" for y
    using unique_keyD [OF uniq that(1) x that(2)] by simp
  show ws: "db_waiters ?db = sql_delete (\<lambda>y. w_run_id y = ?rid) (db_waiters db)"
    using same by (auto simp: sqlite_signal_one_def sql_delete_def Let_def intro!: filter_cong)
  have lookup: "sql_lookup r_id i (db_runs ?db) =
      (if i = ?rid then Some (r\<lparr>r_run_at := now\<rparr>) else sql_lookup r_id i (db_runs db))" for i
    using r sql_lookup_key [OF r(1)]
    by (auto simp: sqlite_signal_one_def Let_def lookup_update
        intro!: lookup_map_cong [where g = id, simplified option.map_id0 id_apply])
  have steps: "sql_lookup st_key (i, n) (db_steps ?db) =
      (if sql_lookup st_key (i, n) (db_steps db) = None \<and> i = ?rid \<and> n = w_step_name x
       then Some \<lparr>st_run_id = ?rid, st_name = w_step_name x, st_result = js, st_completed_at = now\<rparr>
       else sql_lookup st_key (i, n) (db_steps db))" for i n
    by (simp add: sqlite_signal_one_def Let_def lookup_insert_ignore st_key_def)
  have wlookup: "sql_lookup w_run_id i (db_waiters ?db) =
      (if i = ?rid then None else sql_lookup w_run_id i (db_waiters db))" for i
    by (auto simp: ws lookup_delete [OF uniq] split: option.splits dest: sql_lookup_key)
  have x': "sql_lookup w_run_id ?rid (db_waiters db) = Some x"
    using uniq x by (rule sql_lookup_unique)
  have "abs_run ?db (r\<lparr>r_run_at := now\<rparr>) = a_signal now (w_event_name x) js (abs_run db r)"
    using r sql_lookup_key [OF r(1)] x' wlookup [of ?rid]
    by (auto simp: abs_run_def abs_phase_def a_signal_def put_step_def steps intro!: ext)
  moreover have "abs_run ?db r' = abs_run db r'" if "r_id r' \<noteq> ?rid" for r'
    using that by (cases "r_status r'") (simp_all add: abs_run_def abs_phase_def steps wlookup)
  ultimately show "as_runs (sqlite_view ?db) = (as_runs (sqlite_view db))(?rid :=
      map_option (a_signal now (w_event_name x) js) (as_runs (sqlite_view db) ?rid))"
    using lookup r(1) by (auto simp: sqlite_view_def intro!: ext lookup_map_cong)
  show "wf_db ?db"
  proof -
    have "row_ok (r'\<lparr>r_status := Pending, r_run_at := now\<rparr>)"
      if "row_ok r'" "r_status r' = Pending" for r'
      using that by (simp add: row_ok_def)
    then have rows: "row_ok r'" if "r' \<in> set (db_runs ?db)" for r'
      using that wf_row [OF wf] by (auto simp: sqlite_signal_one_def Let_def set_update)
    have keys: "r_id ` set (db_runs ?db) = r_id ` set (db_runs db)"
      by (simp add: sqlite_signal_one_def Let_def image_key_update)
    have "st_run_id s \<in> r_id ` set (db_runs db)" if s: "s \<in> set (db_steps ?db)" for s
    proof -
      have "st_run_id s = ?rid \<or> s \<in> set (db_steps db)"
        using s set_insert_ignore_subset [of st_key "\<lparr>st_run_id = ?rid, st_name = w_step_name x,
            st_result = js, st_completed_at = now\<rparr>" "db_steps db"]
        by (auto simp: sqlite_signal_one_def Let_def)
      moreover have "?rid \<in> r_id ` set (db_runs db)" using sql_lookup_SomeD [OF r(1)] by (metis imageI)
      ultimately show ?thesis using wf by (auto simp: wf_db_def)
    qed
    moreover have "waiter_ok (db_runs ?db) y" if "y \<in> set (db_waiters ?db)" for y
      using that wf lookup [of "w_run_id y"] by (auto simp: ws wf_db_def waiter_ok_def)
    moreover have "unique_key r_id (db_runs ?db)" "unique_key st_key (db_steps ?db)"
        "unique_key s_name (db_schedules ?db)"
      using wf by (auto simp: sqlite_signal_one_def Let_def wf_db_def unique_update)
    ultimately show ?thesis
      using rows keys uniq by (auto simp: wf_db_def ws)
  qed
qed

lemma signal_all:
  assumes "wf_db db" "distinct (map w_run_id xs)" "set xs \<subseteq> set (db_waiters db)"
  shows "wf_db (fold (sqlite_signal_one js now) xs db) \<and>
    as_runs (sqlite_view (fold (sqlite_signal_one js now) xs db)) i =
      (case sql_lookup w_run_id i xs of
         None \<Rightarrow> as_runs (sqlite_view db) i
       | Some x \<Rightarrow> map_option (a_signal now (w_event_name x) js) (as_runs (sqlite_view db) i))"
  using assms
proof (induction xs arbitrary: db)
  case (Cons x xs)
  note one = signal_one_run [OF Cons.prems(1), of x]
  have x: "x \<in> set (db_waiters db)" using Cons.prems(3) by simp
  have "set xs \<subseteq> set (db_waiters (sqlite_signal_one js now x db))"
    using Cons.prems(2,3) by (force simp: one(3) [OF x] image_iff)
  note IH = Cons.IH [OF one(2) [OF x], OF _ this]
  have "sql_lookup w_run_id (w_run_id x) xs = None"
    using Cons.prems(2) by (simp add: sql_lookup_None)
  then show ?case
    using IH Cons.prems(2) one(1) [OF x, of js now] by (auto split: option.splits)
qed simp

lemma a_waits_for_abs:
  assumes "wf_db db" "r \<in> set (db_runs db)"
  shows "a_waits_for ev (abs_run db r) \<longleftrightarrow>
    (\<exists>x. sql_lookup w_run_id (r_id r) (db_waiters db) = Some x \<and> w_event_name x = ev)"
proof (cases "r_status r = Pending")
  case True
  then show ?thesis by (auto simp: a_waits_for_def abs_run_def abs_phase_def split: option.splits)
next
  case False
  have "sql_lookup r_id (r_id r) (db_runs db) = Some r"
    using assms by (simp add: wf_db_def sql_lookup_unique)
  then show ?thesis
    using False wf_no_waiter [OF assms(1)]
    by (auto simp: a_waits_for_def abs_run_def abs_phase_def split: run_status.splits)
qed

lemma signal_implements:
  assumes wf: "wf_db db" and sc: "scans_ok sc"
    and exq: "sqlite_exec c sc now fresh (Op_signal ev payload) db = (resp, db')"
  shows "astep c now fresh (Op_signal ev payload) (sqlite_view db) resp (sqlite_view db') \<and> wf_db db'"
proof (cases "to_string c payload")
  case None
  then show ?thesis using wf exq by (auto simp: sqlite_signal_def)
next
  case (Some js)
  let ?fs = "filter (\<lambda>x. w_event_name x = ev) (db_waiters db)"
  let ?xs = "scan_waiters sc ?fs"
  have resp: "resp = Inr (Ok_count (length ?fs))" and db': "db' = fold (sqlite_signal_one js now) ?xs db"
    using exq Some sc by (auto simp: sqlite_signal_def Let_def)
  have uniq: "unique_key w_run_id (db_waiters db)" using wf by (simp add: wf_db_def)
  then have d: "distinct (map w_run_id ?xs)" and dfs: "distinct (map w_run_id ?fs)"
    using scans_distinct(3) [OF sc, of w_run_id ?fs] by (simp_all add: unique_key_def distinct_map_filter)
  have sub: "set ?xs \<subseteq> set (db_waiters db)" using sc by auto
  note all = signal_all [OF wf d sub, of js now]
  have look: "sql_lookup w_run_id i ?xs = (case sql_lookup w_run_id i (db_waiters db) of
      None \<Rightarrow> None | Some x \<Rightarrow> if w_event_name x = ev then Some x else None)" for i
  proof -
    have "unique_key w_run_id ?xs" using d by (simp add: unique_key_def)
    then have "sql_lookup w_run_id i ?xs = Some x \<longleftrightarrow>
        sql_lookup w_run_id i (db_waiters db) = Some x \<and> w_event_name x = ev" for x
      using sc by (auto simp: sql_lookup_iff uniq)
    then show ?thesis
      by (intro option_eqI) (auto split: option.splits)
  qed
  have idle: "a_signal now ev js (abs_run db r) = abs_run db r"
    if "r \<in> set (db_runs db)" "\<not> a_waits_for ev (abs_run db r)" for r
    using that(2) by (auto simp: a_signal_def a_waits_for_def split: phase.splits)
  have "as_runs (sqlite_view db') i = map_option (a_signal now ev js) (as_runs (sqlite_view db) i)" for i
  proof (cases "sql_lookup r_id i (db_runs db)")
    case None
    then have "as_runs (sqlite_view db) i = None" by (simp add: sqlite_view_def)
    then show ?thesis using all [of i] unfolding db' by (auto split: option.splits)
  next
    case (Some r)
    then have run: "as_runs (sqlite_view db) i = Some (abs_run db r)"
      and r: "r \<in> set (db_runs db)" "r_id r = i"
      by (auto simp: sqlite_view_def dest: sql_lookup_SomeD)
    show ?thesis
      using all [of i] look [of i] run a_waits_for_abs [OF wf r(1), of ev] idle [OF r(1)] r(2)
      unfolding db' by (auto split: option.splits if_splits)
  qed
  moreover have "as_schedules (sqlite_view db') = as_schedules (sqlite_view db)"
  proof -
    have "db_schedules (fold (sqlite_signal_one js now) ys db) = db_schedules db" for ys
      by (induction ys arbitrary: db) (simp_all add: sqlite_signal_one_def Let_def)
    then show ?thesis by (simp add: db' sqlite_view_def)
  qed
  ultimately have view: "sqlite_view db' = a_map_runs (a_signal now ev js) (sqlite_view db)"
    by (intro astate_eqI ext) (simp_all add: a_map_runs_def)
  have "a_ids (a_waits_for ev) (sqlite_view db) = w_run_id ` set ?fs"
  proof -
    have "w_run_id x \<in> r_id ` set (db_runs db)" if "x \<in> set (db_waiters db)" for x
    proof -
      have "waiter_ok (db_runs db) x" using that wf by (simp add: wf_db_def)
      then have "sql_lookup r_id (w_run_id x) (db_runs db) \<noteq> None"
        by (auto simp: waiter_ok_def split: option.splits)
      then show ?thesis unfolding sql_lookup_None by simp
    qed
    moreover have "a_waits_for ev (abs_run db r) \<longleftrightarrow> r_id r \<in> w_run_id ` set ?fs"
      if "r \<in> set (db_runs db)" for r
      unfolding a_waits_for_abs [OF wf that] sql_lookup_iff [OF uniq] by (auto simp: image_iff)
    ultimately show ?thesis
      unfolding a_ids_view [OF wf] by (force simp: image_iff)
  qed
  then have "card (a_ids (a_waits_for ev) (sqlite_view db)) = length ?fs"
    using distinct_card [OF dfs] by simp
  then show ?thesis
    using Some resp view all db' by simp
qed

section \<open>Pruning\<close>

lemma a_prunable_abs:
  "row_ok r \<Longrightarrow> a_prunable cutoff (abs_run db r) = prunable cutoff r"
  by (auto simp: a_prunable_def prunable_def abs_run_def abs_phase_def row_ok_def terminal_def
      split: run_status.splits option.splits)

lemma a_ended_at_abs:
  "row_ok r \<Longrightarrow> prunable cutoff r \<Longrightarrow> a_ended_at (abs_run db r) = the (r_finished_at r)"
  by (auto simp: a_ended_at_def prunable_def abs_run_def abs_phase_def terminal_def
      split: run_status.splits)

text \<open>Keeping the first \<open>n\<close> of a list sorted by a key keeps the smallest keys.\<close>

lemma take_sort_key_least:
  assumes "x \<in> set (take n (sort_key f xs))" "y \<in> set (drop n (sort_key f xs))"
  shows "f x \<le> f y"
proof -
  have "sorted (map f (take n (sort_key f xs) @ drop n (sort_key f xs)))"
    by (simp del: map_append)
  then show ?thesis
    using assms unfolding map_append sorted_append by simp
qed

lemma select_prune_props:
  fixes cutoff :: int and n :: nat
  assumes wf: "wf_db db" and sc: "scans_ok sc"
  defines "P \<equiv> {r \<in> set (db_runs db). prunable cutoff r}"
    and "ids \<equiv> set (select_prune sc cutoff n (db_runs db))"
  shows "ids \<subseteq> r_id ` P" "card ids = min n (card (r_id ` P))"
    "\<And>r r'. r \<in> P \<Longrightarrow> r' \<in> P \<Longrightarrow> r_id r \<in> ids \<Longrightarrow> r_id r' \<notin> ids \<Longrightarrow>
       the (r_finished_at r) \<le> the (r_finished_at r')"
proof -
  let ?f = "\<lambda>r. the (r_finished_at r)"
  let ?fs = "filter (prunable cutoff) (db_runs db)"
  let ?ss = "sort_key ?f (scan_runs sc ?fs)"
  have set_ss: "set ?ss = P" using sc by (auto simp: P_def)
  have uniq: "unique_key r_id (db_runs db)" using wf by (simp add: wf_db_def)
  have inj: "inj_on r_id P"
    using uniq by (auto simp: inj_on_def P_def dest: unique_keyD)
  have "mset (map r_id ?ss) = mset (map r_id ?fs)"
    using sc by (simp add: scans_ok_def del: mset_filter)
  moreover have "distinct (map r_id ?fs)"
    using uniq by (simp add: unique_key_def distinct_map_filter)
  ultimately have d: "distinct (map r_id ?ss)" by (metis mset_eq_imp_distinct_iff)
  have ids: "ids = r_id ` set (take n ?ss)" by (simp add: ids_def select_prune_def)
  have tk: "set (take n ?ss) \<subseteq> P" using set_ss set_take_subset by metis
  show "ids \<subseteq> r_id ` P" using ids tk by auto
  have "card ids = length (take n ?ss)"
    using distinct_card [of "map r_id (take n ?ss)"] distinct_take [OF d, of n]
    by (simp add: ids take_map)
  moreover have "card (r_id ` P) = length ?ss"
    using distinct_card [OF d] set_ss by simp
  ultimately show "card ids = min n (card (r_id ` P))" by simp
  fix r r'
  assume r: "r \<in> P" "r' \<in> P" "r_id r \<in> ids" "r_id r' \<notin> ids"
  have "r \<in> set (take n ?ss)"
    using r(1,3) ids inj tk by (auto simp: inj_on_def subset_iff)
  moreover have "r' \<in> set (take n ?ss) \<union> set (drop n ?ss)"
    using r(2) set_ss by (metis append_take_drop_id set_append)
  then have "r' \<in> set (drop n ?ss)" using r(4) ids by auto
  ultimately show "?f r \<le> ?f r'" by (rule take_sort_key_least)
qed

definition prune_db :: "string set \<Rightarrow> runs_db \<Rightarrow> runs_db" where
  "prune_db D db =
     db\<lparr>db_runs := sql_delete (\<lambda>r. r_id r \<in> D) (db_runs db),
        db_steps := sql_delete (\<lambda>s. st_run_id s \<in> D) (db_steps db),
        db_waiters := sql_delete (\<lambda>x. w_run_id x \<in> D) (db_waiters db)\<rparr>"

lemma prune_db_wf: "wf_db db \<Longrightarrow> wf_db (prune_db D db)"
proof -
  assume wf: "wf_db db"
  have "waiter_ok (sql_delete (\<lambda>r. r_id r \<in> D) (db_runs db)) x"
    if "x \<in> set (db_waiters db)" "w_run_id x \<notin> D" for x
  proof -
    have "waiter_ok (db_runs db) x" using wf that by (simp add: wf_db_def)
    then obtain r where "sql_lookup r_id (w_run_id x) (db_runs db) = Some r"
      "r_status r = Pending" "r_run_at r = wake_time (w_expires_at x)"
      by (auto simp: waiter_ok_def split: option.splits)
    then show ?thesis
      using wf that(2) by (auto simp: waiter_ok_def lookup_delete wf_db_def dest: sql_lookup_key)
  qed
  then show ?thesis
    using wf by (auto simp: wf_db_def prune_db_def)
qed

lemma prune_db_view:
  assumes wf: "wf_db db"
  shows "sqlite_view (prune_db D db) = (sqlite_view db)\<lparr>as_runs := as_runs (sqlite_view db) |` (- D)\<rparr>"
proof -
  have same: "abs_run (prune_db D db) r = abs_run db r" if "r_id r \<notin> D" for r
  proof -
    have "sql_lookup st_key (r_id r, n) (db_steps (prune_db D db)) =
        sql_lookup st_key (r_id r, n) (db_steps db)" for n
      using wf that by (auto simp: prune_db_def lookup_delete wf_db_def st_key_def
          split: option.splits dest!: sql_lookup_SomeD)
    moreover have "sql_lookup w_run_id (r_id r) (db_waiters (prune_db D db)) =
        sql_lookup w_run_id (r_id r) (db_waiters db)"
      using wf that by (auto simp: prune_db_def lookup_delete wf_db_def
          split: option.splits dest!: sql_lookup_SomeD)
    ultimately show ?thesis
      by (cases "r_status r") (simp_all add: abs_run_def abs_phase_def)
  qed
  have "as_runs (sqlite_view (prune_db D db)) i = (as_runs (sqlite_view db) |` (- D)) i" for i
  proof (cases "sql_lookup r_id i (db_runs db)")
    case None
    then show ?thesis
      using wf by (simp add: sqlite_view_def prune_db_def lookup_delete wf_db_def restrict_map_def)
  next
    case (Some r)
    then show ?thesis
      using wf same [of r] sql_lookup_key [OF Some]
      by (simp add: sqlite_view_def restrict_map_def)
         (simp add: prune_db_def lookup_delete wf_db_def)
  qed
  then show ?thesis
    by (intro astate_eqI ext, simp) (simp add: prune_db_def sqlite_view_def)
qed

lemma prune_implements:
  assumes wf: "wf_db db" and sc: "scans_ok sc"
    and exq: "sqlite_exec c sc now fresh (Op_prune cutoff limit) db = (resp, db')"
  shows "astep c now fresh (Op_prune cutoff limit) (sqlite_view db) resp (sqlite_view db') \<and> wf_db db'"
proof -
  let ?D = "set (select_prune sc cutoff (unat limit) (db_runs db))"
  let ?P = "{r \<in> set (db_runs db). prunable cutoff r}"
  note props = select_prune_props [OF wf sc, where cutoff = cutoff and n = "unat limit"]
  have ids: "a_ids (a_prunable cutoff) (sqlite_view db) = r_id ` ?P"
    using a_prunable_abs wf_row [OF wf] by (auto simp: a_ids_view [OF wf])
  have sub: "?D \<subseteq> r_id ` set (db_runs db)" using props(1) by auto
  have "sql_count (\<lambda>r. r_id r \<in> ?D) (db_runs db) =
      card {k. \<exists>r. sql_lookup r_id k (db_runs db) = Some r \<and> r_id r \<in> ?D}"
    using wf by (intro sql_count_card) (simp add: wf_db_def)
  also have "{k. \<exists>r. sql_lookup r_id k (db_runs db) = Some r \<and> r_id r \<in> ?D} = ?D"
    using sub wf by (auto simp: wf_db_def sql_lookup_iff)
  finally have resp: "resp = Inr (Ok_count (card ?D))" and db': "db' = prune_db ?D db"
    using exq by (auto simp: sqlite_prune_finished_before_def Let_def prune_db_def)
  have run: "as_runs (sqlite_view db) (r_id r) = Some (abs_run db r)" if "r \<in> ?P" for r
    using that wf by (auto simp: sqlite_view_def wf_db_def sql_lookup_unique)
  have ended: "a_ended_at (abs_run db r) = the (r_finished_at r)" if "r \<in> ?P" for r
    using that a_ended_at_abs wf_row [OF wf] by blast
  have least: "a_ended_at (the (as_runs (sqlite_view db) i)) \<le> a_ended_at (the (as_runs (sqlite_view db) j))"
    if ij: "i \<in> ?D" "j \<in> r_id ` ?P - ?D" for i j
  proof -
    obtain r where r: "r \<in> ?P" "i = r_id r" using ij(1) props(1) by blast
    obtain r' where r': "r' \<in> ?P" "j = r_id r'" using ij(2) by blast
    show ?thesis
      using props(3) [OF r(1) r'(1)] ij r r' run [OF r(1)] run [OF r'(1)] ended [OF r(1)] ended [OF r'(1)]
      by auto
  qed
  show ?thesis
    unfolding astep.simps ids
    using props(1,2) least resp db' prune_db_view [OF wf, of ?D] prune_db_wf [OF wf, of ?D]
    by (intro conjI exI [of _ ?D]) auto
qed

section \<open>The SQLite store is a workflow store\<close>

lemma sqlite_exec_implements:
  assumes "wf_db db" "scans_ok sc" "now < i64_max" "sqlite_exec c sc now fresh op db = (resp, db')"
  shows "astep c now fresh op (sqlite_view db) resp (sqlite_view db') \<and> wf_db db'"
  using assms
  by (cases op; hypsubst)
     (rule enqueue_implements claim_implements heartbeat_implements save_step_implements
       complete_implements cancel_implements fail_implements prune_implements defer_implements
       reclaim_implements reclaim_with_workers_implements wait_implements signal_implements
       replace_schedules_implements set_schedule_implements; assumption)+

text \<open>The engine's scan orders and the JSON codec are free parameters of the store; the interface
  is interpreted for each of them on the databases that are well formed.\<close>

definition sqlite_inv :: "scans \<Rightarrow> runs_db \<Rightarrow> bool" where
  "sqlite_inv sc db = (scans_ok sc \<and> wf_db db)"

interpretation sqlite: run_store c "sqlite_exec c sc" sqlite_view "sqlite_inv sc" "\<lambda>_. True" for c sc
  by unfold_locales (auto simp: sqlite_inv_def contract_def dest: sqlite_exec_implements)

end
