(* ===== verification/Workflow_Postgres.thy ===== *)
theory Workflow_Postgres
  imports Workflow_Sqlite_Signal
begin

text \<open>
  The Postgres workflow store (\<^verbatim>\<open>tako-workflows/src/postgres_store.rs\<close>), one definition per
  method of \<^verbatim>\<open>PostgresRunsDb\<close>.  Many apps share one database: a row is the pair of its
  \<^verbatim>\<open>app_id\<close> and the columns the SQLite store has.  A method runs in one transaction; the
  model executes transactions one after the other, and an error rolls back.  The order in which
  Postgres yields the rows of a query, also under the collation of an \<^verbatim>\<open>ORDER BY\<close> on text,
  is the parameter \<open>scans\<close> of the store.
\<close>

section \<open>Tables shared by apps\<close>

type_synonym 'r app_table = "(string \<times> 'r) list"

record pg_db =
  pg_runs :: "run_row app_table"
  pg_steps :: "step_row app_table"
  pg_waiters :: "waiter_row app_table"
  pg_schedules :: "schedule_row app_table"

type_synonym 'a pg_result = "(runs_db_error + 'a) \<times> pg_db"

definition for_app :: "string \<Rightarrow> ('r \<Rightarrow> bool) \<Rightarrow> string \<times> 'r \<Rightarrow> bool" where
  "for_app app P = (\<lambda>(a, r). a = app \<and> P r)"

definition app_key :: "('r \<Rightarrow> 'k) \<Rightarrow> string \<times> 'r \<Rightarrow> string \<times> 'k" where
  "app_key key = (\<lambda>(a, r). (a, key r))"

text \<open>The rows a query with \<^verbatim>\<open>WHERE app_id = $1 AND P\<close> returns.\<close>

definition pg_select :: "string \<Rightarrow> ('r \<Rightarrow> bool) \<Rightarrow> 'r app_table \<Rightarrow> 'r list" where
  "pg_select app P t = map snd (filter (for_app app P) t)"

section \<open>Operations\<close>

definition pg_enqueue ::
    "string \<Rightarrow> 'j codec \<Rightarrow> int \<Rightarrow> string \<Rightarrow> string \<Rightarrow> 'j \<Rightarrow> enqueue_opts \<Rightarrow> pg_db
     \<Rightarrow> enqueue_run_response pg_result" where
  "pg_enqueue app c now fresh name payload opts db =
     (case to_string c payload of
        None \<Rightarrow> (Inl JsonError, db)
      | Some payload_json \<Rightarrow>
          let rid = (case o_id opts of Some i \<Rightarrow> i | None \<Rightarrow> fresh);
              existing = sql_lookup (app_key r_id) (app, rid) (pg_runs db);
              runs' = sql_insert_ignore (app_key r_id) (app, new_run now rid name payload_json opts)
                        (pg_runs db)
          in case existing of
               None \<Rightarrow>
                 (Inr \<lparr>er_id = rid, er_deduplicated = False\<rparr>, db\<lparr>pg_runs := runs'\<rparr>)
             | Some (_, r) \<Rightarrow>
                 (case check_existing_run c rid name payload (r_name r) (r_payload r) of
                    Inl e \<Rightarrow> (Inl e, db)
                  | Inr _ \<Rightarrow>
                      (Inr \<lparr>er_id = rid, er_deduplicated = True\<rparr>, db\<lparr>pg_runs := runs'\<rparr>)))"

definition pg_select_claim ::
    "string \<Rightarrow> scans \<Rightarrow> int \<Rightarrow> string list \<Rightarrow> run_row app_table \<Rightarrow> run_row option" where
  "pg_select_claim app sc now names runs =
     (case sort_key r_run_at (scan_runs sc (pg_select app (claimable now names) runs)) of
        [] \<Rightarrow> None
      | r # _ \<Rightarrow> Some r)"

definition pg_claim ::
    "string \<Rightarrow> 'j codec \<Rightarrow> scans \<Rightarrow> int \<Rightarrow> string \<Rightarrow> string list \<Rightarrow> 64 word \<Rightarrow> pg_db
     \<Rightarrow> 'j run_payload option pg_result" where
  "pg_claim app c sc now w names lease_ms db =
     (if names = [] then (Inr None, db)
      else
        let lease_until = i64_sat_add now (clamp_lease_ms lease_ms)
        in case pg_select_claim app sc now names (pg_runs db) of
             None \<Rightarrow> (Inr None, db)
           | Some cand \<Rightarrow>
               let rid = r_id cand;
                   runs' = sql_update (for_app app (\<lambda>r. r_id r = rid))
                             (apsnd (set_running w lease_until)) (pg_runs db);
                   timed_out = scan_waiters sc (pg_select app (waiter_expired now rid) (pg_waiters db));
                   steps' = fold (sql_insert_ignore (app_key st_key))
                     (map (\<lambda>x. (app, \<lparr>st_run_id = w_run_id x, st_name = w_step_name x,
                                 st_result = ''null'', st_completed_at = now\<rparr>)) timed_out)
                     (pg_steps db);
                   waiters' = sql_delete (for_app app (waiter_expired now rid)) (pg_waiters db);
                   step_rows = scan_steps sc (pg_select app (\<lambda>s. st_run_id s = rid) steps')
               in (Inr (Some (claimed_payload c w (set_running w lease_until cand) step_rows)),
                   db\<lparr>pg_runs := runs', pg_steps := steps', pg_waiters := waiters'\<rparr>))"

definition update_running ::
    "string \<Rightarrow> string \<Rightarrow> string \<Rightarrow> (run_row \<Rightarrow> run_row) \<Rightarrow> pg_db \<Rightarrow> unit pg_result" where
  "update_running app rid w f db =
     (if sql_count (for_app app (owned_by rid w)) (pg_runs db) = 0 then (Inl StaleWorker, db)
      else (Inr (), db\<lparr>pg_runs := sql_update (for_app app (owned_by rid w)) (apsnd f) (pg_runs db)\<rparr>))"

definition pg_heartbeat ::
    "string \<Rightarrow> int \<Rightarrow> string \<Rightarrow> string \<Rightarrow> 64 word \<Rightarrow> pg_db \<Rightarrow> unit pg_result" where
  "pg_heartbeat app now rid w lease_ms db =
     (let lease_until = i64_sat_add now (clamp_lease_ms lease_ms)
      in update_running app rid w (\<lambda>r. r\<lparr>r_lease_until := Some lease_until\<rparr>) db)"

definition pg_save_step ::
    "string \<Rightarrow> 'j codec \<Rightarrow> int \<Rightarrow> string \<Rightarrow> string \<Rightarrow> string \<Rightarrow> 'j \<Rightarrow> pg_db \<Rightarrow> unit pg_result" where
  "pg_save_step app c now rid w step_name result db =
     (case to_string c result of
        None \<Rightarrow> (Inl JsonError, db)
      | Some js \<Rightarrow>
          if pg_select app (owned_by rid w) (pg_runs db) = [] then (Inl StaleWorker, db)
          else (Inr (), db\<lparr>pg_steps := sql_insert_ignore (app_key st_key)
                  (app, \<lparr>st_run_id = rid, st_name = step_name, st_result = js,
                         st_completed_at = now\<rparr>) (pg_steps db)\<rparr>))"

definition pg_complete :: "string \<Rightarrow> int \<Rightarrow> string \<Rightarrow> string \<Rightarrow> pg_db \<Rightarrow> unit pg_result" where
  "pg_complete app now rid w db =
     update_running app rid w (\<lambda>r. set_finished Succeeded (r_last_error r) now r) db"

definition pg_cancel ::
    "string \<Rightarrow> int \<Rightarrow> string \<Rightarrow> string \<Rightarrow> string option \<Rightarrow> pg_db \<Rightarrow> unit pg_result" where
  "pg_cancel app now rid w reason db = update_running app rid w (set_finished Cancelled reason now) db"

definition pg_fail ::
    "string \<Rightarrow> int \<Rightarrow> string \<Rightarrow> string \<Rightarrow> string \<Rightarrow> int option \<Rightarrow> bool \<Rightarrow> pg_db \<Rightarrow> unit pg_result" where
  "pg_fail app now rid w err next_run_at_ms finalize db =
     (if finalize then update_running app rid w (set_finished Dead (Some err) now) db
      else case next_run_at_ms of
             None \<Rightarrow> (Inl (UnsupportedBackend ''fail(finalize=false) requires next_run_at_ms''), db)
           | Some next_at \<Rightarrow> update_running app rid w (set_retry err next_at) db)"

definition pg_prune_finished_before ::
    "string \<Rightarrow> scans \<Rightarrow> int \<Rightarrow> 32 word \<Rightarrow> pg_db \<Rightarrow> nat pg_result" where
  "pg_prune_finished_before app sc cutoff limit db =
     (let ids = map r_id (take (unat limit) (sort_key (\<lambda>r. the (r_finished_at r))
                  (scan_runs sc (pg_select app (prunable cutoff) (pg_runs db)))))
      in if ids = [] then (Inr 0, db)
         else (Inr (length ids),
           db\<lparr>pg_steps := sql_delete (for_app app (\<lambda>s. st_run_id s \<in> set ids)) (pg_steps db),
              pg_waiters := sql_delete (for_app app (\<lambda>x. w_run_id x \<in> set ids)) (pg_waiters db),
              pg_runs := sql_delete (for_app app (\<lambda>r. r_id r \<in> set ids)) (pg_runs db)\<rparr>))"

definition pg_defer ::
    "string \<Rightarrow> string \<Rightarrow> string \<Rightarrow> int option \<Rightarrow> pg_db \<Rightarrow> unit pg_result" where
  "pg_defer app rid w wake_at_ms db =
     (let run_at = (case wake_at_ms of Some t \<Rightarrow> t | None \<Rightarrow> i64_max)
      in update_running app rid w (set_parked run_at) db)"

definition pg_reclaim_expired :: "string \<Rightarrow> int \<Rightarrow> pg_db \<Rightarrow> nat pg_result" where
  "pg_reclaim_expired app now db =
     (Inr (sql_count (for_app app (expired now)) (pg_runs db)),
      db\<lparr>pg_runs := sql_update (for_app app (expired now)) (apsnd set_reclaimed) (pg_runs db)\<rparr>)"

definition pg_reclaim_expired_with_workers ::
    "string \<Rightarrow> scans \<Rightarrow> int \<Rightarrow> pg_db \<Rightarrow> string list pg_result" where
  "pg_reclaim_expired_with_workers app sc now db =
     (let expired_rows = scan_runs sc (pg_select app (expired now) (pg_runs db))
      in (Inr (List.map_filter r_worker_id expired_rows),
          db\<lparr>pg_runs := sql_update (for_app app (expired now)) (apsnd set_reclaimed) (pg_runs db)\<rparr>))"

definition pg_in_flight_by_worker :: "string \<Rightarrow> pg_db \<Rightarrow> (string \<times> 32 word) list" where
  "pg_in_flight_by_worker app db =
     (let running = pg_select app (\<lambda>r. r_status r = Running \<and> r_worker_id r \<noteq> None) (pg_runs db)
      in map (\<lambda>w. (w, of_nat (sql_count (\<lambda>r. r_worker_id r = Some w) running)))
           (remdups (List.map_filter r_worker_id running)))"

definition pg_wait_for_event ::
    "string \<Rightarrow> string \<Rightarrow> string \<Rightarrow> string \<Rightarrow> string \<Rightarrow> int option \<Rightarrow> pg_db \<Rightarrow> unit pg_result" where
  "pg_wait_for_event app rid w step_name event_name timeout_at_ms db =
     (let run_at = (case timeout_at_ms of Some t \<Rightarrow> t | None \<Rightarrow> i64_max)
      in case update_running app rid w (set_parked run_at) db of
           (Inl e, _) \<Rightarrow> (Inl e, db)
         | (Inr _, db1) \<Rightarrow>
             (Inr (),
              db1\<lparr>pg_waiters := sql_upsert (app_key w_key)
                    (apsnd (\<lambda>x. x\<lparr>w_event_name := event_name, w_expires_at := timeout_at_ms\<rparr>))
                    (app, \<lparr>w_run_id = rid, w_step_name = step_name, w_event_name = event_name,
                           w_expires_at = timeout_at_ms\<rparr>) (pg_waiters db1)\<rparr>))"

definition pg_signal_one ::
    "string \<Rightarrow> string \<Rightarrow> string \<Rightarrow> int \<Rightarrow> waiter_row \<Rightarrow> nat \<times> pg_db \<Rightarrow> nat \<times> pg_db" where
  "pg_signal_one app event_name js now x = (\<lambda>(woken, db).
     let mine = for_app app (\<lambda>y. w_run_id y = w_run_id x \<and> w_step_name y = w_step_name x
                                 \<and> w_event_name y = event_name);
         consumed = sql_count mine (pg_waiters db)
     in if consumed = 0 then (woken, db)
        else
          (woken + 1,
           db\<lparr>pg_waiters := sql_delete mine (pg_waiters db),
              pg_steps := sql_insert_ignore (app_key st_key)
                (app, \<lparr>st_run_id = w_run_id x, st_name = w_step_name x, st_result = js,
                       st_completed_at = now\<rparr>) (pg_steps db),
              pg_runs := sql_update
                (for_app app (\<lambda>r. r_id r = w_run_id x \<and> r_status r = Pending))
                (apsnd (\<lambda>r. r\<lparr>r_status := Pending, r_run_at := now\<rparr>)) (pg_runs db)\<rparr>))"

definition pg_signal ::
    "string \<Rightarrow> 'j codec \<Rightarrow> scans \<Rightarrow> int \<Rightarrow> string \<Rightarrow> 'j \<Rightarrow> pg_db \<Rightarrow> nat pg_result" where
  "pg_signal app c sc now event_name payload db =
     (case to_string c payload of
        None \<Rightarrow> (Inl JsonError, db)
      | Some js \<Rightarrow>
          let waiters = scan_waiters sc (pg_select app (\<lambda>x. w_event_name x = event_name) (pg_waiters db));
              (woken, db') = fold (pg_signal_one app event_name js now) waiters (0, db)
          in (Inr woken, db'))"

definition pg_pending_count :: "string \<Rightarrow> pg_db \<Rightarrow> nat" where
  "pg_pending_count app db = sql_count (for_app app (\<lambda>r. r_status r = Pending)) (pg_runs db)"

definition pg_has_runnable_work :: "string \<Rightarrow> int \<Rightarrow> pg_db \<Rightarrow> bool" where
  "pg_has_runnable_work app now db =
     list_ex (for_app app (\<lambda>r. r_status r = Pending \<and> r_run_at r \<le> now)) (pg_runs db)"

definition pg_replace_schedules ::
    "string \<Rightarrow> int \<Rightarrow> schedule_spec list \<Rightarrow> pg_db \<Rightarrow> unit pg_result" where
  "pg_replace_schedules app now schedules db =
     (let kept = (if schedules = [] then sql_delete (for_app app (\<lambda>_. True)) (pg_schedules db)
                  else sql_delete (for_app app (\<lambda>s. s_name s \<notin> set (map sp_name schedules)))
                         (pg_schedules db));
          put = (\<lambda>sp. sql_upsert (app_key s_name) (apsnd (\<lambda>x. x\<lparr>s_cron := sp_cron sp\<rparr>))
                   (app, \<lparr>s_name = sp_name sp, s_cron = sp_cron sp, s_last_run_at = Some now\<rparr>))
      in (Inr (), db\<lparr>pg_schedules := fold put schedules kept\<rparr>))"

definition pg_list_schedules :: "string \<Rightarrow> scans \<Rightarrow> pg_db \<Rightarrow> schedule_row list" where
  "pg_list_schedules app sc db = scan_schedules sc (pg_select app (\<lambda>_. True) (pg_schedules db))"

definition pg_set_schedule_last_run_at ::
    "string \<Rightarrow> string \<Rightarrow> int \<Rightarrow> pg_db \<Rightarrow> unit pg_result" where
  "pg_set_schedule_last_run_at app name ts db =
     (Inr (), db\<lparr>pg_schedules := sql_update (for_app app (\<lambda>s. s_name s = name))
                   (apsnd (\<lambda>s. s\<lparr>s_last_run_at := Some ts\<rparr>)) (pg_schedules db)\<rparr>)"

definition pg_init_schema :: "int \<Rightarrow> pg_db \<Rightarrow> pg_db" where
  "pg_init_schema now db =
     db\<lparr>pg_runs := sql_update (\<lambda>(_, r). unfinished r) (apsnd (\<lambda>r. r\<lparr>r_finished_at := Some now\<rparr>))
                     (pg_runs db)\<rparr>"

definition is_ascii_alpha :: "char \<Rightarrow> bool" where
  "is_ascii_alpha ch = (let n = of_char ch :: nat in (65 \<le> n \<and> n \<le> 90) \<or> (97 \<le> n \<and> n \<le> 122))"

definition is_ascii_alnum :: "char \<Rightarrow> bool" where
  "is_ascii_alnum ch = (is_ascii_alpha ch \<or> (let n = of_char ch :: nat in 48 \<le> n \<and> n \<le> 57))"

definition validate_identifier :: "string \<Rightarrow> runs_db_error + unit" where
  "validate_identifier identifier =
     (case identifier of
        [] \<Rightarrow> Inl (UnsupportedBackend ''postgres schema name cannot be empty'')
      | first # chars \<Rightarrow>
          if \<not> (first = CHR ''_'' \<or> is_ascii_alpha first)
             \<or> \<not> list_all (\<lambda>ch. ch = CHR ''_'' \<or> is_ascii_alnum ch) chars
          then Inl (UnsupportedBackend (''invalid postgres schema name '' @ [char_of (39::nat)]
                 @ identifier @ [char_of (39::nat)]))
          else Inr ())"

fun pg_exec ::
    "string \<Rightarrow> 'j codec \<Rightarrow> scans \<Rightarrow> int \<Rightarrow> string \<Rightarrow> 'j store_op \<Rightarrow> pg_db \<Rightarrow> 'j store_resp \<times> pg_db" where
  "pg_exec app c sc now fresh (Op_enqueue name payload opts) db =
     lift_ok Ok_enqueued (pg_enqueue app c now fresh name payload opts db)"
| "pg_exec app c sc now fresh (Op_claim w names lease_ms) db =
     lift_ok Ok_claimed (pg_claim app c sc now w names lease_ms db)"
| "pg_exec app c sc now fresh (Op_heartbeat rid w lease_ms) db =
     lift_ok (\<lambda>_. Ok_unit) (pg_heartbeat app now rid w lease_ms db)"
| "pg_exec app c sc now fresh (Op_save_step rid w n result) db =
     lift_ok (\<lambda>_. Ok_unit) (pg_save_step app c now rid w n result db)"
| "pg_exec app c sc now fresh (Op_complete rid w) db =
     lift_ok (\<lambda>_. Ok_unit) (pg_complete app now rid w db)"
| "pg_exec app c sc now fresh (Op_cancel rid w reason) db =
     lift_ok (\<lambda>_. Ok_unit) (pg_cancel app now rid w reason db)"
| "pg_exec app c sc now fresh (Op_fail rid w err next_at finalize) db =
     lift_ok (\<lambda>_. Ok_unit) (pg_fail app now rid w err next_at finalize db)"
| "pg_exec app c sc now fresh (Op_prune cutoff limit) db =
     lift_ok Ok_count (pg_prune_finished_before app sc cutoff limit db)"
| "pg_exec app c sc now fresh (Op_defer rid w wake_at) db =
     lift_ok (\<lambda>_. Ok_unit) (pg_defer app rid w wake_at db)"
| "pg_exec app c sc now fresh Op_reclaim db =
     lift_ok Ok_count (pg_reclaim_expired app now db)"
| "pg_exec app c sc now fresh Op_reclaim_with_workers db =
     lift_ok Ok_workers (pg_reclaim_expired_with_workers app sc now db)"
| "pg_exec app c sc now fresh (Op_wait_for_event rid w n ev timeout_at) db =
     lift_ok (\<lambda>_. Ok_unit) (pg_wait_for_event app rid w n ev timeout_at db)"
| "pg_exec app c sc now fresh (Op_signal ev payload) db =
     lift_ok Ok_count (pg_signal app c sc now ev payload db)"
| "pg_exec app c sc now fresh (Op_replace_schedules specs) db =
     lift_ok (\<lambda>_. Ok_unit) (pg_replace_schedules app now specs db)"
| "pg_exec app c sc now fresh (Op_set_schedule n ts) db =
     lift_ok (\<lambda>_. Ok_unit) (pg_set_schedule_last_run_at app n ts db)"

end
