(* ===== verification/Workflow_Postgres_Refine.thy ===== *)
theory Workflow_Postgres_Refine
  imports Workflow_Postgres
begin

text \<open>
  The Postgres store refines the SQLite store app by app: what an operation for an app does to
  that app's rows and answers is what the SQLite store does on those rows, and the rows of every
  other app stay as they are.  Hence the Postgres store implements the same contract.
\<close>

section \<open>The rows of one app\<close>

definition prj :: "string \<Rightarrow> 'r app_table \<Rightarrow> 'r list" where
  "prj app t = map snd (filter (\<lambda>(a, _). a = app) t)"

definition app_db :: "string \<Rightarrow> pg_db \<Rightarrow> runs_db" where
  "app_db app db =
     \<lparr>db_runs = prj app (pg_runs db), db_steps = prj app (pg_steps db),
      db_waiters = prj app (pg_waiters db), db_schedules = prj app (pg_schedules db)\<rparr>"

lemma app_db_sel [simp]:
  "db_runs (app_db app db) = prj app (pg_runs db)"
  "db_steps (app_db app db) = prj app (pg_steps db)"
  "db_waiters (app_db app db) = prj app (pg_waiters db)"
  "db_schedules (app_db app db) = prj app (pg_schedules db)"
  by (simp_all add: app_db_def)

lemma prj_Nil [simp]: "prj app [] = []"
  by (simp add: prj_def)

lemma prj_Cons [simp]: "prj app ((a, r) # t) = (if a = app then r # prj app t else prj app t)"
  by (simp add: prj_def)

lemma prj_append [simp]: "prj app (t @ u) = prj app t @ prj app u"
  by (simp add: prj_def)

lemma pg_select_prj: "pg_select app P t = filter P (prj app t)"
  by (induction t) (auto simp: pg_select_def for_app_def split: if_splits)

lemma prj_count: "sql_count (for_app app P) t = sql_count P (prj app t)"
  by (induction t) (auto simp: sql_count_def for_app_def split: if_splits)

lemma prj_update:
  "prj app' (sql_update (for_app app P) (apsnd f) t) =
     (if app' = app then sql_update P f (prj app' t) else prj app' t)"
  by (induction t) (auto simp: sql_update_def for_app_def split: if_splits)

lemma prj_delete:
  "prj app' (sql_delete (for_app app P) t) =
     (if app' = app then sql_delete P (prj app' t) else prj app' t)"
  by (induction t) (auto simp: sql_delete_def for_app_def split: if_splits)

lemma prj_lookup:
  "sql_lookup (app_key key) (app, k) t = map_option (Pair app) (sql_lookup key k (prj app t))"
  by (induction t) (auto simp: app_key_def split: if_splits)

lemma prj_lookup_None:
  "sql_lookup (app_key key) (app_key key (app, r)) t = None \<longleftrightarrow> sql_lookup key (key r) (prj app t) = None"
proof -
  have "app_key key (app, r) = (app, key r)" by (simp add: app_key_def)
  then show ?thesis by (simp add: prj_lookup)
qed

lemma prj_insert_ignore:
  "prj app' (sql_insert_ignore (app_key key) (app, r) t) =
     (if app' = app then sql_insert_ignore key r (prj app' t) else prj app' t)"
  by (auto simp: sql_insert_ignore_def prj_lookup_None)

lemma update_key_prj:
  "prj app' (sql_update (\<lambda>x. app_key key x = app_key key (app, r)) (apsnd f) t) =
     (if app' = app then sql_update (\<lambda>x. key x = key r) f (prj app' t) else prj app' t)"
  by (induction t) (auto simp: sql_update_def app_key_def split: if_splits)

lemma prj_upsert:
  "prj app' (sql_upsert (app_key key) (apsnd f) (app, r) t) =
     (if app' = app then sql_upsert key f r (prj app' t) else prj app' t)"
  by (auto simp: sql_upsert_def prj_lookup_None update_key_prj)

lemma prj_fold_insert_ignore:
  "prj app' (fold (sql_insert_ignore (app_key key)) (map (\<lambda>x. (app, g x)) xs) t) =
     (if app' = app then fold (sql_insert_ignore key) (map g xs) (prj app' t) else prj app' t)"
  by (induction xs arbitrary: t) (auto simp: prj_insert_ignore)

lemmas prj_simps = pg_select_prj prj_count prj_update prj_delete prj_lookup prj_insert_ignore
  prj_upsert prj_fold_insert_ignore

lemma prj_list_ex: "list_ex (for_app app P) t = list_ex P (prj app t)"
  by (induction t) (auto simp: for_app_def split: if_splits)

lemma prj_init_schema: "app_db app (pg_init_schema now db) = schema_init now (app_db app db)"
proof -
  have "prj app (sql_update (\<lambda>(_, r). P r) (apsnd f) t) = sql_update P f (prj app t)" for P f and t :: "'r app_table"
    by (induction t) (auto simp: sql_update_def split: if_splits)
  then show ?thesis by (simp add: app_db_def pg_init_schema_def schema_init_def)
qed

section \<open>Simulation\<close>

definition sim :: "string \<Rightarrow> 'a pg_result \<Rightarrow> 'a sqlite_result \<Rightarrow> bool" where
  "sim app p q = (fst p = fst q \<and> app_db app (snd p) = snd q)"

definition others_kept :: "string \<Rightarrow> pg_db \<Rightarrow> pg_db \<Rightarrow> bool" where
  "others_kept app db db' = (\<forall>other. other \<noteq> app \<longrightarrow> app_db other db' = app_db other db)"

lemma others_kept_refl [simp]: "others_kept app db db"
  by (simp add: others_kept_def)

lemma others_kept_trans:
  "others_kept app db db' \<Longrightarrow> others_kept app db' db'' \<Longrightarrow> others_kept app db db''"
  by (simp add: others_kept_def)

lemma runs_db_eqI:
  fixes a :: runs_db
  assumes "db_runs a = db_runs b" "db_steps a = db_steps b" "db_waiters a = db_waiters b"
    "db_schedules a = db_schedules b"
  shows "a = b"
  using assms by simp

lemma sim_update_running:
  "sim app (update_running app rid w f db) (update_owned rid w f (app_db app db))"
  by (auto simp: sim_def update_running_def update_owned_def prj_simps intro!: runs_db_eqI)

lemma others_update_running: "others_kept app db (snd (update_running app rid w f db))"
  by (auto simp: others_kept_def update_running_def prj_simps intro!: runs_db_eqI)

lemma sim_enqueue:
  "sim app (pg_enqueue app c now fresh name payload opts db)
     (sqlite_enqueue c now fresh name payload opts (app_db app db))"
  by (auto simp: sim_def pg_enqueue_def sqlite_enqueue_def prj_simps Let_def
      split: option.splits sum.splits intro!: runs_db_eqI)

lemma sim_claim:
  "sim app (pg_claim app c sc now w names lease db)
     (sqlite_claim c sc now w names lease (app_db app db))"
  by (auto simp: sim_def pg_claim_def sqlite_claim_def pg_select_claim_def select_claim_def prj_simps
      Let_def split: option.splits list.splits intro!: runs_db_eqI)

lemma sim_heartbeat:
  "sim app (pg_heartbeat app now rid w l db) (sqlite_heartbeat now rid w l (app_db app db))"
  by (simp add: pg_heartbeat_def sqlite_heartbeat_def Let_def sim_update_running)

lemma sim_complete: "sim app (pg_complete app now rid w db) (sqlite_complete now rid w (app_db app db))"
  by (simp add: pg_complete_def sqlite_complete_def sim_update_running)

lemma sim_cancel:
  "sim app (pg_cancel app now rid w reason db) (sqlite_cancel now rid w reason (app_db app db))"
  by (simp add: pg_cancel_def sqlite_cancel_def sim_update_running)

lemma sim_defer: "sim app (pg_defer app rid w t db) (sqlite_defer rid w t (app_db app db))"
  by (simp add: pg_defer_def sqlite_defer_def Let_def sim_update_running)

lemma sim_reclaim:
  "sim app (pg_reclaim_expired app now db) (sqlite_reclaim_expired now (app_db app db))"
  by (simp add: sim_def pg_reclaim_expired_def sqlite_reclaim_expired_def prj_simps app_db_def)

lemma sim_save_step:
  assumes "wf_db (app_db app db)"
  shows "sim app (pg_save_step app c now rid w n result db)
    (sqlite_save_step c now rid w n result (app_db app db))"
proof (cases "to_string c result")
  case None
  then show ?thesis by (simp add: sim_def pg_save_step_def sqlite_save_step_def)
next
  case (Some js)
  then show ?thesis
    using save_step_cases [OF assms Some, of now rid w n]
    by (auto simp: sim_def pg_save_step_def prj_simps sql_count_def intro!: runs_db_eqI)
qed

lemma sim_reclaim_with_workers:
  assumes "wf_db (app_db app db)"
  shows "sim app (pg_reclaim_expired_with_workers app sc now db)
    (sqlite_reclaim_expired_with_workers sc now (app_db app db))"
proof -
  have "filter (\<lambda>r. expired now r \<and> r_worker_id r \<noteq> None) (prj app (pg_runs db)) =
      filter (expired now) (prj app (pg_runs db))"
    using assms by (intro filter_cong) (auto simp: wf_db_def row_ok_def expired_def)
  then show ?thesis
    by (auto simp: sim_def pg_reclaim_expired_with_workers_def sqlite_reclaim_expired_with_workers_def
        prj_simps Let_def intro!: runs_db_eqI)
qed

lemma sim_set_schedule:
  "sim app (pg_set_schedule_last_run_at app n ts db)
     (sqlite_set_schedule_last_run_at n ts (app_db app db))"
  by (auto simp: sim_def pg_set_schedule_last_run_at_def sqlite_set_schedule_last_run_at_def prj_simps
      intro!: runs_db_eqI)

lemma prj_fold_put:
  "prj app' (fold (\<lambda>sp. sql_upsert (app_key s_name) (apsnd (f sp)) (app, g sp)) specs t) =
     (if app' = app then fold (\<lambda>sp. sql_upsert s_name (f sp) (g sp)) specs (prj app' t) else prj app' t)"
  by (induction specs arbitrary: t) (auto simp: prj_upsert)

lemma sim_replace_schedules:
  "sim app (pg_replace_schedules app now specs db) (sqlite_replace_schedules now specs (app_db app db))"
  by (auto simp: sim_def pg_replace_schedules_def sqlite_replace_schedules_def Let_def prj_fold_put
      prj_delete intro!: runs_db_eqI) (simp_all add: sql_delete_def)

lemma sim_wait:
  assumes "wf_db (app_db app db)"
  shows "sim app (pg_wait_for_event app rid w n ev t db)
    (sqlite_wait_for_event rid w n ev t (app_db app db))"
proof (cases "sql_count (owned_by rid w) (prj app (pg_runs db)) = 0")
  case True
  then show ?thesis
    by (simp add: sim_def pg_wait_for_event_def sqlite_wait_for_event_def update_running_def
        update_owned_def prj_simps Let_def)
next
  case False
  obtain r where "r \<in> set (prj app (pg_runs db))" and own: "owned_by rid w r"
    using False by (auto simp: sql_count_zero)
  then have "sql_lookup r_id rid (prj app (pg_runs db)) = Some r"
    using assms by (simp add: wf_db_def sql_lookup_iff owned_by_def)
  then have "sql_lookup w_run_id rid (prj app (pg_waiters db)) = None"
    using wf_no_waiter [OF assms, of rid r] own by (simp add: owned_by_def)
  then have none: "w_run_id y \<noteq> rid" if "y \<in> set (prj app (pg_waiters db))" for y
    using that by (auto simp: sql_lookup_None)
  let ?x = "\<lparr>w_run_id = rid, w_step_name = n, w_event_name = ev, w_expires_at = t\<rparr>"
  have "sql_insert_replace w_key ?x (prj app (pg_waiters db)) = prj app (pg_waiters db) @ [?x]"
    using none by (simp add: sql_insert_replace_def sql_delete_def w_key_def filter_id_conv)
  moreover have "sql_upsert w_key f ?x (prj app (pg_waiters db)) = prj app (pg_waiters db) @ [?x]" for f
    using none by (auto simp: sql_upsert_def sql_lookup_None w_key_def)
  ultimately show ?thesis
    using False
    by (auto simp: sim_def pg_wait_for_event_def sqlite_wait_for_event_def update_running_def
        update_owned_def prj_simps Let_def intro!: runs_db_eqI)
qed

lemma select_prune_distinct:
  assumes "wf_db db" "scans_ok sc"
  shows "distinct (select_prune sc cutoff n (db_runs db))"
    and "length (select_prune sc cutoff n (db_runs db)) =
      sql_count (\<lambda>r. r_id r \<in> set (select_prune sc cutoff n (db_runs db))) (db_runs db)"
proof -
  let ?fs = "filter (prunable cutoff) (db_runs db)"
  let ?ids = "select_prune sc cutoff n (db_runs db)"
  have "mset (map r_id (sort_key (\<lambda>r. the (r_finished_at r)) (scan_runs sc ?fs))) = mset (map r_id ?fs)"
    using assms(2) by (simp add: scans_ok_def del: mset_filter)
  moreover have "distinct (map r_id ?fs)"
    using assms(1) by (simp add: wf_db_def unique_key_def distinct_map_filter)
  ultimately show d: "distinct ?ids"
    unfolding select_prune_def take_map [symmetric]
    by (intro distinct_take) (metis mset_eq_imp_distinct_iff)
  have uniq: "unique_key r_id (db_runs db)" using assms(1) by (simp add: wf_db_def)
  have "set ?ids \<subseteq> r_id ` set (db_runs db)"
    using select_prune_props(1) [OF assms] by blast
  then have "set ?ids = {k. \<exists>r. sql_lookup r_id k (db_runs db) = Some r \<and> r_id r \<in> set ?ids}"
    by (auto simp: sql_lookup_iff [OF uniq])
  then have "card (set ?ids) = sql_count (\<lambda>r. r_id r \<in> set ?ids) (db_runs db)"
    unfolding sql_count_card [OF uniq] by (rule arg_cong [where f = card])
  then show "length ?ids = sql_count (\<lambda>r. r_id r \<in> set ?ids) (db_runs db)"
    using distinct_card [OF d] by simp
qed

lemma delete_False: "sql_delete (\<lambda>_. False) t = t"
  by (simp add: sql_delete_def)

lemma sim_prune:
  assumes "wf_db (app_db app db)" "scans_ok sc"
  shows "sim app (pg_prune_finished_before app sc cutoff limit db)
    (sqlite_prune_finished_before sc cutoff limit (app_db app db))"
proof -
  let ?ids = "select_prune sc cutoff (unat limit) (prj app (pg_runs db))"
  have ids: "map r_id (take (unat limit) (sort_key (\<lambda>r. the (r_finished_at r))
      (scan_runs sc (pg_select app (prunable cutoff) (pg_runs db))))) = ?ids"
    by (simp add: select_prune_def prj_simps)
  note len = select_prune_distinct(2) [OF assms, of cutoff "unat limit", unfolded app_db_sel]
  show ?thesis
  proof (cases "?ids = []")
    case True
    then show ?thesis
      unfolding sim_def pg_prune_finished_before_def sqlite_prune_finished_before_def ids Let_def
      by (simp add: sql_count_def delete_False)
  next
    case False
    then show ?thesis
      unfolding sim_def pg_prune_finished_before_def sqlite_prune_finished_before_def ids Let_def
      using len by (auto simp: prj_simps intro!: runs_db_eqI)
  qed
qed

lemma pg_signal_one_sim:
  assumes wf: "wf_db (app_db app db)" and x: "x \<in> set (prj app (pg_waiters db))" "w_event_name x = ev"
    and res: "pg_signal_one app ev js now x (k, db) = (k', db')"
  shows "k' = k + 1" "app_db app db' = sqlite_signal_one js now x (app_db app db)"
    "others_kept app db db'"
proof -
  let ?mine = "\<lambda>y. w_run_id y = w_run_id x \<and> w_step_name y = w_step_name x \<and> w_event_name y = ev"
  have uniq: "unique_key w_run_id (prj app (pg_waiters db))" using wf by (simp add: wf_db_def)
  have same: "y = x" if "y \<in> set (prj app (pg_waiters db))" "w_run_id y = w_run_id x" for y
    using unique_keyD [OF uniq that(1) x(1) that(2)] .
  have "sql_count ?mine (prj app (pg_waiters db)) \<noteq> 0"
    using x by (auto simp: sql_count_zero)
  moreover have "sql_delete ?mine (prj app (pg_waiters db)) =
      sql_delete (\<lambda>y. w_run_id y = w_run_id x \<and> w_step_name y = w_step_name x) (prj app (pg_waiters db))"
    unfolding sql_delete_def using same x(2) by (intro filter_cong) auto
  ultimately show "k' = k + 1" "app_db app db' = sqlite_signal_one js now x (app_db app db)"
      "others_kept app db db'"
    using res
    by (auto simp: pg_signal_one_def sqlite_signal_one_def prj_simps Let_def others_kept_def
        intro!: runs_db_eqI)
qed

lemma pg_signal_fold_sim:
  assumes "wf_db (app_db app db)" "distinct (map w_run_id xs)" "set xs \<subseteq> set (prj app (pg_waiters db))"
    and "\<And>x. x \<in> set xs \<Longrightarrow> w_event_name x = ev"
    and "fold (pg_signal_one app ev js now) xs (k, db) = (k', db')"
  shows "k' = k + length xs \<and> app_db app db' = fold (sqlite_signal_one js now) xs (app_db app db)
    \<and> others_kept app db db'"
  using assms
proof (induction xs arbitrary: k db)
  case (Cons x xs)
  obtain k1 db1 where one: "pg_signal_one app ev js now x (k, db) = (k1, db1)"
    by (cases "pg_signal_one app ev js now x (k, db)")
  have x: "x \<in> set (prj app (pg_waiters db))" "w_event_name x = ev" using Cons.prems by auto
  note s = pg_signal_one_sim [OF Cons.prems(1) x one]
  note w = signal_one_run [OF Cons.prems(1), of x js now, unfolded app_db_sel, OF x(1)]
  have "set xs \<subseteq> set (prj app (pg_waiters db1))"
    using Cons.prems(2,3) w(3) unfolding s(2) [symmetric] by (force simp: image_iff)
  then have "k' = k1 + length xs \<and> app_db app db' = fold (sqlite_signal_one js now) xs (app_db app db1)
      \<and> others_kept app db1 db'"
    using Cons.prems(2,4,5) one w(2) unfolding s(2) [symmetric] by (intro Cons.IH) auto
  then show ?case using s others_kept_trans by auto
qed simp

lemma sim_signal:
  assumes wf: "wf_db (app_db app db)" and sc: "scans_ok sc"
  shows "sim app (pg_signal app c sc now ev payload db) (sqlite_signal c sc now ev payload (app_db app db))
    \<and> others_kept app db (snd (pg_signal app c sc now ev payload db))"
proof (cases "to_string c payload")
  case None
  then show ?thesis by (simp add: sim_def pg_signal_def sqlite_signal_def)
next
  case (Some js)
  let ?xs = "scan_waiters sc (filter (\<lambda>x. w_event_name x = ev) (prj app (pg_waiters db)))"
  obtain k' db' where f: "fold (pg_signal_one app ev js now) ?xs (0, db) = (k', db')"
    by (cases "fold (pg_signal_one app ev js now) ?xs (0, db)")
  have d: "distinct (map w_run_id ?xs)"
    using wf sc by (simp add: scans_distinct wf_db_def unique_key_def distinct_map_filter)
  have sub: "set ?xs \<subseteq> set (prj app (pg_waiters db))" and ev: "x \<in> set ?xs \<Longrightarrow> w_event_name x = ev" for x
    using sc by auto
  have "k' = length ?xs \<and> app_db app db' = fold (sqlite_signal_one js now) ?xs (app_db app db)
      \<and> others_kept app db db'"
    using pg_signal_fold_sim [OF wf d sub ev f] by simp
  then show ?thesis
    using Some f by (simp add: sim_def pg_signal_def sqlite_signal_def prj_simps Let_def)
qed

section \<open>The Postgres store is a workflow store for each of its apps\<close>

text \<open>The one request the two stores refuse with different errors.\<close>

definition fails_undated :: "'j store_op \<Rightarrow> bool" where
  "fails_undated op = (case op of Op_fail _ _ _ None False \<Rightarrow> True | _ \<Rightarrow> False)"

lemma sim_lift: "sim app p q \<Longrightarrow> sim app (lift_ok f p) (lift_ok f q)"
  by (auto simp: sim_def lift_ok_def split: sum.splits)

lemma sim_fail:
  "finalize \<or> next_at \<noteq> None \<Longrightarrow>
     sim app (pg_fail app now rid w err next_at finalize db)
       (sqlite_fail now rid w err next_at finalize (app_db app db))"
  by (auto simp: pg_fail_def sqlite_fail_def sim_update_running split: option.splits)

lemmas sim_all = sim_enqueue sim_claim sim_heartbeat sim_complete sim_cancel sim_defer sim_reclaim
  sim_set_schedule sim_replace_schedules

lemma pg_exec_sim:
  assumes "wf_db (app_db app db)" "scans_ok sc" "\<not> fails_undated op"
  shows "sim app (pg_exec app c sc now fresh op db) (sqlite_exec c sc now fresh op (app_db app db))"
  using assms
  by (cases op)
     (auto simp: fails_undated_def sim_all sim_signal intro!: sim_lift sim_save_step
       sim_reclaim_with_workers sim_wait sim_prune sim_fail split: option.splits bool.splits)

lemma snd_lift_ok_eq [simp]: "snd (lift_ok f p) = snd p"
  by (simp add: lift_ok_def split: sum.splits)

lemma pg_exec_others:
  assumes "wf_db (app_db app db)" "scans_ok sc"
  shows "others_kept app db (snd (pg_exec app c sc now fresh op db))"
proof (cases op)
  case (Op_enqueue name payload opts)
  then show ?thesis
    by (auto simp: pg_enqueue_def others_kept_def prj_simps Let_def intro!: runs_db_eqI
        split: option.splits sum.splits)
next
  case (Op_claim w names lease)
  then show ?thesis
    by (auto simp: pg_claim_def others_kept_def prj_simps Let_def intro!: runs_db_eqI
        split: option.splits)
next
  case (Op_save_step rid w n result)
  then show ?thesis
    by (auto simp: pg_save_step_def others_kept_def prj_simps intro!: runs_db_eqI split: option.splits)
next
  case (Op_fail rid w err next_at fin)
  then show ?thesis
    by (auto simp: pg_fail_def others_update_running split: option.splits)
next
  case (Op_prune cutoff limit)
  then show ?thesis
    by (auto simp: pg_prune_finished_before_def others_kept_def prj_simps Let_def intro!: runs_db_eqI)
next
  case (Op_wait_for_event rid w n ev t)
  then show ?thesis
    by (auto simp: pg_wait_for_event_def update_running_def others_kept_def prj_simps Let_def
        intro!: runs_db_eqI)
next
  case (Op_signal ev payload)
  then show ?thesis using sim_signal [OF assms, of c now ev payload] by simp
next
  case (Op_replace_schedules specs)
  then show ?thesis
    by (auto simp: pg_replace_schedules_def others_kept_def prj_fold_put prj_delete Let_def
        intro!: runs_db_eqI)
qed (auto simp: pg_heartbeat_def pg_complete_def pg_cancel_def pg_defer_def others_update_running Let_def
    pg_reclaim_expired_def pg_reclaim_expired_with_workers_def pg_set_schedule_last_run_at_def
    others_kept_def prj_simps update_running_def intro!: runs_db_eqI)

lemma pg_exec_implements:
  assumes wf: "wf_db (app_db app db)" and sc: "scans_ok sc" and now: "now < i64_max"
    and exq: "pg_exec app c sc now fresh op db = (resp, db')"
  shows "astep c now fresh op (sqlite_view (app_db app db)) resp (sqlite_view (app_db app db'))
    \<and> wf_db (app_db app db')"
proof (cases "fails_undated op")
  case True
  then obtain rid w err where "op = Op_fail rid w err None False"
    by (auto simp: fails_undated_def split: store_op.splits option.splits bool.splits)
  then show ?thesis using exq wf by (auto simp: pg_fail_def)
next
  case False
  have "sqlite_exec c sc now fresh op (app_db app db) = (resp, app_db app db')"
    using pg_exec_sim [OF wf sc False, of c now fresh] exq by (auto simp: sim_def prod_eq_iff)
  then show ?thesis by (rule sqlite_exec_implements [OF wf sc now])
qed

definition pg_view :: "string \<Rightarrow> pg_db \<Rightarrow> astate" where
  "pg_view app db = sqlite_view (app_db app db)"

definition pg_inv :: "string \<Rightarrow> scans \<Rightarrow> pg_db \<Rightarrow> bool" where
  "pg_inv app sc db = (scans_ok sc \<and> wf_db (app_db app db))"

interpretation postgres: run_store c "pg_exec app c sc" "pg_view app" "pg_inv app sc" "\<lambda>_. True"
  for c app sc
  by unfold_locales (auto simp: pg_inv_def pg_view_def contract_def dest: pg_exec_implements)

end
