(* ===== verification/Runs_Db.thy ===== *)
theory Runs_Db
  imports Workflow_Postgres_Refine
begin

text \<open>
  The workflow store as the rest of the server sees it (\<^verbatim>\<open>RunsDb\<close> of
  \<^verbatim>\<open>tako-workflows/src/enqueue.rs\<close>): one of the two backends behind a dispatch, with the
  check of caller-supplied run ids in front.  The properties of the store are stated here for
  both backends at once, over the rows they hold.
\<close>

section \<open>Dispatch\<close>

datatype runs_backend = Sqlite runs_db | Postgres string pg_db

definition valid_id :: "string \<Rightarrow> bool" where
  "valid_id i = (\<not> (i = [] \<or> length i > 255 \<or> CHR 0x00 \<in> set i))"

definition op_accepts :: "'j store_op \<Rightarrow> bool" where
  "op_accepts op = (case op of
     Op_enqueue _ _ opts \<Rightarrow> (case o_id opts of Some i \<Rightarrow> valid_id i | None \<Rightarrow> True)
   | _ \<Rightarrow> True)"

definition backend_exec ::
    "'j codec \<Rightarrow> scans \<Rightarrow> int \<Rightarrow> string \<Rightarrow> 'j store_op \<Rightarrow> runs_backend \<Rightarrow> 'j store_resp \<times> runs_backend" where
  "backend_exec c sc now fresh op b = (case b of
     Sqlite db \<Rightarrow> apsnd Sqlite (sqlite_exec c sc now fresh op db)
   | Postgres app db \<Rightarrow> apsnd (Postgres app) (pg_exec app c sc now fresh op db))"

definition runs_exec ::
    "'j codec \<Rightarrow> scans \<Rightarrow> int \<Rightarrow> string \<Rightarrow> 'j store_op \<Rightarrow> runs_backend \<Rightarrow> 'j store_resp \<times> runs_backend" where
  "runs_exec c sc now fresh op b =
     (if op_accepts op then backend_exec c sc now fresh op b else (Inl InvalidId, b))"

definition runs_pending_count :: "runs_backend \<Rightarrow> nat" where
  "runs_pending_count b = (case b of
     Sqlite db \<Rightarrow> sqlite_pending_count db | Postgres app db \<Rightarrow> pg_pending_count app db)"

definition runs_has_runnable_work :: "int \<Rightarrow> runs_backend \<Rightarrow> bool" where
  "runs_has_runnable_work now b = (case b of
     Sqlite db \<Rightarrow> sqlite_has_runnable_work now db | Postgres app db \<Rightarrow> pg_has_runnable_work app now db)"

definition runs_list_schedules :: "scans \<Rightarrow> runs_backend \<Rightarrow> schedule_row list" where
  "runs_list_schedules sc b = (case b of
     Sqlite db \<Rightarrow> sqlite_list_schedules sc db | Postgres app db \<Rightarrow> pg_list_schedules app sc db)"

definition runs_in_flight_by_worker :: "runs_backend \<Rightarrow> (string \<times> 32 word) list" where
  "runs_in_flight_by_worker b = (case b of
     Sqlite db \<Rightarrow> sqlite_in_flight_by_worker db | Postgres app db \<Rightarrow> pg_in_flight_by_worker app db)"

section \<open>The rows a backend holds for its app\<close>

definition rows_of :: "runs_backend \<Rightarrow> runs_db" where
  "rows_of b = (case b of Sqlite db \<Rightarrow> db | Postgres app db \<Rightarrow> app_db app db)"

definition stored_run :: "runs_backend \<Rightarrow> string \<Rightarrow> run_row option" where
  "stored_run b rid = sql_lookup r_id rid (db_runs (rows_of b))"

definition stored_step :: "runs_backend \<Rightarrow> string \<Rightarrow> string \<Rightarrow> string option" where
  "stored_step b rid n = map_option st_result (sql_lookup st_key (rid, n) (db_steps (rows_of b)))"

definition stored_waiter :: "runs_backend \<Rightarrow> string \<Rightarrow> waiter_row option" where
  "stored_waiter b rid = sql_lookup w_run_id rid (db_waiters (rows_of b))"

definition runs_view :: "runs_backend \<Rightarrow> astate" where
  "runs_view b = sqlite_view (rows_of b)"

definition runs_inv :: "scans \<Rightarrow> runs_backend \<Rightarrow> bool" where
  "runs_inv sc b = (scans_ok sc \<and> wf_db (rows_of b))"

lemma runs_exec_implements:
  assumes inv: "runs_inv sc b" and now: "now < i64_max" and exq: "runs_exec c sc now fresh op b = (resp, b')"
  shows "contract op_accepts c now fresh op (runs_view b) resp (runs_view b') \<and> runs_inv sc b'"
proof (cases "op_accepts op")
  case False
  then show ?thesis using inv exq by (auto simp: runs_exec_def contract_def)
next
  case True
  show ?thesis
  proof (cases b)
    case (Sqlite db)
    then obtain db' where "sqlite_exec c sc now fresh op db = (resp, db')" "b' = Sqlite db'"
      using exq True by (cases "sqlite_exec c sc now fresh op db") (auto simp: runs_exec_def backend_exec_def)
    then show ?thesis
      using inv Sqlite True sqlite_exec_implements [OF _ _ now, of db sc c fresh op resp db']
      by (auto simp: runs_inv_def runs_view_def rows_of_def contract_def)
  next
    case (Postgres app db)
    then obtain db' where "pg_exec app c sc now fresh op db = (resp, db')" "b' = Postgres app db'"
      using exq True by (cases "pg_exec app c sc now fresh op db") (auto simp: runs_exec_def backend_exec_def)
    then show ?thesis
      using inv Postgres True pg_exec_implements [OF _ _ now, of app db sc c fresh op resp db']
      by (auto simp: runs_inv_def runs_view_def rows_of_def contract_def)
  qed
qed

interpretation runs: run_store c "runs_exec c sc" runs_view "runs_inv sc" op_accepts for c sc
  by unfold_locales (auto dest: runs_exec_implements)

section \<open>From the view to the rows\<close>

lemma view_stored_run:
  "as_runs (runs_view b) rid = map_option (abs_run (rows_of b)) (stored_run b rid)"
  by (simp add: runs_view_def sqlite_view_def stored_run_def)

lemma stored_run_id: "stored_run b rid = Some r \<Longrightarrow> r_id r = rid"
  by (auto simp: stored_run_def dest: sql_lookup_key)

lemma stored_run_ok: "runs_inv sc b \<Longrightarrow> stored_run b rid = Some r \<Longrightarrow> row_ok r"
  by (auto simp: runs_inv_def stored_run_def dest: wf_lookup_ok)

lemma view_steps:
  "as_runs (runs_view b) rid = Some r \<Longrightarrow> a_steps r n = stored_step b rid n"
  using stored_run_id by (auto simp: view_stored_run abs_run_def stored_step_def)

lemma view_of_stored:
  "stored_run b rid = Some r \<Longrightarrow> as_runs (runs_view b) rid = Some (abs_run (rows_of b) r)"
  by (simp add: view_stored_run)

text \<open>The rows of a well-formed store can be read off its abstraction.\<close>

definition row_of :: "string \<Rightarrow> arun \<Rightarrow> run_row" where
  "row_of rid r =
     \<lparr>r_id = rid, r_name = a_name r, r_payload = a_payload r,
      r_status = (case a_phase r of Held _ _ \<Rightarrow> Running | Ended st _ \<Rightarrow> st | _ \<Rightarrow> Pending),
      r_attempts = a_attempts r, r_max_attempts = a_max_attempts r, r_run_at = a_run_at r,
      r_lease_until = (case a_phase r of Held _ l \<Rightarrow> Some l | _ \<Rightarrow> None),
      r_worker_id = (case a_phase r of Held w _ \<Rightarrow> Some w | _ \<Rightarrow> None),
      r_last_error = a_error r, r_created_at = a_created r,
      r_finished_at = (case a_phase r of Ended _ t \<Rightarrow> Some t | _ \<Rightarrow> None)\<rparr>"

definition waiter_of :: "string \<Rightarrow> arun \<Rightarrow> waiter_row option" where
  "waiter_of rid r = (case a_phase r of
     Parked n e t \<Rightarrow> Some \<lparr>w_run_id = rid, w_step_name = n, w_event_name = e, w_expires_at = t\<rparr>
   | _ \<Rightarrow> None)"

lemma row_of_abs: "row_ok r \<Longrightarrow> row_of (r_id r) (abs_run db r) = r"
  by (cases "r_status r")
     (auto simp: row_of_def abs_run_def abs_phase_def row_ok_def terminal_def split: option.split)

lemma stored_run_view:
  assumes "runs_inv sc b"
  shows "stored_run b rid = map_option (row_of rid) (as_runs (runs_view b) rid)"
proof (cases "stored_run b rid")
  case (Some r)
  then show ?thesis
    using row_of_abs [OF stored_run_ok [OF assms Some], of "rows_of b"] stored_run_id [OF Some]
    by (simp add: view_stored_run)
qed (simp add: view_stored_run)

lemma stored_waiter_view:
  assumes "runs_inv sc b"
  shows "stored_waiter b rid = Option.bind (as_runs (runs_view b) rid) (waiter_of rid)"
proof (cases "stored_run b rid")
  case None
  then show ?thesis
    using wf_no_orphans(1) [of "rows_of b" rid] assms
    by (simp add: stored_waiter_def stored_run_def runs_inv_def view_stored_run)
next
  case (Some r)
  show ?thesis
  proof (cases "r_status r = Pending")
    case True
    then show ?thesis
      using Some stored_run_id [OF Some]
      by (auto simp: stored_waiter_def view_stored_run waiter_of_def abs_run_def abs_phase_def
          split: option.splits dest: sql_lookup_key)
  next
    case False
    then show ?thesis
      using Some wf_no_waiter [of "rows_of b" rid r] assms
      by (auto simp: stored_waiter_def stored_run_def runs_inv_def view_stored_run waiter_of_def abs_run_def
          abs_phase_def split: run_status.splits)
  qed
qed

lemma stored_step_view:
  assumes "runs_inv sc b"
  shows "stored_step b rid n = Option.bind (as_runs (runs_view b) rid) (\<lambda>r. a_steps r n)"
proof (cases "stored_run b rid")
  case None
  then show ?thesis
    using wf_no_orphans(2) [of "rows_of b" rid n] assms
    by (simp add: stored_step_def stored_run_def runs_inv_def view_stored_run)
next
  case (Some r)
  then show ?thesis
    using view_steps [OF view_of_stored [OF Some]] by (simp add: view_stored_run)
qed

lemmas stored_views = stored_run_view stored_waiter_view stored_step_view

lemma a_phase_abs:
  assumes "row_ok r"
  shows "terminal (r_status r) \<Longrightarrow> a_phase (abs_run db r) = Ended (r_status r) (the (r_finished_at r))"
    and "r_status r = Running \<Longrightarrow> r_worker_id r = Some w \<Longrightarrow> r_lease_until r = Some l \<Longrightarrow>
      a_phase (abs_run db r) = Held w l"
  by (auto simp: abs_run_def abs_phase_def terminal_def)

lemma a_owns_stored:
  assumes "runs_inv sc b"
  shows "a_owns rid w (runs_view b) \<longleftrightarrow> (\<exists>r. stored_run b rid = Some r \<and> owned_by rid w r)"
proof -
  have wf: "wf_db (rows_of b)" using assms by (simp add: runs_inv_def)
  have "a_owns rid w (runs_view b) \<longleftrightarrow> sql_count (owned_by rid w) (db_runs (rows_of b)) \<noteq> 0"
    unfolding runs_view_def by (rule owned_iff [OF wf])
  also have "\<dots> \<longleftrightarrow> (\<exists>r. stored_run b rid = Some r \<and> owned_by rid w r)"
    using wf by (auto simp: sql_count_zero stored_run_def wf_db_def sql_lookup_iff owned_by_def)
  finally show ?thesis .
qed

section \<open>What a claim does to the rows\<close>

lemma claim_effect:
  assumes inv: "runs_inv sc b" and now: "now < i64_max"
    and exq: "runs_exec c sc now fresh (Op_claim w names lease) b = (resp, b')"
  shows "(if \<exists>rid r. stored_run b rid = Some r \<and> claimable now names r
     then \<exists>rid r p. stored_run b rid = Some r \<and> claimable now names r
       \<and> (\<forall>rid' r'. stored_run b rid' = Some r' \<longrightarrow> claimable now names r' \<longrightarrow> r_run_at r \<le> r_run_at r')
       \<and> resp = Inr (Ok_claimed (Some p)) \<and> rp_id p = rid \<and> rp_payload p = json_or_null c (r_payload r)
       \<and> rp_attempts p = word_of_int (r_attempts r + 1)
       \<and> stored_run b' rid = Some (set_running w (i64_sat_add now (clamp_lease_ms lease)) r)
       \<and> (\<forall>i. i \<noteq> rid \<longrightarrow> stored_run b' i = stored_run b i)
     else resp = Inr (Ok_claimed None) \<and> stored_run b' = stored_run b)"
proof -
  let ?l = "i64_sat_add now (clamp_lease_ms lease)"
  let ?v = "abs_run (rows_of b)"
  have ct: "contract op_accepts c now fresh (Op_claim w names lease) (runs_view b) resp (runs_view b')"
    and inv': "runs_inv sc b'" using runs_exec_implements [OF inv now exq] by blast+
  have due: "rid \<in> a_ids (a_due now names) (runs_view b) \<longleftrightarrow>
      (\<exists>r. stored_run b rid = Some r \<and> claimable now names r)" for rid
    by (auto simp: a_ids_def view_stored_run a_due_abs)
  show ?thesis
  proof (cases "\<exists>rid r. stored_run b rid = Some r \<and> claimable now names r")
    case False
    then have "a_ids (a_due now names) (runs_view b) = {}" using due by blast
    then have "resp = Inr (Ok_claimed None)" "runs_view b' = runs_view b"
      using ct by (simp_all add: contract_def op_accepts_def)
    then show ?thesis
      using False stored_run_view [OF inv] stored_run_view [OF inv'] by (simp add: fun_eq_iff)
  next
    case True
    then have ne: "a_ids (a_due now names) (runs_view b) \<noteq> {}" using due by blast
    from ct obtain rid ar p where ar: "as_runs (runs_view b) rid = Some ar" "a_due now names ar"
        and least: "\<forall>rid' r'. as_runs (runs_view b) rid' = Some r' \<longrightarrow> a_due now names r'
           \<longrightarrow> a_run_at ar \<le> a_run_at r'"
        and p: "a_payload_of c w rid (a_claim w ?l ar) p" "resp = Inr (Ok_claimed (Some p))"
        and v': "runs_view b' = (runs_view b)\<lparr>as_runs := (as_runs (runs_view b))(rid \<mapsto> a_claim w ?l ar)\<rparr>"
      unfolding contract_def op_accepts_def astep.simps if_not_P [OF ne] by auto
    obtain r where r: "stored_run b rid = Some r" "ar = ?v r" using ar(1) by (auto simp: view_stored_run)
    have cl: "claimable now names r" using ar(2) r(2) by (simp add: a_due_abs)
    have le: "r_run_at r \<le> r_run_at r'" if "stored_run b rid' = Some r'" "claimable now names r'" for rid' r'
      using least [rule_format, OF view_of_stored [OF that(1)]] that(2) r(2) by (simp add: a_due_abs)
    have "as_runs (runs_view b') rid = Some (a_claim w ?l ar)" using v' by simp
    then have "stored_run b' rid = Some (row_of rid (a_claim w ?l (?v r)))"
      using stored_run_view [OF inv'] r(2) by simp
    moreover have "row_of rid (a_claim w ?l (?v r)) = set_running w ?l r"
      using stored_run_ok [OF inv r(1)] cl stored_run_id [OF r(1)]
      by (cases "?v r"; cases r)
         (auto simp: row_of_def a_claim_def put_step_def abs_run_def set_running_def claimable_def
           row_ok_def terminal_def split: phase.splits)
    ultimately have "stored_run b' rid = Some (set_running w ?l r)" by simp
    moreover have "stored_run b' i = stored_run b i" if "i \<noteq> rid" for i
      using that v' stored_run_view [OF inv] stored_run_view [OF inv'] by simp
    ultimately show ?thesis
      using True r cl le p
      by (auto intro!: exI [of _ rid] exI [of _ r] exI [of _ p] simp: a_payload_of_def abs_run_def a_claim_def
        split: phase.splits)
  qed
qed

section \<open>Instances for the witnesses\<close>

definition text_codec :: "string codec" where
  "text_codec = \<lparr>to_string = Some, from_str = Some, json_null = ''null''\<rparr>"

definition id_scans :: scans where
  "id_scans = \<lparr>scan_runs = (\<lambda>x. x), scan_steps = (\<lambda>x. x), scan_waiters = (\<lambda>x. x), scan_schedules = (\<lambda>x. x)\<rparr>"

definition opts_with_id :: "string \<Rightarrow> enqueue_opts" where
  "opts_with_id i = \<lparr>o_run_at_ms = None, o_max_attempts = None, o_id = Some i\<rparr>"

lemma id_scans_ok: "scans_ok id_scans"
  by (simp add: scans_ok_def id_scans_def)

lemma empty_inv: "runs_inv id_scans (Sqlite empty_db)"
  by (simp add: runs_inv_def rows_of_def wf_empty_db id_scans_ok)

definition empty_pg :: pg_db where
  "empty_pg = \<lparr>pg_runs = [], pg_steps = [], pg_waiters = [], pg_schedules = []\<rparr>"

lemma app_db_empty_pg: "app_db app empty_pg = empty_db"
  by (simp add: app_db_def empty_pg_def empty_db_def)

text \<open>A run that was enqueued, claimed by worker \<open>w\<close> and has saved a step.\<close>

definition ex_ops :: "string trace" where
  "ex_ops =
     [(1, ''f'', Op_enqueue ''mail'' ''p'' (opts_with_id ''r1'')),
      (2, ''f'', Op_claim ''w'' [''mail''] 100),
      (3, ''f'', Op_save_step ''r1'' ''w'' ''a'' ''x'')]"

definition ex_store :: "runs_backend" where
  "ex_store = run_ops (runs_exec text_codec id_scans) ex_ops (Sqlite empty_db)"

lemma run_ops_inv: "clock_ok ops \<Longrightarrow> runs_inv sc b \<Longrightarrow> runs_inv sc (run_ops (runs_exec c sc) ops b)"
  by (rule runs.run_inv)

lemma ex_store_inv: "runs_inv id_scans ex_store"
proof -
  have "clock_ok ex_ops" by code_simp
  then show ?thesis unfolding ex_store_def using empty_inv by (rule run_ops_inv)
qed

definition ex_row :: run_row where
  "ex_row = \<lparr>r_id = ''r1'', r_name = ''mail'', r_payload = ''p'', r_status = Running, r_attempts = 1,
     r_max_attempts = 3, r_run_at = 1, r_lease_until = Some 102, r_worker_id = Some ''w'',
     r_last_error = None, r_created_at = 1, r_finished_at = None\<rparr>"

lemma ex_store_run: "stored_run ex_store ''r1'' = Some ex_row"
  by code_simp

section \<open>Properties of the workflow store\<close>

text \<open>C1. A step result is written once and for good.  Once a run has a result for a step, no
  sequence of store operations by any workers, signals, failures, lease reclaims and claims
  (short of pruning finished runs) changes or loses it, and every later claim of the run delivers
  exactly that result in its step state.\<close>

theorem step_results_write_once:
  assumes inv: "runs_inv sc b" and saved: "stored_run b rid \<noteq> None" "stored_step b rid n = Some js"
    and ops: "clock_ok ops" "no_prune ops"
    and b': "b' = run_ops (runs_exec c sc) ops b"
  shows "stored_step b' rid n = Some js
    \<and> (\<forall>now fresh w names lease p b''. now < i64_max \<longrightarrow>
         runs_exec c sc now fresh (Op_claim w names lease) b' = (Inr (Ok_claimed (Some p)), b'') \<longrightarrow>
         rp_id p = rid \<longrightarrow> map_of (rp_step_state p) n = Some (json_or_null c js))"
proof -
  obtain r where r: "as_runs (runs_view b) rid = Some r" "a_steps r n = Some js"
    using saved view_of_stored view_steps by (metis option.exhaust)
  then obtain r' where r': "as_runs (runs_view b') rid = Some r'" "a_extends r r'"
    using runs.run_extends [OF inv ops, of rid r] b' by blast
  have step: "a_steps r' n = Some js"
    using r(2) r'(2) by (auto simp: a_extends_def map_le_def dom_def)
  have inv': "runs_inv sc b'" using runs.run_inv [OF inv ops(1)] b' by simp
  have "map_of (rp_step_state p) n = Some (json_or_null c js)"
    if now: "now < i64_max" and cl: "runs_exec c sc now fresh (Op_claim w names lease) b' = (Inr (Ok_claimed (Some p)), b'')"
      and rid: "rp_id p = rid" for now fresh w names lease p b''
  proof -
    have "contract op_accepts c now fresh (Op_claim w names lease) (runs_view b') (Inr (Ok_claimed (Some p)))
        (runs_view b'')"
      using runs_exec_implements [OF inv' now cl] by blast
    then obtain l where "a_payload_of c w rid (a_claim w l r') p"
      using r'(1) rid by (auto simp: contract_def op_accepts_def a_payload_of_def split: if_splits)
    moreover have "a_steps (a_claim w l r') n = Some js"
      using a_extends_claim [of r' w l] step by (auto simp: a_extends_def map_le_def dom_def)
    ultimately show ?thesis by (simp add: a_payload_of_def)
  qed
  then show ?thesis using view_steps [OF r'(1)] step by auto
qed

theorem step_results_write_once_witness:
  "stored_step (run_ops (runs_exec text_codec id_scans)
       [(50, ''f'', Op_save_step ''r1'' ''w'' ''a'' ''y''), (200, ''f'', Op_reclaim),
        (201, ''f'', Op_claim ''v'' [''mail''] 10)] ex_store) ''r1'' ''a'' = Some ''x''"
proof -
  let ?ops = "[(50, ''f'', Op_save_step ''r1'' ''w'' ''a'' ''y''), (200, ''f'', Op_reclaim),
        (201, ''f'', Op_claim ''v'' [''mail''] 10)] :: string trace"
  have "stored_run ex_store ''r1'' \<noteq> None" "stored_step ex_store ''r1'' ''a'' = Some ''x''"
      "clock_ok ?ops" "no_prune ?ops"
    by code_simp+
  from step_results_write_once [OF ex_store_inv this refl, of text_codec] show ?thesis by blast
qed

text \<open>C9. A finished run never changes.  Once a run has succeeded, been cancelled or died, every
  store operation but pruning leaves its row as it is.\<close>

theorem finished_runs_frozen:
  assumes "runs_inv sc b" "stored_run b rid = Some r" "terminal (r_status r)"
    and "clock_ok ops" "no_prune ops"
  shows "stored_run (run_ops (runs_exec c sc) ops b) rid = Some r"
proof -
  have "as_runs (runs_view (run_ops (runs_exec c sc) ops b)) rid = as_runs (runs_view b) rid"
    using runs.run_ended [OF assms(1,4,5) view_of_stored [OF assms(2)]
        a_phase_abs(1) [OF stored_run_ok [OF assms(1,2)] assms(3)]] view_of_stored [OF assms(2)] by simp
  then show ?thesis
    using assms(2) stored_run_view [OF assms(1)] stored_run_view [OF runs.run_inv [OF assms(1,4)]] by simp
qed

theorem finished_runs_frozen_witness:
  "let b = run_ops (runs_exec text_codec id_scans) [(5, ''f'', Op_complete ''r1'' ''w'')] ex_store;
       r = ex_row\<lparr>r_status := Succeeded, r_worker_id := None, r_lease_until := None, r_finished_at := Some 5\<rparr>
   in stored_run (run_ops (runs_exec text_codec id_scans)
        [(6, ''f'', Op_cancel ''r1'' ''w'' None), (900, ''f'', Op_claim ''v'' [''mail''] 10)] b) ''r1'' = Some r"
proof -
  let ?b = "run_ops (runs_exec text_codec id_scans) [(5, ''f'', Op_complete ''r1'' ''w'')] ex_store"
  let ?r = "ex_row\<lparr>r_status := Succeeded, r_worker_id := None, r_lease_until := None, r_finished_at := Some 5\<rparr>"
  let ?ops = "[(6, ''f'', Op_cancel ''r1'' ''w'' None), (900, ''f'', Op_claim ''v'' [''mail''] 10)] :: string trace"
  have "clock_ok [(5, ''f'', Op_complete ''r1'' ''w'')]" by code_simp
  then have inv: "runs_inv id_scans ?b" using ex_store_inv by (rule run_ops_inv)
  have "stored_run ?b ''r1'' = Some ?r" "terminal (r_status ?r)" "clock_ok ?ops" "no_prune ?ops"
    by code_simp+
  from finished_runs_frozen [OF inv this, of text_codec] show ?thesis by (simp add: Let_def)
qed

text \<open>C2. A lease is exclusive.  While a worker's lease on a run lasts, whatever all the others
  do (claims, signals, heartbeats, failures and reclaims at times up to the end of the lease) the run
  stays running, owned by that worker, its row unchanged; so no second worker is handed the run.\<close>

theorem lease_exclusive:
  assumes "runs_inv sc b" "stored_run b rid = Some r"
    and "r_status r = Running" "r_worker_id r = Some w" "r_lease_until r = Some lease"
    and "clock_ok ops" "no_prune ops" "within_lease lease rid w ops"
  shows "stored_run (run_ops (runs_exec c sc) ops b) rid = Some r"
proof -
  have "as_runs (runs_view (run_ops (runs_exec c sc) ops b)) rid = as_runs (runs_view b) rid"
    using runs.run_lease [OF assms(1,6-8) view_of_stored [OF assms(2)]
        a_phase_abs(2) [OF stored_run_ok [OF assms(1,2)] assms(3-5)]] view_of_stored [OF assms(2)] by simp
  then show ?thesis
    using assms(2) stored_run_view [OF assms(1)] stored_run_view [OF runs.run_inv [OF assms(1,6)]] by simp
qed

theorem lease_exclusive_witness:
  "stored_run (run_ops (runs_exec text_codec id_scans)
     [(50, ''f'', Op_claim ''v'' [''mail''] 10), (102, ''f'', Op_reclaim), (102, ''f'', Op_complete ''r1'' ''v'')]
     ex_store) ''r1'' = Some ex_row"
proof -
  let ?ops = "[(50, ''f'', Op_claim ''v'' [''mail''] 10), (102, ''f'', Op_reclaim),
     (102, ''f'', Op_complete ''r1'' ''v'')] :: string trace"
  have "r_status ex_row = Running" "r_worker_id ex_row = Some ''w''" "r_lease_until ex_row = Some 102"
      "clock_ok ?ops" "no_prune ?ops" "within_lease 102 ''r1'' ''w'' ?ops"
    by code_simp+
  from lease_exclusive [OF ex_store_inv ex_store_run this] show ?thesis .
qed

text \<open>C8. A worker that does not own a run cannot touch it: a heartbeat, a saved step, a completion,
  cancellation, failure, deferral or event wait by a worker whose lease was taken over or whose run
  has ended is refused with an error, and the store is exactly what it was.\<close>

theorem stale_worker_rejected:
  assumes inv: "runs_inv sc b" and now: "now < i64_max" and op: "owner_of_op op = Some (rid, w)"
    and stale: "\<And>r. stored_run b rid = Some r \<Longrightarrow> \<not> owned_by rid w r"
  shows "\<exists>e. runs_exec c sc now fresh op b = (Inl e, b)"
proof -
  have none: "sql_count (owned_by rid w) (db_runs (rows_of b)) = 0"
    using inv stale a_owns_stored [OF inv, of rid w] owned_iff [of "rows_of b" rid w]
    by (auto simp: runs_inv_def runs_view_def)
  have wf: "wf_db (rows_of b)" using inv by (simp add: runs_inv_def)
  have ok: "op_accepts op" using op by (cases op) (auto simp: op_accepts_def owner_of_op_def)
  show ?thesis
  proof (cases b)
    case (Sqlite db)
    have wf': "wf_db db" and none': "sql_count (owned_by rid w) (db_runs db) = 0"
      using wf none Sqlite by (simp_all add: rows_of_def)
    have save: "\<exists>e. sqlite_save_step c now rid w n v db = (Inl e, db)" for n v
      using save_step_cases [OF wf', of c v _ now rid w n] none'
      by (cases "to_string c v") (simp_all add: sqlite_save_step_def)
    have upd: "update_owned rid w f db = (Inl StaleWorker, db)" for f
      using none' by (simp add: update_owned_def)
    have "\<exists>e. sqlite_exec c sc now fresh op db = (Inl e, db)"
    proof (cases op)
      case (Op_save_step i w' n v)
      then show ?thesis using op save [of n v] by (auto simp: owner_of_op_def)
    qed (use op upd in \<open>auto simp: owner_of_op_def sqlite_heartbeat_def sqlite_complete_def
        sqlite_cancel_def sqlite_fail_def sqlite_defer_def sqlite_wait_for_event_def Let_def
        split: option.splits\<close>)
    then show ?thesis using Sqlite ok by (auto simp: runs_exec_def backend_exec_def)
  next
    case (Postgres app db)
    have none': "sql_count (owned_by rid w) (prj app (pg_runs db)) = 0"
      using none Postgres by (simp add: rows_of_def)
    have upd: "update_running app rid w f db = (Inl StaleWorker, db)" for f
      using none' by (simp add: update_running_def prj_count)
    have "pg_select app (owned_by rid w) (pg_runs db) = []"
      using none' by (simp add: pg_select_prj sql_count_def)
    then have "\<exists>e. pg_exec app c sc now fresh op db = (Inl e, db)"
      using op upd
      by (cases op) (auto simp: owner_of_op_def pg_heartbeat_def pg_complete_def pg_cancel_def
          pg_fail_def pg_defer_def pg_wait_for_event_def pg_save_step_def Let_def split: option.splits)
    then show ?thesis using Postgres ok by (auto simp: runs_exec_def backend_exec_def)
  qed
qed

theorem stale_worker_rejected_witness:
  "\<exists>e. runs_exec text_codec id_scans 9 ''f'' (Op_complete ''r1'' ''v'') ex_store = (Inl e, ex_store)"
proof (rule stale_worker_rejected [OF ex_store_inv])
  show "(9::int) < i64_max" by code_simp
  show "owner_of_op (Op_complete ''r1'' ''v'' :: string store_op) = Some (''r1'', ''v'')" by code_simp
  show "\<not> owned_by ''r1'' ''v'' r" if "stored_run ex_store ''r1'' = Some r" for r
    using that ex_store_run by (auto simp: owned_by_def ex_row_def)
qed

text \<open>C3. Every operation of the store, on either backend, is a step of the abstract contract:
  a malformed run id is refused, and otherwise the response and the new abstract state are those the
  contract allows, and the rows stay well formed.\<close>

theorem runs_db_implements_contract:
  assumes "runs_inv sc b" "now < i64_max"
  shows "contract op_accepts c now fresh op (runs_view b) (fst (runs_exec c sc now fresh op b))
           (runs_view (snd (runs_exec c sc now fresh op b)))
    \<and> runs_inv sc (snd (runs_exec c sc now fresh op b))"
  using runs_exec_implements [OF assms, of c fresh op "fst (runs_exec c sc now fresh op b)"
      "snd (runs_exec c sc now fresh op b)"] by simp

theorem runs_db_implements_contract_witness:
  "runs_inv id_scans (snd (runs_exec text_codec id_scans 4 ''f'' (Op_signal ''e'' ''v'') ex_store))"
proof -
  have "(4::int) < i64_max" by code_simp
  from runs_db_implements_contract [OF ex_store_inv this, of text_codec "''f''" "Op_signal ''e'' ''v''"]
  show ?thesis by blast
qed

text \<open>C12. In every state the store can reach from empty tables, ids are unique, a run has an owner
  and a lease exactly while it is running, a finish time exactly when it has ended, a non-negative
  attempt count that is positive while it runs, and a run waits for at most one event, only while
  pending and with its due time the time-out of that wait.\<close>

theorem reachable_rows_well_formed:
  assumes "scans_ok sc" "clock_ok ops" and db: "Sqlite db = run_ops (runs_exec c sc) ops (Sqlite empty_db)"
  shows "distinct (map r_id (db_runs db)) \<and> distinct (map w_run_id (db_waiters db))
    \<and> list_all row_ok (db_runs db) \<and> list_all (waiter_ok (db_runs db)) (db_waiters db)"
proof -
  have "runs_inv sc (Sqlite empty_db)" using assms(1) by (simp add: runs_inv_def rows_of_def wf_empty_db)
  then have "runs_inv sc (Sqlite db)" unfolding db by (rule runs.run_inv) (rule assms(2))
  then show ?thesis
    by (simp add: runs_inv_def rows_of_def wf_db_def unique_key_def list_all_iff)
qed

theorem reachable_rows_well_formed_witness:
  "\<exists>db. Sqlite db = ex_store \<and> db_runs db = [ex_row] \<and> list_all row_ok (db_runs db)"
proof -
  have "(case ex_store of Sqlite _ \<Rightarrow> True | Postgres _ _ \<Rightarrow> False)" by code_simp
  then obtain db where db: "ex_store = Sqlite db" by (auto split: runs_backend.splits)
  have "clock_ok ex_ops" by code_simp
  from reachable_rows_well_formed [OF id_scans_ok this, of db text_codec] db
  have "list_all row_ok (db_runs db)" by (simp add: ex_store_def)
  moreover have "db_runs (rows_of ex_store) = [ex_row]" by code_simp
  then have "db_runs db = [ex_row]" unfolding db by (simp add: rows_of_def)
  ultimately show ?thesis using db by metis
qed

text \<open>C6. A claim takes the earliest due run.  A worker's claim is answered with a run exactly when
  some pending run with one of its names is due; that run has the least due time among those, is
  handed over with its stored payload and its own attempt counted, and its row becomes running, owned by
  the worker until the clamped lease ends.\<close>

theorem claim_takes_earliest_due:
  assumes inv: "runs_inv sc b" and now: "now < i64_max"
    and exq: "runs_exec c sc now fresh (Op_claim w names lease) b = (resp, b')"
  shows "(if \<exists>rid r. stored_run b rid = Some r \<and> claimable now names r
     then \<exists>rid r p. stored_run b rid = Some r \<and> claimable now names r
       \<and> (\<forall>rid' r'. stored_run b rid' = Some r' \<longrightarrow> claimable now names r' \<longrightarrow> r_run_at r \<le> r_run_at r')
       \<and> resp = Inr (Ok_claimed (Some p)) \<and> rp_id p = rid \<and> rp_payload p = json_or_null c (r_payload r)
       \<and> rp_attempts p = word_of_int (r_attempts r + 1)
       \<and> stored_run b' rid = Some (set_running w (i64_sat_add now (clamp_lease_ms lease)) r)
       \<and> (\<forall>i. i \<noteq> rid \<longrightarrow> stored_run b' i = stored_run b i)
     else resp = Inr (Ok_claimed None) \<and> stored_run b' = stored_run b)"
  by (rule claim_effect [OF assms])

theorem claim_takes_earliest_due_witness:
  "\<exists>p b'. runs_exec text_codec id_scans 9 ''f'' (Op_claim ''v'' [''n''] 10)
     (run_ops (runs_exec text_codec id_scans)
        [(5, ''f'', Op_enqueue ''n'' ''q'' (opts_with_id ''r2''))] ex_store) = (Inr (Ok_claimed (Some p)), b')"
proof -
  let ?b = "run_ops (runs_exec text_codec id_scans)
        [(5, ''f'', Op_enqueue ''n'' ''q'' (opts_with_id ''r2''))] ex_store"
  let ?e = "runs_exec text_codec id_scans 9 ''f'' (Op_claim ''v'' [''n''] 10) ?b"
  have "clock_ok [(5, ''f'', Op_enqueue ''n'' ''q'' (opts_with_id ''r2''))]" by code_simp
  then have inv: "runs_inv id_scans ?b" using ex_store_inv by (rule run_ops_inv)
  have now: "(9::int) < i64_max" by code_simp
  have "\<exists>r. stored_run ?b ''r2'' = Some r \<and> claimable 9 [''n''] r"
    by (rule exI [of _ "the (stored_run ?b ''r2'')"]) code_simp
  then have "\<exists>rid r. stored_run ?b rid = Some r \<and> claimable 9 [''n''] r" by blast
  from claim_takes_earliest_due [where c = text_codec and fresh = "''f''" and w = "''v''"
      and names = "[''n'']" and lease = 10, OF inv now prod.collapse [symmetric], unfolded if_P [OF this]]
  obtain p where "fst ?e = Inr (Ok_claimed (Some p))" by blast
  then have "?e = (Inr (Ok_claimed (Some p)), snd ?e)" by (simp add: prod_eq_iff)
  then show ?thesis by blast
qed



text \<open>C7. A signal wakes exactly the runs that wait for its event.  The answer is their number;
  each of them becomes due at once, waits no more, and has the payload as the result of the step it
  waited in unless that step has a result already; every other run, waiter and step is untouched.\<close>

theorem signal_wakes_waiters:
  assumes inv: "runs_inv sc b" and now: "now < i64_max" and js: "to_string c payload = Some js"
    and exq: "runs_exec c sc now fresh (Op_signal ev payload) b = (resp, b')"
  shows "resp = Inr (Ok_count (card {rid. \<exists>x. stored_waiter b rid = Some x \<and> w_event_name x = ev}))
    \<and> (\<forall>rid. case stored_waiter b rid of
         Some x \<Rightarrow>
           if w_event_name x = ev
           then stored_run b' rid = map_option (\<lambda>r. r\<lparr>r_run_at := now\<rparr>) (stored_run b rid)
             \<and> stored_waiter b' rid = None
             \<and> stored_step b' rid = (if stored_step b rid (w_step_name x) = None
                 then (stored_step b rid)(w_step_name x \<mapsto> js) else stored_step b rid)
           else stored_run b' rid = stored_run b rid \<and> stored_waiter b' rid = stored_waiter b rid
             \<and> stored_step b' rid = stored_step b rid
       | None \<Rightarrow> stored_run b' rid = stored_run b rid \<and> stored_waiter b' rid = None
           \<and> stored_step b' rid = stored_step b rid)"
proof -
  note imp = runs_exec_implements [OF inv now exq]
  have inv': "runs_inv sc b'" using imp by blast
  have resp: "resp = Inr (Ok_count (card (a_ids (a_waits_for ev) (runs_view b))))"
    and v': "runs_view b' = a_map_runs (a_signal now ev js) (runs_view b)"
    using imp js by (simp_all add: contract_def op_accepts_def)
  have w: "a_ids (a_waits_for ev) (runs_view b) =
      {rid. \<exists>x. stored_waiter b rid = Some x \<and> w_event_name x = ev}"
  proof -
    have "a_waits_for ev r \<longleftrightarrow> (\<exists>x. waiter_of rid r = Some x \<and> w_event_name x = ev)" for r rid
      by (cases "a_phase r") (simp_all add: a_waits_for_def waiter_of_def)
    then show ?thesis
      by (auto simp: a_ids_def stored_waiter_view [OF inv] bind_eq_Some_conv)
  qed
  have as': "as_runs (runs_view b') rid = map_option (a_signal now ev js) (as_runs (runs_view b) rid)" for rid
    by (simp add: v' a_map_runs_def)
  have "case stored_waiter b rid of
         Some x \<Rightarrow>
           if w_event_name x = ev
           then stored_run b' rid = map_option (\<lambda>r. r\<lparr>r_run_at := now\<rparr>) (stored_run b rid)
             \<and> stored_waiter b' rid = None
             \<and> stored_step b' rid = (if stored_step b rid (w_step_name x) = None
                 then (stored_step b rid)(w_step_name x \<mapsto> js) else stored_step b rid)
           else stored_run b' rid = stored_run b rid \<and> stored_waiter b' rid = stored_waiter b rid
             \<and> stored_step b' rid = stored_step b rid
       | None \<Rightarrow> stored_run b' rid = stored_run b rid \<and> stored_waiter b' rid = None
           \<and> stored_step b' rid = stored_step b rid" for rid
  proof (cases "as_runs (runs_view b) rid")
    case None
    then show ?thesis
      by (simp add: stored_views [OF inv] stored_views [OF inv'] as' fun_eq_iff)
  next
    case (Some r)
    then show ?thesis
      by (cases "a_phase r")
         (auto simp: stored_views [OF inv] stored_views [OF inv'] as' fun_eq_iff a_signal_def waiter_of_def
           row_of_def put_step_def)
  qed
  then show ?thesis using resp w by simp
qed

theorem signal_wakes_waiters_witness:
  "let b = run_ops (runs_exec text_codec id_scans) [(4, ''f'', Op_wait_for_event ''r1'' ''w'' ''s'' ''e'' None)] ex_store;
       b' = snd (runs_exec text_codec id_scans 7 ''f'' (Op_signal ''e'' ''v'') b)
   in stored_waiter b' ''r1'' = None \<and> stored_step b' ''r1'' ''s'' = Some ''v''"
proof -
  let ?b = "run_ops (runs_exec text_codec id_scans) [(4, ''f'', Op_wait_for_event ''r1'' ''w'' ''s'' ''e'' None)] ex_store"
  let ?x = "\<lparr>w_run_id = ''r1'', w_step_name = ''s'', w_event_name = ''e'', w_expires_at = None\<rparr>"
  have "clock_ok [(4, ''f'', Op_wait_for_event ''r1'' ''w'' ''s'' ''e'' None)]" by code_simp
  then have inv: "runs_inv id_scans ?b" using ex_store_inv by (rule run_ops_inv)
  have now: "(7::int) < i64_max" and js: "to_string text_codec ''v'' = Some ''v''"
    and x: "stored_waiter ?b ''r1'' = Some ?x" and st: "stored_step ?b ''r1'' ''s'' = None"
    by code_simp+
  from signal_wakes_waiters [where fresh = "''f''" and ev = "''e''", OF inv now js prod.collapse [symmetric],
      THEN conjunct2, THEN spec, of "''r1''"]
  show ?thesis unfolding x Let_def by (simp add: st del: run_ops.simps)
qed



text \<open>C4. The two backends agree.  On the rows of an app, the Postgres store gives for every
  operation the response of the SQLite store on those rows and leaves the rows the SQLite store
  leaves; only a failure that neither ends the run nor says when to retry is refused with a different
  error.\<close>

theorem backends_agree:
  assumes "wf_db (app_db app db)" "scans_ok sc"
  shows "app_db app (snd (pg_exec app c sc now fresh op db)) =
      snd (sqlite_exec c sc now fresh op (app_db app db))
    \<and> (if fails_undated op
       then (\<exists>m. fst (pg_exec app c sc now fresh op db) = Inl (UnsupportedBackend m))
         \<and> (\<exists>m. fst (sqlite_exec c sc now fresh op (app_db app db)) = Inl (Storage m))
       else fst (pg_exec app c sc now fresh op db) = fst (sqlite_exec c sc now fresh op (app_db app db)))"
proof (cases "fails_undated op")
  case True
  then obtain rid w err where "op = Op_fail rid w err None False"
    by (auto simp: fails_undated_def split: store_op.splits option.splits bool.splits)
  then show ?thesis using True by (simp add: pg_fail_def sqlite_fail_def)
next
  case False
  then show ?thesis using pg_exec_sim [OF assms False, of c now fresh] by (simp add: sim_def)
qed

theorem backends_agree_witness:
  "fst (pg_exec ''app'' text_codec id_scans 1 ''f'' (Op_claim ''w'' [''mail''] 100) empty_pg) =
   fst (sqlite_exec text_codec id_scans 1 ''f'' (Op_claim ''w'' [''mail''] 100) empty_db)"
proof -
  have "wf_db (app_db ''app'' empty_pg)" by (simp add: app_db_empty_pg wf_empty_db)
  from backends_agree [OF this id_scans_ok, of text_codec 1 "''f''" "Op_claim ''w'' [''mail''] 100"]
  show ?thesis by (simp add: app_db_empty_pg fails_undated_def)
qed

text \<open>C11. Apps that share one Postgres database are isolated: an operation of one app changes no
  run, step, waiter or schedule of another.\<close>

theorem postgres_apps_isolated:
  assumes "wf_db (app_db app db)" "scans_ok sc" "other \<noteq> app"
  shows "app_db other (snd (pg_exec app c sc now fresh op db)) = app_db other db"
  using pg_exec_others [OF assms(1,2), of c now fresh op] assms(3) by (simp add: others_kept_def)

theorem postgres_apps_isolated_witness:
  "app_db ''b'' (snd (pg_exec ''a'' text_codec id_scans 1 ''f'' (Op_enqueue ''mail'' ''p'' (opts_with_id ''r1'')) empty_pg))
   = empty_db"
proof -
  have "wf_db (app_db ''a'' empty_pg)" by (simp add: app_db_empty_pg wf_empty_db)
  from postgres_apps_isolated [OF this id_scans_ok, of "''b''" text_codec 1 "''f''"]
  show ?thesis by (simp add: app_db_empty_pg del: pg_exec.simps)
qed

end
