(* ===== verification/In_Flight.thy ===== *)
theory In_Flight
  imports Runs_Db
begin

text \<open>
  The per-worker throttle of claims (\<^verbatim>\<open>tako-workflows/src/in_flight.rs\<close>).  The limiter
  keeps, per claim owner, how many claims it believes are in flight, and asks the store again when a
  worker process has reached its cap.  The properties relate that cache to the rows of the store.

  The \<^verbatim>\<open>HashMap\<close> of claims is an association list with distinct keys, the mutex is
  held during each operation, and the random part of a claim owner is a parameter.
\<close>

section \<open>The limiter\<close>

definition u32_sat_add :: "32 word \<Rightarrow> 32 word \<Rightarrow> 32 word" where
  "u32_sat_add a b = (if unat a + unat b < 2 ^ 32 then a + b else - 1)"

definition new_claim_owner :: "string \<Rightarrow> string \<Rightarrow> string" where
  "new_claim_owner worker_id nanoid = worker_id @ '':'' @ nanoid"

definition process_worker :: "string \<Rightarrow> string" where
  "process_worker claim_owner = (case dropWhile (\<lambda>ch. ch \<noteq> CHR '':'') (rev claim_owner) of
     [] \<Rightarrow> claim_owner | _ # before \<Rightarrow> rev before)"

definition count_worker :: "(string \<times> 32 word) list \<Rightarrow> string \<Rightarrow> 32 word" where
  "count_worker claims worker_id =
     foldl u32_sat_add 0 (map snd (filter (\<lambda>(owner, _). process_worker owner = worker_id) claims))"

record in_flight_limiter =
  max_per_worker :: "32 word"
  claims :: "(string \<times> 32 word) list"

definition limiter_new :: "32 word \<Rightarrow> in_flight_limiter" where
  "limiter_new m = \<lparr>max_per_worker = max m 1, claims = []\<rparr>"

definition limiter_claim ::
    "'j codec \<Rightarrow> scans \<Rightarrow> int \<Rightarrow> string \<Rightarrow> string \<Rightarrow> string list \<Rightarrow> 64 word \<Rightarrow> in_flight_limiter \<times> runs_backend
      \<Rightarrow> (runs_db_error + 'j run_payload option) \<times> in_flight_limiter \<times> runs_backend" where
  "limiter_claim c sc now nanoid worker_id names lease_ms = (\<lambda>(lim, db).
     let full = (\<lambda>cl. count_worker cl worker_id \<ge> max_per_worker lim);
         cl = (if full (claims lim) then runs_in_flight_by_worker db else claims lim)
     in if full cl then (Inr None, lim\<lparr>claims := cl\<rparr>, db)
        else
          let owner = new_claim_owner worker_id nanoid;
              (resp, db') = runs_exec c sc now nanoid (Op_claim owner names lease_ms) db
          in case resp of
               Inl e \<Rightarrow> (Inl e, lim\<lparr>claims := cl\<rparr>, db')
             | Inr (Ok_claimed (Some p)) \<Rightarrow> (Inr (Some p), lim\<lparr>claims := AList.update owner 1 cl\<rparr>, db')
             | Inr _ \<Rightarrow> (Inr None, lim\<lparr>claims := cl\<rparr>, db'))"

definition release_claim :: "string \<Rightarrow> in_flight_limiter \<Rightarrow> in_flight_limiter" where
  "release_claim claim_owner lim = (case map_of (claims lim) claim_owner of
     None \<Rightarrow> lim
   | Some n \<Rightarrow> if n > 1 then lim\<lparr>claims := AList.update claim_owner (n - 1) (claims lim)\<rparr>
               else lim\<lparr>claims := AList.delete claim_owner (claims lim)\<rparr>)"

definition rehydrate :: "(string \<times> 32 word) list \<Rightarrow> in_flight_limiter \<Rightarrow> in_flight_limiter" where
  "rehydrate snapshot lim = lim\<lparr>claims := snapshot\<rparr>"

section \<open>The runs held by an owner and by a process\<close>

definition held_by :: "runs_backend \<Rightarrow> string \<Rightarrow> string set" where
  "held_by b own = {rid. \<exists>r. stored_run b rid = Some r \<and> r_status r = Running \<and> r_worker_id r = Some own}"

definition held_by_process :: "runs_backend \<Rightarrow> string \<Rightarrow> string set" where
  "held_by_process b w = {rid. \<exists>own. process_worker own = w \<and> rid \<in> held_by b own}"

text \<open>The cache accounts for every running row: no owner holds more runs than the cache says.\<close>

definition covers :: "(string \<times> 32 word) list \<Rightarrow> runs_backend \<Rightarrow> bool" where
  "covers cl b = (distinct (map fst cl) \<and>
     (\<forall>own. card (held_by b own) \<le> (case map_of cl own of Some n \<Rightarrow> unat n | None \<Rightarrow> 0)))"

subsection \<open>Owners\<close>

lemma process_worker_new [simp]:
  assumes "CHR '':'' \<notin> set nanoid"
  shows "process_worker (new_claim_owner w nanoid) = w"
proof -
  have "dropWhile (\<lambda>ch. ch \<noteq> CHR '':'') (rev nanoid @ CHR '':'' # rev w) = CHR '':'' # rev w"
    using assms by (subst dropWhile_append2) auto
  then show ?thesis by (simp add: process_worker_def new_claim_owner_def)
qed

subsection \<open>Saturating sums\<close>

lemma unat_u32_sat_add: "unat (u32_sat_add a b) = min (unat a + unat b) (2 ^ 32 - 1)"
proof -
  have "unat (- 1 :: 32 word) = 2 ^ 32 - 1"
    by (simp add: unsigned_minus_1_eq_mask mask_eq_exp_minus_1)
  then show ?thesis by (auto simp: u32_sat_add_def unat_word_ariths)
qed

lemma unat_foldl_sat:
  "unat (foldl u32_sat_add a ns) = min (unat a + (\<Sum>n\<leftarrow>ns. unat n)) (2 ^ 32 - 1)"
proof (induction ns arbitrary: a)
  case Nil
  have "unat a < 2 ^ 32" using unsigned_less [of a] by simp
  then show ?case by simp
next
  case (Cons n ns)
  then show ?case by (simp add: unat_u32_sat_add)
qed

definition claims_of :: "(string \<times> 32 word) list \<Rightarrow> string \<Rightarrow> nat" where
  "claims_of cl w = (\<Sum>n\<leftarrow>map snd (filter (\<lambda>(own, _). process_worker own = w) cl). unat n)"

lemma unat_count_worker: "unat (count_worker cl w) = min (claims_of cl w) (2 ^ 32 - 1)"
  by (simp add: count_worker_def claims_of_def unat_foldl_sat)

lemma claims_of_sum:
  assumes "distinct (map fst cl)"
  shows "claims_of cl w = (\<Sum>own \<in> {own \<in> fst ` set cl. process_worker own = w}. unat (the (map_of cl own)))"
proof -
  let ?f = "filter (\<lambda>(own, _). process_worker own = w) cl"
  have d: "distinct (map fst ?f)" using assms by (simp add: distinct_map_filter)
  have "claims_of cl w = (\<Sum>own\<leftarrow>map fst ?f. unat (the (map_of cl own)))"
    unfolding claims_of_def map_map
    by (rule arg_cong [of _ _ sum_list]) (use assms in \<open>auto intro!: map_cong simp: map_of_eq_Some_iff\<close>)
  also have "\<dots> = sum (\<lambda>own. unat (the (map_of cl own))) (set (map fst ?f))"
    using d by (subst sum_list_distinct_conv_sum_set) auto
  also have "set (map fst ?f) = {own \<in> fst ` set cl. process_worker own = w}" by force
  finally show ?thesis .
qed


subsection \<open>The cache against the rows\<close>

lemma finite_held_by [simp]: "finite (held_by b own)"
proof -
  have "held_by b own \<subseteq> r_id ` set (db_runs (rows_of b))"
    by (auto simp: held_by_def stored_run_def image_iff dest!: sql_lookup_SomeD)
  then show ?thesis by (rule finite_subset) simp
qed

lemma finite_held_by_process [simp]: "finite (held_by_process b w)"
proof (rule finite_subset)
  show "held_by_process b w \<subseteq> r_id ` set (db_runs (rows_of b))"
    by (auto simp: held_by_process_def held_by_def stored_run_def image_iff dest!: sql_lookup_SomeD)
qed simp

lemma held_by_unique: "rid \<in> held_by b own \<Longrightarrow> rid \<in> held_by b own' \<Longrightarrow> own = own'"
  by (auto simp: held_by_def)

lemma covers_process:
  assumes "covers cl b"
  shows "card (held_by_process b w) \<le> claims_of cl w"
proof -
  let ?O = "{own \<in> fst ` set cl. process_worker own = w}"
  have "held_by_process b w \<subseteq> (\<Union>own \<in> ?O. held_by b own)"
  proof
    fix rid assume "rid \<in> held_by_process b w"
    then obtain own where own: "process_worker own = w" "rid \<in> held_by b own" by (auto simp: held_by_process_def)
    then have "card (held_by b own) \<noteq> 0" by (auto simp: card_eq_0_iff)
    then have "map_of cl own \<noteq> None" using assms unfolding covers_def by (metis le_0_eq option.case(1))
    then have "own \<in> fst ` set cl" by (simp add: map_of_eq_None_iff)
    then show "rid \<in> (\<Union>own \<in> ?O. held_by b own)" using own by blast
  qed
  then have "card (held_by_process b w) \<le> card (\<Union>own \<in> ?O. held_by b own)" by (intro card_mono) auto
  also have "\<dots> \<le> (\<Sum>own \<in> ?O. card (held_by b own))" by (rule card_UN_le) simp
  also have "\<dots> \<le> (\<Sum>own \<in> ?O. unat (the (map_of cl own)))"
  proof (rule sum_mono)
    fix own assume "own \<in> ?O"
    then obtain n where "map_of cl own = Some n" by (metis (mono_tags, lifting) map_of_eq_None_iff mem_Collect_eq not_None_eq)
    then show "card (held_by b own) \<le> unat (the (map_of cl own))"
      using assms by (auto simp: covers_def dest: spec [of _ own])
  qed
  also have "\<dots> = claims_of cl w" using assms by (simp add: claims_of_sum covers_def)
  finally show ?thesis .
qed

lemma in_flight_rows:
  "runs_in_flight_by_worker b = sqlite_in_flight_by_worker (rows_of b)"
  by (simp add: runs_in_flight_by_worker_def rows_of_def pg_in_flight_by_worker_def
      sqlite_in_flight_by_worker_def pg_select_prj split: runs_backend.splits)

lemma held_by_count:
  assumes "runs_inv sc b"
  shows "card (held_by b own) = sql_count (\<lambda>r. r_status r = Running \<and> r_worker_id r = Some own) (db_runs (rows_of b))"
proof -
  let ?P = "\<lambda>r. r_status r = Running \<and> r_worker_id r = Some own"
  let ?t = "db_runs (rows_of b)"
  have u: "unique_key r_id ?t" using assms by (simp add: runs_inv_def wf_db_def)
  then have "held_by b own = r_id ` set (filter ?P ?t)"
    by (auto simp: held_by_def stored_run_def sql_lookup_iff image_iff)
  moreover have "distinct (map r_id (filter ?P ?t))" using unique_filter [OF u] by (simp add: unique_key_def)
  ultimately show ?thesis
    using distinct_card [of "map r_id (filter ?P ?t)"] by (simp add: sql_count_def)
qed

lemma in_flight_covers:
  assumes inv: "runs_inv sc b" and small: "length (db_runs (rows_of b)) < 2 ^ 32"
  shows "covers (runs_in_flight_by_worker b) b"
proof -
  let ?t = "db_runs (rows_of b)"
  let ?run = "filter (\<lambda>r. r_status r = Running \<and> r_worker_id r \<noteq> None) ?t"
  let ?n = "\<lambda>own. sql_count (\<lambda>r. r_worker_id r = Some own) ?run"
  let ?owners = "remdups (List.map_filter r_worker_id ?run)"
  have n: "?n own = card (held_by b own)" for own
    unfolding held_by_count [OF inv] by (auto simp: sql_count_def intro!: arg_cong [of _ _ length] filter_cong)
  have eq: "runs_in_flight_by_worker b = map (\<lambda>own. (own, of_nat (?n own))) ?owners"
    by (simp add: in_flight_rows sqlite_in_flight_by_worker_def Let_def)
  have "?n own < 2 ^ 32" for own
    unfolding sql_count_def
    by (rule le_less_trans [OF le_trans [OF length_filter_le length_filter_le] small])
  then have un: "unat (of_nat (?n own) :: 32 word) = card (held_by b own)" for own
    unfolding n [symmetric] unat_of_nat by simp
  have none: "card (held_by b own) = 0" if "own \<notin> set ?owners" for own
    using that by (auto simp: n [symmetric] sql_count_def filter_empty_conv List.map_filter_def image_iff)
  have "map_of (map (\<lambda>own. (own, f own)) xs) own = (if own \<in> set xs then Some (f own) else None)"
    for own and f :: "string \<Rightarrow> 32 word" and xs by (induction xs) auto
  note mo = this
  show ?thesis
    unfolding covers_def eq mo using un none by (auto simp: comp_def)
qed


lemma in_flight_exact:
  assumes inv: "runs_inv sc b" and small: "length (db_runs (rows_of b)) < 2 ^ 32"
  shows "claims_of (runs_in_flight_by_worker b) w = card (held_by_process b w)"
proof -
  let ?cl = "runs_in_flight_by_worker b"
  let ?O = "{own \<in> fst ` set ?cl. process_worker own = w}"
  have cov: "covers ?cl b" by (rule in_flight_covers [OF assms])
  have un: "unat (the (map_of ?cl own)) = card (held_by b own)" if "own \<in> ?O" for own
  proof -
    let ?n = "\<lambda>own. sql_count (\<lambda>r. r_worker_id r = Some own)
       (filter (\<lambda>r. r_status r = Running \<and> r_worker_id r \<noteq> None) (db_runs (rows_of b)))"
    have n: "?n own = card (held_by b own)"
      unfolding held_by_count [OF inv] by (auto simp: sql_count_def intro!: arg_cong [of _ _ length] filter_cong)
    have "?n own < 2 ^ 32" unfolding sql_count_def
      by (rule le_less_trans [OF le_trans [OF length_filter_le length_filter_le] small])
    moreover have "(own, of_nat (?n own)) \<in> set ?cl"
      using that by (auto simp: in_flight_rows sqlite_in_flight_by_worker_def Let_def)
    then have "map_of ?cl own = Some (of_nat (?n own))"
      using cov by (simp add: covers_def map_of_eq_Some_iff)
    ultimately show ?thesis unfolding n by (simp add: unat_of_nat)
  qed
  have sub: "(\<Union>own \<in> ?O. held_by b own) \<subseteq> held_by_process b w" by (auto simp: held_by_process_def)
  have "claims_of ?cl w = (\<Sum>own \<in> ?O. card (held_by b own))"
    using cov un by (simp add: claims_of_sum covers_def)
  also have "\<dots> = card (\<Union>own \<in> ?O. held_by b own)"
    by (rule card_UN_disjoint [symmetric]) (auto dest: held_by_unique)
  also have "\<dots> \<le> card (held_by_process b w)" by (rule card_mono [OF finite_held_by_process sub])
  finally show ?thesis using covers_process [OF cov, of w] by simp
qed

lemma in_flight_key:
  assumes inv: "runs_inv sc b" and "held_by b own = {}"
  shows "map_of (runs_in_flight_by_worker b) own = None"
proof (rule ccontr)
  assume "map_of (runs_in_flight_by_worker b) own \<noteq> None"
  then obtain n where "(own, n) \<in> set (runs_in_flight_by_worker b)" by (auto dest: map_of_SomeD)
  then obtain r where "r \<in> set (db_runs (rows_of b))" "r_status r = Running" "r_worker_id r = Some own"
    by (auto simp: in_flight_rows sqlite_in_flight_by_worker_def Let_def List.map_filter_def)
  moreover then have "stored_run b (r_id r) = Some r"
    using inv by (simp add: stored_run_def runs_inv_def wf_db_def sql_lookup_unique)
  ultimately show False using assms(2) by (auto simp: held_by_def)
qed

text \<open>Admission by the cached counts, refreshed at the cap, is admission by the true counts.\<close>

lemma admits_exact:
  assumes inv: "runs_inv sc b" and small: "length (db_runs (rows_of b)) < 2 ^ 32"
    and cov: "covers (claims lim) b"
    and cl: "cl = (if max_per_worker lim \<le> count_worker (claims lim) w then runs_in_flight_by_worker b else claims lim)"
  shows "count_worker cl w < max_per_worker lim \<longleftrightarrow> card (held_by_process b w) < unat (max_per_worker lim)"
    and "covers cl b"
proof -
  let ?m = "max_per_worker lim"
  have "unat ?m < 2 ^ 32" using unsigned_less [of ?m] by simp
  then have m: "unat ?m \<le> 2 ^ 32 - 1" by simp
  have less: "count_worker x w < ?m \<longleftrightarrow> claims_of x w < unat ?m" for x
    using m by (auto simp: word_less_nat_alt unat_count_worker)
  have le: "card (held_by_process b w) \<le> claims_of (claims lim) w" by (rule covers_process [OF cov])
  show "count_worker cl w < ?m \<longleftrightarrow> card (held_by_process b w) < unat ?m"
  proof (cases "count_worker (claims lim) w < ?m")
    case True
    then have "cl = claims lim" using leD [of ?m] by (auto simp: cl)
    then show ?thesis using True le less [of "claims lim"] by simp
  next
    case False
    then have "cl = runs_in_flight_by_worker b" by (simp add: cl not_less)
    then show ?thesis using less [of cl] in_flight_exact [OF inv small, of w] by simp
  qed
  show "covers cl b" using cov in_flight_covers [OF inv small] by (simp add: cl)
qed

lemma claim_held:
  assumes inv: "runs_inv sc b" and now: "now < i64_max"
    and exq: "runs_exec c sc now fresh (Op_claim own names lease) b = (resp, b')"
    and due: "\<exists>rid r. stored_run b rid = Some r \<and> claimable now names r"
  shows "\<exists>p. resp = Inr (Ok_claimed (Some p)) \<and> (\<forall>o'. rp_id p \<notin> held_by b o')
    \<and> (\<forall>o'. held_by b' o' = (if o' = own then insert (rp_id p) (held_by b o') else held_by b o'))"
proof -
  from claim_effect [OF inv now exq, unfolded if_P [OF due]]
  obtain r p where r: "stored_run b (rp_id p) = Some r" "claimable now names r"
      and p: "resp = Inr (Ok_claimed (Some p))"
      and r': "stored_run b' (rp_id p) = Some (set_running own (i64_sat_add now (clamp_lease_ms lease)) r)"
      and rest: "\<forall>i. i \<noteq> rp_id p \<longrightarrow> stored_run b' i = stored_run b i" by blast
  have "rp_id p \<notin> held_by b o'" for o'
    using r by (auto simp: held_by_def claimable_def)
  moreover have "held_by b' o' = (if o' = own then insert (rp_id p) (held_by b o') else held_by b o')" for o'
  proof -
    have "i \<in> held_by b' o' \<longleftrightarrow> (if i = rp_id p then o' = own else i \<in> held_by b o')" for i
      using r' rest by (auto simp: held_by_def set_running_def)
    then show ?thesis using r by (auto simp: held_by_def claimable_def)
  qed
  ultimately show ?thesis using p by blast
qed

lemma covers_insert:
  assumes "covers cl b" and "map_of cl own = None"
    and "\<And>o'. held_by b' o' = (if o' = own then insert rid (held_by b o') else held_by b o')"
  shows "covers (AList.update own 1 cl) b'"
proof -
  have "held_by b own = {}" using assms(1,2) by (auto simp: covers_def dest!: spec [of _ own])
  then show ?thesis
    using assms by (auto simp: covers_def distinct_update update_conv' card_insert_if)
qed


lemma held_process_insert:
  assumes "\<And>o'. held_by b' o' = (if o' = own then insert rid (held_by b o') else held_by b o')"
  shows "held_by_process b' w =
    (if process_worker own = w then insert rid (held_by_process b w) else held_by_process b w)"
proof -
  have "i \<in> held_by_process b' w \<longleftrightarrow> (i = rid \<and> process_worker own = w) \<or> i \<in> held_by_process b w" for i
    unfolding held_by_process_def assms mem_Collect_eq by (metis (full_types) insert_iff)
  note mem = this
  show ?thesis by (rule set_eqI) (simp add: mem)
qed

lemma covers_release:
  assumes "covers (claims lim) b" and "held_by b own = {}"
  shows "covers (claims (release_claim own lim)) b"
proof (cases "map_of (claims lim) own")
  case (Some n)
  then show ?thesis
    using assms
    by (auto simp: covers_def release_claim_def distinct_update update_conv' distinct_delete delete_conv'
        dest: spec)
qed (use assms in \<open>simp add: release_claim_def\<close>)

section \<open>An instance\<close>

lemma held_by_empty:
  "list_all (\<lambda>r. r_status r \<noteq> Running) (db_runs (rows_of b)) \<Longrightarrow> held_by b own = {}"
  by (auto simp: held_by_def stored_run_def list_all_iff dest!: sql_lookup_SomeD)

text \<open>A limiter of cap one claims a run for process \<^verbatim>\<open>v\<close>; the lease runs out and
  another server reclaims it, so that the cache is stale.\<close>

definition lim_trace :: "(runs_db_error + string run_payload option) \<times> in_flight_limiter \<times> runs_backend" where
  "lim_trace = limiter_claim text_codec id_scans 9 ''k1'' ''v'' [''n''] 10 (limiter_new 1,
     run_ops (runs_exec text_codec id_scans)
       [(5, ''f'', Op_enqueue ''n'' ''q'' (opts_with_id ''r2''))] (Sqlite empty_db))"

lemma lim_trace_inv:
  "runs_inv id_scans (run_ops (runs_exec text_codec id_scans) [(200, ''f'', Op_reclaim)] (snd (snd lim_trace)))"
proof -
  let ?ops = "[(5, ''f'', Op_enqueue ''n'' ''q'' (opts_with_id ''r2'')),
     (9, ''k1'', Op_claim ''v:k1'' [''n''] 10), (200, ''f'', Op_reclaim)] :: string trace"
  have "run_ops (runs_exec text_codec id_scans) [(200, ''f'', Op_reclaim)] (snd (snd lim_trace))
     = run_ops (runs_exec text_codec id_scans) ?ops (Sqlite empty_db)" by code_simp
  moreover have "clock_ok ?ops" by code_simp
  ultimately show ?thesis using empty_inv run_ops_inv by metis
qed

section \<open>Properties\<close>

text \<open>C28. The limiter admits a claim exactly when the worker process holds fewer running rows in the
  store than its cap and some run is due under the names it handles, although it looks at the store
  only when its cache says the cap is reached.  The cache may lag behind the store (a lease reclaimed
  elsewhere) but accounts for every running row, and still does afterwards.  An admitted claim adds
  exactly the claimed run to what the process holds, never beyond the cap; a refused one changes
  nothing.  The random part of the claim owner has no colon and the owner is new.\<close>

theorem limiter_claim_exact:
  assumes inv: "runs_inv sc b" and now: "now < i64_max"
    and small: "length (db_runs (rows_of b)) < 2 ^ 32"
    and cov: "covers (claims lim) b"
    and id_ok: "CHR '':'' \<notin> set nanoid"
    and new: "map_of (claims lim) (new_claim_owner w nanoid) = None" "held_by b (new_claim_owner w nanoid) = {}"
    and exq: "limiter_claim c sc now nanoid w names lease (lim, b) = (res, lim', b')"
  shows "covers (claims lim') b' \<and> max_per_worker lim' = max_per_worker lim
    \<and> (if card (held_by_process b w) < unat (max_per_worker lim)
           \<and> (\<exists>rid r. stored_run b rid = Some r \<and> claimable now names r)
        then \<exists>p. res = Inr (Some p) \<and> rp_id p \<notin> held_by_process b w
           \<and> held_by_process b' w = insert (rp_id p) (held_by_process b w)
           \<and> card (held_by_process b' w) \<le> unat (max_per_worker lim)
        else res = Inr None \<and> stored_run b' = stored_run b)"
proof -
  define cl where "cl = (if count_worker (claims lim) w \<ge> max_per_worker lim
     then runs_in_flight_by_worker b else claims lim)"
  let ?own = "new_claim_owner w nanoid"
  obtain resp b1 where ex1: "runs_exec c sc now nanoid (Op_claim ?own names lease) b = (resp, b1)" by fastforce
  note admit = admits_exact [OF inv small cov cl_def]
  have un: "limiter_claim c sc now nanoid w names lease (lim, b) =
      (if count_worker cl w < max_per_worker lim
       then case resp of Inl e \<Rightarrow> (Inl e, lim\<lparr>claims := cl\<rparr>, b1)
             | Inr (Ok_claimed (Some p)) \<Rightarrow> (Inr (Some p), lim\<lparr>claims := AList.update ?own 1 cl\<rparr>, b1)
             | Inr _ \<Rightarrow> (Inr None, lim\<lparr>claims := cl\<rparr>, b1)
       else (Inr None, lim\<lparr>claims := cl\<rparr>, b))"
    unfolding limiter_claim_def Let_def prod.case cl_def [symmetric] ex1
    by (cases "max_per_worker lim \<le> count_worker cl w") (simp_all add: not_le [symmetric])
  consider "\<not> count_worker cl w < max_per_worker lim"
    | "count_worker cl w < max_per_worker lim" "\<nexists>rid r. stored_run b rid = Some r \<and> claimable now names r"
    | "count_worker cl w < max_per_worker lim" "\<exists>rid r. stored_run b rid = Some r \<and> claimable now names r"
    by blast
  then show ?thesis
  proof cases
    case 1
    then show ?thesis using exq un admit by auto
  next
    case 2
    from claim_effect [OF inv now ex1, unfolded if_not_P [OF 2(2)]]
    have "resp = Inr (Ok_claimed None)" "stored_run b1 = stored_run b" by blast+
    moreover then have "covers cl b1" using admit(2) by (simp add: covers_def held_by_def)
    ultimately show ?thesis using exq un 2 by auto
  next
    case 3
    from claim_held [OF inv now ex1 3(2)]
    obtain p where p: "resp = Inr (Ok_claimed (Some p))" "\<forall>o'. rp_id p \<notin> held_by b o'"
      and h: "\<And>o'. held_by b1 o' = (if o' = ?own then insert (rp_id p) (held_by b o') else held_by b o')" by blast
    have "map_of cl ?own = None" using new in_flight_key [OF inv, of ?own] by (simp add: cl_def)
    then have cov': "covers (AList.update ?own 1 cl) b1" by (rule covers_insert [OF admit(2) _ h])
    have hp: "held_by_process b1 w = insert (rp_id p) (held_by_process b w)"
      using held_process_insert [OF h, of w] process_worker_new [OF id_ok, of w] by simp
    have notin: "rp_id p \<notin> held_by_process b w" using p(2) by (simp add: held_by_process_def)
    have "card (held_by_process b1 w) \<le> unat (max_per_worker lim)"
      using 3 admit(1) notin unfolding hp by simp
    then show ?thesis using exq un 3 admit(1) p(1) cov' hp notin by auto
  qed
qed


theorem limiter_claim_exact_witness:
  "\<exists>p. fst (limiter_claim text_codec id_scans 300 ''k2'' ''v'' [''n''] 10
      (fst (snd lim_trace), run_ops (runs_exec text_codec id_scans) [(200, ''f'', Op_reclaim)] (snd (snd lim_trace))))
      = Inr (Some p)"
proof -
  let ?l = "fst (snd lim_trace)"
  let ?b = "run_ops (runs_exec text_codec id_scans) [(200, ''f'', Op_reclaim)] (snd (snd lim_trace))"
  let ?e = "limiter_claim text_codec id_scans 300 ''k2'' ''v'' [''n''] 10 (?l, ?b)"
  have none: "held_by ?b own = {}" for own by (rule held_by_empty) code_simp
  have h0: "held_by_process ?b ''v'' = {}" unfolding held_by_process_def none by simp
  have inv: "runs_inv id_scans ?b" by (rule lim_trace_inv)
  have len: "length (db_runs (rows_of ?b)) = 1" by code_simp
  have small: "length (db_runs (rows_of ?b)) < 2 ^ 32" unfolding len by simp
  have cov: "covers (claims ?l) ?b"
  proof -
    have "distinct (map fst (claims ?l))" by code_simp
    then show ?thesis unfolding covers_def none by simp
  qed
  have facts: "(300::int) < i64_max" "CHR '':'' \<notin> set ''k2''"
    "map_of (claims ?l) (new_claim_owner ''v'' ''k2'') = None"
    by code_simp+
  have cap: "unat (max_per_worker ?l) = 1" by code_simp
  have due: "\<exists>rid r. stored_run ?b rid = Some r \<and> claimable 300 [''n''] r"
    by (rule exI [of _ "''r2''"], rule exI [of _ "the (stored_run ?b ''r2'')"]) code_simp
  have c: "card (held_by_process ?b ''v'') < unat (max_per_worker ?l)
      \<and> (\<exists>rid r. stored_run ?b rid = Some r \<and> claimable 300 [''n''] r)"
    unfolding h0 cap using due by simp
  have "?e = (fst ?e, fst (snd ?e), snd (snd ?e))" by simp
  from limiter_claim_exact [OF inv facts(1) small cov facts(2,3) none this, unfolded if_P [OF c]]
  show ?thesis by blast
qed

text \<open>The process a claim is counted for is read back from its owner: for every worker id and
  every random suffix without a colon, splitting the claim owner gives that worker id, whatever colons
  the id itself has.\<close>

theorem claim_owner_roundtrip:
  assumes "CHR '':'' \<notin> set nanoid"
  shows "process_worker (new_claim_owner worker_id nanoid) = worker_id"
  using assms by (rule process_worker_new)

theorem claim_owner_roundtrip_witness:
  "process_worker (new_claim_owner ''web:1'' ''V1StGXR8_Z5jdHi6B-myT'') = ''web:1''"
  by (rule claim_owner_roundtrip) code_simp

end
