(* ===== verification/Decimal.thy ===== *)
theory Decimal
  imports Prelude
begin

text \<open>
  Decimal numerals as Rust prints and parses them: \<^verbatim>\<open>Display\<close> of an \<^verbatim>\<open>i64\<close>, and
  \<^verbatim>\<open>str::parse\<close> for \<^verbatim>\<open>u16\<close> and \<^verbatim>\<open>i64\<close>, which accept a leading sign, refuse the empty
  numeral and refuse a value outside the type.
\<close>

section \<open>Printing\<close>

definition digit_char :: "int \<Rightarrow> char" where
  "digit_char d = char_of (48 + d)"

function show_digits :: "int \<Rightarrow> string" where
  "show_digits n = (if n < 10 then [digit_char n] else show_digits (n div 10) @ [digit_char (n mod 10)])"
  by pat_completeness auto
termination by (relation "measure nat") auto

definition show_i64 :: "int \<Rightarrow> string" where
  "show_i64 i = (if i < 0 then CHR ''-'' # show_digits (- i) else show_digits i)"

declare show_digits.simps [simp del]

definition digits_value :: "string \<Rightarrow> int" where
  "digits_value s = foldl (\<lambda>v ch. v * 10 + (of_char ch - 48)) 0 s"

lemma of_digit_char: "0 \<le> d \<Longrightarrow> d < 10 \<Longrightarrow> of_char (digit_char d) = 48 + d"
  by (simp add: digit_char_def)

lemma digits_value_show: "0 \<le> n \<Longrightarrow> digits_value (show_digits n) = n"
proof (induction n rule: show_digits.induct)
  case (1 n)
  show ?case
  proof (cases "n < 10")
    case True
    then show ?thesis using 1 by (simp add: show_digits.simps [of n] digits_value_def of_digit_char)
  next
    case False
    then show ?thesis using 1
      by (simp add: show_digits.simps [of n] digits_value_def of_digit_char)
  qed
qed

lemma digit_char_range:
  assumes "0 \<le> d" "d < 10"
  shows "digit_char d \<noteq> CHR '':''" "digit_char d \<noteq> CHR ''-''"
proof -
  have "of_char (digit_char d) = 48 + d" by (rule of_digit_char [OF assms])
  then show "digit_char d \<noteq> CHR '':''" "digit_char d \<noteq> CHR ''-''" using assms by auto
qed

lemma show_digits_chars: "0 \<le> n \<Longrightarrow> CHR '':'' \<notin> set (show_digits n) \<and> CHR ''-'' \<notin> set (show_digits n)"
proof (induction n rule: show_digits.induct)
  case (1 n)
  then show ?case
    using digit_char_range [of n] digit_char_range [of "n mod 10"]
    by (simp add: show_digits.simps [of n]) auto
qed

definition i64_value :: "string \<Rightarrow> int" where
  "i64_value s = (if s \<noteq> [] \<and> hd s = CHR ''-'' then - digits_value (tl s) else digits_value s)"

lemma i64_value_show: "i64_value (show_i64 i) = i"
proof (cases "i < 0")
  case True
  then show ?thesis by (simp add: i64_value_def show_i64_def digits_value_show)
next
  case False
  then have "\<not> (show_digits i \<noteq> [] \<and> hd (show_digits i) = CHR ''-'')"
    using show_digits_chars [of i] hd_in_set [of "show_digits i"] by (metis not_less)
  then show ?thesis using False by (auto simp: i64_value_def show_i64_def digits_value_show)
qed

lemma show_i64_inj: "show_i64 i = show_i64 j \<Longrightarrow> i = j"
  by (metis i64_value_show)

lemma show_i64_no_colon: "CHR '':'' \<notin> set (show_i64 i)"
  using show_digits_chars [of i] show_digits_chars [of "- i"] by (auto simp: show_i64_def)

section \<open>Parsing\<close>

definition is_digit :: "char \<Rightarrow> bool" where
  "is_digit ch = (48 \<le> (of_char ch :: int) \<and> (of_char ch :: int) \<le> 57)"

definition parse_digits :: "string \<Rightarrow> int option" where
  "parse_digits ds = (if ds = [] \<or> \<not> list_all is_digit ds then None else Some (digits_value ds))"

definition parse_u16 :: "string \<Rightarrow> int option" where
  "parse_u16 s =
     (case parse_digits (if s \<noteq> [] \<and> hd s = CHR ''+'' then tl s else s) of
        None \<Rightarrow> None
      | Some n \<Rightarrow> if n \<le> 65535 then Some n else None)"

definition parse_i64 :: "string \<Rightarrow> int option" where
  "parse_i64 s =
     (let neg = (s \<noteq> [] \<and> hd s = CHR ''-'')
      in case parse_digits (if s \<noteq> [] \<and> (hd s = CHR ''+'' \<or> hd s = CHR ''-'') then tl s else s) of
           None \<Rightarrow> None
         | Some n \<Rightarrow>
             let v = (if neg then - n else n)
             in if i64_min \<le> v \<and> v \<le> i64_max then Some v else None)"

lemma is_digit_char: "0 \<le> d \<Longrightarrow> d < 10 \<Longrightarrow> is_digit (digit_char d)"
  by (simp add: is_digit_def of_digit_char)

lemma show_digits_digits: "0 \<le> n \<Longrightarrow> show_digits n \<noteq> [] \<and> list_all is_digit (show_digits n)"
proof (induction n rule: show_digits.induct)
  case (1 n)
  then show ?case by (simp add: show_digits.simps [of n] is_digit_char)
qed

lemma parse_digits_show: "0 \<le> n \<Longrightarrow> parse_digits (show_digits n) = Some n"
  by (simp add: parse_digits_def show_digits_digits digits_value_show)

lemma hd_show_digits:
  assumes "0 \<le> n"
  shows "hd (show_digits n) \<noteq> CHR ''+''" "hd (show_digits n) \<noteq> CHR ''-''"
proof -
  have "is_digit (hd (show_digits n))"
    using show_digits_digits [OF assms] by (metis hd_in_set list.pred_set)
  then show "hd (show_digits n) \<noteq> CHR ''+''" "hd (show_digits n) \<noteq> CHR ''-''"
    by (auto simp: is_digit_def)
qed

lemma parse_show_i64:
  assumes "i64_min \<le> i" "i \<le> i64_max"
  shows "parse_i64 (show_i64 i) = Some i"
  using assms hd_show_digits [of i]
  by (cases "i < 0") (simp_all add: parse_i64_def show_i64_def parse_digits_show Let_def)

lemma show_i64_digits: "0 \<le> i \<Longrightarrow> list_all is_digit (show_i64 i)"
  by (simp add: show_i64_def show_digits_digits)

end
