(* ===== verification/Cron.thy ===== *)
theory Cron
  imports In_Flight Decimal
begin

text \<open>
  The cron ticker (\<^verbatim>\<open>tako-workflows/src/cron.rs\<close>): registering schedules, firing the
  latest passed boundary of each, reclaiming expired leases and pruning history.

  The cron and chrono packages are parameters (\<open>cron_lib\<close>): parsing an expression, the next
  boundary strictly after an instant (the iterator of \<^verbatim>\<open>Schedule::after\<close> is its repeated
  application), which millisecond values are instants, and the wall clock.  Instants are milliseconds.
  The loop over boundaries is a \<open>partial_function\<close>: it returns only if the boundaries advance.
  Within a tick the store's own clock readings are one value, \<open>wall\<close>.
\<close>

section \<open>Schedules\<close>

record 'sch cron_lib =
  cl_parse :: "string \<Rightarrow> 'sch option"
  cl_next :: "'sch \<Rightarrow> int \<Rightarrow> int option"
  cl_instant :: "int \<Rightarrow> bool"
  cl_utc_now :: int

definition PRUNE_BATCH_SIZE :: "32 word" where
  "PRUNE_BATCH_SIZE = 1000"

definition PRUNE_IDLE_INTERVAL_MS :: int where
  "PRUNE_IDLE_INTERVAL_MS = 24 * 60 * 60 * 1000"

definition PRUNE_BACKLOG_INTERVAL_MS :: int where
  "PRUNE_BACKLOG_INTERVAL_MS = 60 * 1000"

definition register_schedules ::
    "'sch cron_lib \<Rightarrow> 'j codec \<Rightarrow> scans \<Rightarrow> int \<Rightarrow> string \<Rightarrow> schedule_spec list \<Rightarrow> runs_backend
      \<Rightarrow> 'j store_resp \<times> runs_backend" where
  "register_schedules lib c sc wall fresh schedules db =
     (case find (\<lambda>s. cl_parse lib (sp_cron s) = None) schedules of
        Some s \<Rightarrow> (Inl (Storage (''invalid cron '' @ sp_cron s @ '' for '' @ sp_name s)), db)
      | None \<Rightarrow> runs_exec c sc wall fresh (Op_replace_schedules schedules) db)"

text \<open>The latest boundary in the iteration that is not after \<open>now\<close>; an outer \<open>None\<close> stands
  for a loop that does not end.\<close>

partial_function (option) latest_boundary ::
    "(int \<Rightarrow> int option) \<Rightarrow> int \<Rightarrow> int \<Rightarrow> int option \<Rightarrow> int option option" where
  "latest_boundary nxt now at latest = (case nxt at of
     None \<Rightarrow> Some latest
   | Some t \<Rightarrow> if t > now then Some latest else latest_boundary nxt now t (Some t))"

declare latest_boundary.simps [code]

definition start_after :: "'sch cron_lib \<Rightarrow> int \<Rightarrow> int option \<Rightarrow> int" where
  "start_after lib now last_run_at = (case last_run_at of
     Some ts \<Rightarrow> (if cl_instant lib ts then ts else now) | None \<Rightarrow> now - 1000)"

definition due_bucket :: "'sch cron_lib \<Rightarrow> int \<Rightarrow> schedule_row \<Rightarrow> int option option" where
  "due_bucket lib now row = (case cl_parse lib (s_cron row) of
     None \<Rightarrow> Some None
   | Some schedule \<Rightarrow>
       latest_boundary (cl_next lib schedule) now (start_after lib now (s_last_run_at row)) None)"

definition cron_id :: "string \<Rightarrow> int \<Rightarrow> string" where
  "cron_id name bucket_ms = ''cron:'' @ name @ '':'' @ show_i64 bucket_ms"

definition cron_opts :: "string \<Rightarrow> int \<Rightarrow> enqueue_opts" where
  "cron_opts name bucket_ms =
     \<lparr>o_run_at_ms = Some bucket_ms, o_max_attempts = None, o_id = Some (cron_id name bucket_ms)\<rparr>"

type_synonym 'a tick_result = "((runs_db_error + 'a) \<times> runs_backend) option"

definition fire ::
    "'j codec \<Rightarrow> scans \<Rightarrow> 'j \<Rightarrow> int \<Rightarrow> string \<Rightarrow> string \<Rightarrow> int \<Rightarrow> runs_backend \<Rightarrow> 'j store_resp \<times> runs_backend" where
  "fire c sc empty_object wall fresh name bucket_ms db =
     (case runs_exec c sc wall fresh (Op_enqueue name empty_object (cron_opts name bucket_ms)) db of
        (Inl e, db1) \<Rightarrow> (Inl e, db1)
      | (Inr _, db1) \<Rightarrow> runs_exec c sc wall fresh (Op_set_schedule name bucket_ms) db1)"

fun tick_rows ::
    "'sch cron_lib \<Rightarrow> 'j codec \<Rightarrow> scans \<Rightarrow> 'j \<Rightarrow> int \<Rightarrow> string \<Rightarrow> int \<Rightarrow> schedule_row list \<Rightarrow> nat \<Rightarrow> runs_backend
      \<Rightarrow> nat tick_result" where
  "tick_rows lib c sc empty_object wall fresh now [] enqueued db = Some (Inr enqueued, db)"
| "tick_rows lib c sc empty_object wall fresh now (row # rows) enqueued db =
     (case due_bucket lib now row of
        None \<Rightarrow> None
      | Some None \<Rightarrow> tick_rows lib c sc empty_object wall fresh now rows enqueued db
      | Some (Some bucket_ms) \<Rightarrow>
          (case fire c sc empty_object wall fresh (s_name row) bucket_ms db of
             (Inl e, db') \<Rightarrow> Some (Inl e, db')
           | (Inr _, db') \<Rightarrow> tick_rows lib c sc empty_object wall fresh now rows (enqueued + 1) db'))"

definition tick_once ::
    "'sch cron_lib \<Rightarrow> 'j codec \<Rightarrow> scans \<Rightarrow> 'j \<Rightarrow> int \<Rightarrow> string \<Rightarrow> int \<Rightarrow> runs_backend \<Rightarrow> nat tick_result" where
  "tick_once lib c sc empty_object wall fresh now_ms db =
     (let now = (if cl_instant lib now_ms then now_ms else cl_utc_now lib)
      in tick_rows lib c sc empty_object wall fresh now (runs_list_schedules sc db) 0 db)"

text \<open>A tick as the ticker runs it; the last component tells whether \<^verbatim>\<open>on_enqueue\<close> is called.\<close>

definition tick_and_reclaim ::
    "'sch cron_lib \<Rightarrow> 'j codec \<Rightarrow> scans \<Rightarrow> 'j \<Rightarrow> int \<Rightarrow> string \<Rightarrow> int \<Rightarrow> in_flight_limiter option \<times> runs_backend
      \<Rightarrow> (bool \<times> in_flight_limiter option \<times> runs_backend) option" where
  "tick_and_reclaim lib c sc empty_object wall fresh now_ms = (\<lambda>(limiter, db).
     case tick_once lib c sc empty_object wall fresh now_ms db of
       None \<Rightarrow> None
     | Some (ticked, db1) \<Rightarrow>
         let cron_enqueued = (case ticked of Inr n \<Rightarrow> n | Inl _ \<Rightarrow> 0);
             (resp, db2) = runs_exec c sc wall fresh
                (if limiter \<noteq> None then Op_reclaim_with_workers else Op_reclaim) db1;
             reclaimed_workers = (case resp of
                 Inr (Ok_workers ws) \<Rightarrow> ws | Inr (Ok_count n) \<Rightarrow> replicate n [] | _ \<Rightarrow> [])
         in Some (cron_enqueued > 0 \<or> reclaimed_workers \<noteq> [],
                  map_option (fold release_claim reclaimed_workers) limiter, db2))"

definition prune_if_due ::
    "'j codec \<Rightarrow> scans \<Rightarrow> int \<Rightarrow> string \<Rightarrow> int \<Rightarrow> int option \<Rightarrow> int \<times> runs_backend \<Rightarrow> int \<times> runs_backend" where
  "prune_if_due c sc wall fresh now_ms retention = (\<lambda>(next_at_ms, db).
     case retention of
       None \<Rightarrow> (next_at_ms, db)
     | Some retention_ms \<Rightarrow>
         if now_ms < next_at_ms then (next_at_ms, db)
         else case runs_exec c sc wall fresh (Op_prune (i64_sat_sub now_ms retention_ms) PRUNE_BATCH_SIZE) db of
                (Inr (Ok_count n), db') \<Rightarrow>
                  (i64_sat_add now_ms (if n = unat PRUNE_BATCH_SIZE then PRUNE_BACKLOG_INTERVAL_MS
                                       else PRUNE_IDLE_INTERVAL_MS), db')
              | (_, db') \<Rightarrow> (i64_sat_add now_ms PRUNE_BACKLOG_INTERVAL_MS, db'))"


section \<open>The loop over boundaries\<close>

text \<open>\<open>calendar B nxt\<close>: the boundaries are the set \<open>B\<close> and \<open>nxt\<close> gives the first one after
  an instant.\<close>

definition calendar :: "int set \<Rightarrow> (int \<Rightarrow> int option) \<Rightarrow> bool" where
  "calendar B nxt = (\<forall>t. case nxt t of
     None \<Rightarrow> \<forall>u \<in> B. u \<le> t
   | Some u \<Rightarrow> u \<in> B \<and> t < u \<and> (\<forall>v \<in> B. t < v \<longrightarrow> u \<le> v))"

definition is_latest :: "int set \<Rightarrow> int \<Rightarrow> int \<Rightarrow> int \<Rightarrow> bool" where
  "is_latest B from now t = (t \<in> B \<and> from < t \<and> t \<le> now \<and> (\<forall>u \<in> B. u \<le> now \<longrightarrow> u \<le> t))"

lemma calendarD:
  assumes "calendar B nxt"
  shows "nxt t = None \<Longrightarrow> u \<in> B \<Longrightarrow> u \<le> t"
    and "nxt t = Some u \<Longrightarrow> u \<in> B" "nxt t = Some u \<Longrightarrow> t < u"
    and "nxt t = Some u \<Longrightarrow> v \<in> B \<Longrightarrow> t < v \<Longrightarrow> u \<le> v"
  using spec [OF assms [unfolded calendar_def], of t] by auto

lemma latest_boundary_loop:
  assumes cal: "calendar B nxt"
  shows "\<exists>r. latest_boundary nxt now at latest = Some r
    \<and> (if \<exists>u \<in> B. at < u \<and> u \<le> now then \<exists>t. r = Some t \<and> is_latest B at now t else r = latest)"
proof (induction "nat (now - at)" arbitrary: at latest rule: less_induct)
  case less
  note eq = latest_boundary.simps [of nxt now at latest]
  consider "\<not> (\<exists>u \<in> B. at < u \<and> u \<le> now)" | t where "nxt at = Some t" "t \<in> B" "at < t" "t \<le> now"
    using calendarD [OF cal, of at] by (cases "nxt at") (force, metis linorder_not_less order_trans)
  then show ?case
  proof cases
    case 1
    then have "latest_boundary nxt now at latest = Some latest"
      using calendarD [OF cal, of at] by (subst eq) (force split: option.splits)
    then show ?thesis using 1 by auto
  next
    case (2 t)
    then obtain r where r: "latest_boundary nxt now t (Some t) = Some r"
        "if \<exists>u \<in> B. t < u \<and> u \<le> now then \<exists>x. r = Some x \<and> is_latest B t now x else r = Some t"
      using less [of t "Some t"] by force
    have "\<exists>x. r = Some x \<and> is_latest B at now x"
      using r(2) 2 by (fastforce simp: is_latest_def split: if_splits)
    then show ?thesis using 2 r(1) by (subst eq) auto
  qed
qed

definition cron_ok :: "'sch cron_lib \<Rightarrow> ('sch \<Rightarrow> int set) \<Rightarrow> bool" where
  "cron_ok lib B = ((\<forall>sch. calendar (B sch) (cl_next lib sch)) \<and> (\<forall>sch. \<forall>t \<in> B sch. cl_instant lib t))"

lemma due_bucket_total:
  assumes "cron_ok lib B"
  obtains (idle) "due_bucket lib now row = Some None"
      "\<And>sch. cl_parse lib (s_cron row) = Some sch \<Longrightarrow>
         \<not> (\<exists>u \<in> B sch. start_after lib now (s_last_run_at row) < u \<and> u \<le> now)"
    | (due) t sch where "due_bucket lib now row = Some (Some t)" "cl_parse lib (s_cron row) = Some sch"
      "is_latest (B sch) (start_after lib now (s_last_run_at row)) now t"
proof (cases "cl_parse lib (s_cron row)")
  case None
  then show ?thesis using idle by (simp add: due_bucket_def)
next
  case (Some sch)
  let ?from = "start_after lib now (s_last_run_at row)"
  have cal: "calendar (B sch) (cl_next lib sch)" using assms by (simp add: cron_ok_def)
  note eq = due_bucket_def [of lib now row, unfolded Some option.case]
  show ?thesis
  proof (cases "\<exists>u \<in> B sch. ?from < u \<and> u \<le> now")
    case True
    then show ?thesis
      using latest_boundary_loop [OF cal, of now ?from None] due [OF _ Some] by (auto simp: eq)
  next
    case False
    then show ?thesis
      using latest_boundary_loop [OF cal, of now ?from None] Some by (intro idle) (auto simp: eq)
  qed
qed

lemma due_again:
  assumes ok: "cron_ok lib B" and due: "due_bucket lib now row = Some (Some t)"
    and row': "s_cron row' = s_cron row" "s_last_run_at row' = Some t"
  shows "due_bucket lib now row' = Some None"
proof -
  obtain sch where sch: "cl_parse lib (s_cron row) = Some sch" and t: "is_latest (B sch) (start_after lib now (s_last_run_at row)) now t"
    using due_bucket_total [OF ok, of now row] due by (metis option.inject option.distinct(1))
  then have frm: "start_after lib now (s_last_run_at row') = t"
    using ok row' by (auto simp: start_after_def cron_ok_def is_latest_def)
  show ?thesis
  proof (cases rule: due_bucket_total [OF ok, of now row', case_names idle due])
    case (due u sch')
    then have "sch' = sch" using sch row' by simp
    then show ?thesis using due(3) t frm by (auto simp: is_latest_def)
  qed
qed

section \<open>What the two store operations of a firing do\<close>

definition stored_schedule :: "runs_backend \<Rightarrow> string \<Rightarrow> schedule_row option" where
  "stored_schedule b n = sql_lookup s_name n (db_schedules (rows_of b))"

lemma view_schedules:
  "as_schedules (runs_view b) n = map_option (\<lambda>s. (s_cron s, s_last_run_at s)) (stored_schedule b n)"
  by (simp add: runs_view_def sqlite_view_def stored_schedule_def)

lemma stored_schedule_view:
  "stored_schedule b n = map_option (\<lambda>(cr, last). \<lparr>s_name = n, s_cron = cr, s_last_run_at = last\<rparr>)
     (as_schedules (runs_view b) n)"
proof (cases "stored_schedule b n")
  case (Some s)
  moreover then have "s_name s = n" by (auto simp: stored_schedule_def dest: sql_lookup_key)
  ultimately show ?thesis by (simp add: view_schedules)
qed (simp add: view_schedules)

lemma list_schedules_rows:
  assumes "runs_inv sc b"
  shows "row \<in> set (runs_list_schedules sc b) \<longleftrightarrow> stored_schedule b (s_name row) = Some row"
    and "distinct (map s_name (runs_list_schedules sc b))"
proof -
  let ?t = "db_schedules (rows_of b)"
  have u: "unique_key s_name ?t" and sc: "scans_ok sc" using assms by (simp_all add: runs_inv_def wf_db_def)
  have eq: "runs_list_schedules sc b = scan_schedules sc ?t"
    by (simp add: runs_list_schedules_def sqlite_list_schedules_def pg_list_schedules_def pg_select_prj rows_of_def
        split: runs_backend.splits)
  show "row \<in> set (runs_list_schedules sc b) \<longleftrightarrow> stored_schedule b (s_name row) = Some row"
    using sc u by (simp add: eq stored_schedule_def sql_lookup_iff)
  have "mset (scan_schedules sc ?t) = mset ?t" using sc by (simp add: scans_ok_def)
  then show "distinct (map s_name (runs_list_schedules sc b))"
    using u unfolding unique_key_def eq by (metis mset_eq_imp_distinct_iff mset_map)
qed

lemma enqueue_effect:
  assumes inv: "runs_inv sc b" and now: "now < i64_max"
    and exq: "runs_exec c sc now fresh (Op_enqueue name p opts) b = (resp, b')" and oid: "o_id opts = Some i"
  shows "runs_inv sc b' \<and> stored_schedule b' = stored_schedule b
    \<and> (\<forall>j. j \<noteq> i \<longrightarrow> stored_run b' j = stored_run b j)
    \<and> (case resp of
         Inl _ \<Rightarrow> stored_run b' = stored_run b
       | Inr _ \<Rightarrow> (case stored_run b i of
            Some r \<Rightarrow> stored_run b' i = Some r \<and> r_name r = name
          | None \<Rightarrow> \<exists>js. to_string c p = Some js \<and> stored_run b' i = Some (new_run now i name js opts)))"
proof -
  have ct: "contract op_accepts c now fresh (Op_enqueue name p opts) (runs_view b) resp (runs_view b')"
    and inv': "runs_inv sc b'" using runs_exec_implements [OF inv now exq] by blast+
  note rv = stored_run_view [OF inv] stored_run_view [OF inv']
  have same: "as_runs (runs_view b') = as_runs (runs_view b) \<Longrightarrow> stored_run b' = stored_run b"
    using rv by (simp add: fun_eq_iff)
  have nr: "row_of i (a_new now name js opts) = new_run now i name js opts" for js
    by (simp add: row_of_def a_new_def new_run_def)
  have "as_schedules (runs_view b') = as_schedules (runs_view b)"
    using ct oid by (auto simp: contract_def Let_def split: if_splits option.splits)
  then have sched: "stored_schedule b' = stored_schedule b" by (simp add: fun_eq_iff stored_schedule_view)
  show ?thesis
  proof (cases "as_runs (runs_view b) i = None \<and> (\<exists>x. resp = Inr x)")
    case False
    then have v: "runs_view b' = runs_view b"
      using ct oid by (auto simp: contract_def Let_def split: if_splits option.splits)
    then have "stored_run b' = stored_run b" by (simp add: same)
    moreover have "r_name r = name" if "resp = Inr x" "stored_run b i = Some r" for x r
      using that ct oid v
      by (auto simp: contract_def Let_def view_of_stored abs_run_def check_existing_run_def
          split: if_splits option.splits)
    moreover have "stored_run b i \<noteq> None" if "resp = Inr x" for x
      using that False by (auto simp: view_stored_run)
    ultimately show ?thesis using inv' sched by (auto split: sum.splits option.splits)
  next
    case True
    then obtain js where js: "to_string c p = Some js" and none: "as_runs (runs_view b) i = None"
        and v': "runs_view b' = (runs_view b)\<lparr>as_runs := (as_runs (runs_view b))(i \<mapsto> a_new now name js opts)\<rparr>"
        and resp: "\<exists>x. resp = Inr x"
      using ct oid by (auto simp: contract_def Let_def split: if_splits option.splits)
    have "stored_run b i = None" using none by (simp add: view_stored_run)
    moreover have "stored_run b' i = Some (new_run now i name js opts)"
      unfolding rv(2) v' using nr by simp
    moreover have "stored_run b' j = stored_run b j" if "j \<noteq> i" for j
      unfolding rv v' using that by simp
    ultimately show ?thesis using inv' sched js resp by auto
  qed
qed

lemma set_schedule_effect:
  fixes c :: "'j codec"
  assumes inv: "runs_inv sc b" and now: "now < i64_max"
    and exq: "runs_exec c sc now fresh (Op_set_schedule n ts) b = (resp, b')"
  shows "resp = Inr Ok_unit \<and> runs_inv sc b' \<and> stored_run b' = stored_run b
    \<and> stored_schedule b' = (\<lambda>m. map_option (\<lambda>s. if m = n then s\<lparr>s_last_run_at := Some ts\<rparr> else s) (stored_schedule b m))"
proof -
  have ct: "contract op_accepts c now fresh (Op_set_schedule n ts) (runs_view b) resp (runs_view b')"
    and inv': "runs_inv sc b'" using runs_exec_implements [OF inv now exq] by blast+
  then have r: "resp = Inr Ok_unit" "as_runs (runs_view b') = as_runs (runs_view b)"
    by (auto simp: contract_def op_accepts_def split: option.splits)
  have "stored_run b' = stored_run b"
    using r(2) stored_run_view [OF inv] stored_run_view [OF inv'] by (simp add: fun_eq_iff)
  moreover have "stored_schedule b' m = map_option (\<lambda>s. if m = n then s\<lparr>s_last_run_at := Some ts\<rparr> else s) (stored_schedule b m)" for m
    unfolding stored_schedule_view
    using ct by (cases "m = n"; cases "as_schedules (runs_view b) m"; cases "as_schedules (runs_view b) n")
      (auto simp: contract_def op_accepts_def)
  ultimately show ?thesis using r(1) inv' by blast
qed


section \<open>A tick, row by row\<close>

definition fired :: "'sch cron_lib \<Rightarrow> int \<Rightarrow> schedule_row \<Rightarrow> int option" where
  "fired lib now row = (case due_bucket lib now row of Some r \<Rightarrow> r | None \<Rightarrow> None)"

text \<open>The row of a schedule after a tick at \<open>now\<close>.\<close>

definition ticked :: "'sch cron_lib \<Rightarrow> int \<Rightarrow> schedule_row \<Rightarrow> schedule_row" where
  "ticked lib now row = (case fired lib now row of Some t \<Rightarrow> row\<lparr>s_last_run_at := Some t\<rparr> | None \<Rightarrow> row)"

lemma ticked_name [simp]: "s_name (ticked lib now row) = s_name row"
  by (simp add: ticked_def split: option.splits)

lemma cron_id_inj: "cron_id n t = cron_id m u \<longleftrightarrow> n = m \<and> t = u"
proof
  assume "cron_id n t = cron_id m u"
  then have eq: "new_claim_owner n (show_i64 t) = new_claim_owner m (show_i64 u)"
    by (simp add: cron_id_def new_claim_owner_def)
  then have "n = m" using process_worker_new [OF show_i64_no_colon] by metis
  moreover with eq have "show_i64 t = show_i64 u" by (simp add: new_claim_owner_def)
  ultimately show "n = m \<and> t = u" using show_i64_inj by blast
qed simp

lemma fire_effect:
  assumes inv: "runs_inv sc b" and now: "wall < i64_max"
    and exq: "fire c sc obj wall fresh name t b = (Inr x, b')"
  shows "runs_inv sc b'"
    and "stored_schedule b' = (\<lambda>m. map_option (\<lambda>s. if m = name then s\<lparr>s_last_run_at := Some t\<rparr> else s) (stored_schedule b m))"
    and "stored_run b' i = (if i = cron_id name t \<and> stored_run b i = None
           then Some (new_run wall i name (the (to_string c obj)) (cron_opts name t)) else stored_run b i)"
    and "\<exists>r. stored_run b' (cron_id name t) = Some r \<and> r_name r = name"
proof -
  obtain y b1 where e1: "runs_exec c sc wall fresh (Op_enqueue name obj (cron_opts name t)) b = (Inr y, b1)"
      and e2: "runs_exec c sc wall fresh (Op_set_schedule name t) b1 = (Inr x, b')"
    using exq by (auto simp: fire_def split: prod.splits sum.splits)
  have oid: "o_id (cron_opts name t) = Some (cron_id name t)" by (simp add: cron_opts_def)
  note en = enqueue_effect [OF inv now e1 oid]
  then have inv1: "runs_inv sc b1" by blast
  note st = set_schedule_effect [OF inv1 now e2]
  show "runs_inv sc b'" using st by blast
  show "stored_schedule b' = (\<lambda>m. map_option (\<lambda>s. if m = name then s\<lparr>s_last_run_at := Some t\<rparr> else s) (stored_schedule b m))"
    using en st by simp
  show "stored_run b' i = (if i = cron_id name t \<and> stored_run b i = None
           then Some (new_run wall i name (the (to_string c obj)) (cron_opts name t)) else stored_run b i)"
    using en st by (cases "i = cron_id name t") (auto split: option.splits)
  show "\<exists>r. stored_run b' (cron_id name t) = Some r \<and> r_name r = name"
    using en st by (auto simp: new_run_def split: option.splits)
qed

lemma tick_rows_due:
  assumes "due_bucket lib now row = Some (Some t)"
    and "tick_rows lib c sc obj wall fresh now (row # rows) n b = Some (Inr m, b')"
  obtains x b1 where "fire c sc obj wall fresh (s_name row) t b = (Inr x, b1)"
    "tick_rows lib c sc obj wall fresh now rows (n + 1) b1 = Some (Inr m, b')"
  using assms by (auto split: prod.splits sum.splits)

lemma tick_rows_schedules:
  assumes "cron_ok lib B" "wall < i64_max" "runs_inv sc b" "distinct (map s_name rows)"
    and "tick_rows lib c sc obj wall fresh now rows n b = Some (Inr m, b')"
    and "\<And>row. row \<in> set rows \<Longrightarrow> stored_schedule b (s_name row) = Some row"
  shows "runs_inv sc b' \<and> m = n + length (filter (\<lambda>row. fired lib now row \<noteq> None) rows)
    \<and> (\<forall>row \<in> set rows. stored_schedule b' (s_name row) = Some (ticked lib now row))
    \<and> (\<forall>nm. nm \<notin> s_name ` set rows \<longrightarrow> stored_schedule b' nm = stored_schedule b nm)"
  using assms(3-)
proof (induction rows arbitrary: n b)
  case Nil
  then show ?case by simp
next
  case (Cons row rows)
  show ?case
  proof (cases rule: due_bucket_total [OF assms(1), of now row, case_names idle due])
    case idle
    then have f: "fired lib now row = None" by (simp add: fired_def)
    have "runs_inv sc b' \<and> m = n + length (filter (\<lambda>row. fired lib now row \<noteq> None) rows)
      \<and> (\<forall>row \<in> set rows. stored_schedule b' (s_name row) = Some (ticked lib now row))
      \<and> (\<forall>nm. nm \<notin> s_name ` set rows \<longrightarrow> stored_schedule b' nm = stored_schedule b nm)"
      using Cons.prems idle(1) by (intro Cons.IH) auto
    then show ?thesis using f Cons.prems by (auto simp: ticked_def)
  next
    case (due t sch)
    then have f: "fired lib now row = Some t" by (simp add: fired_def)
    obtain x b1 where fe: "fire c sc obj wall fresh (s_name row) t b = (Inr x, b1)"
        and rest: "tick_rows lib c sc obj wall fresh now rows (n + 1) b1 = Some (Inr m, b')"
      using tick_rows_due [OF due(1) Cons.prems(3)] by blast
    note eff = fire_effect [OF Cons.prems(1) assms(2) fe]
    have "runs_inv sc b' \<and> m = n + 1 + length (filter (\<lambda>row. fired lib now row \<noteq> None) rows)
      \<and> (\<forall>row \<in> set rows. stored_schedule b' (s_name row) = Some (ticked lib now row))
      \<and> (\<forall>nm. nm \<notin> s_name ` set rows \<longrightarrow> stored_schedule b' nm = stored_schedule b1 nm)"
      using Cons.prems by (intro Cons.IH [OF eff(1) _ rest]) (auto simp: eff(2) rev_image_eqI)
    then show ?thesis using f Cons.prems eff(2) by (auto simp: ticked_def option.map_ident)
  qed
qed


lemma tick_rows_runs:
  assumes "cron_ok lib B" "wall < i64_max" "runs_inv sc b"
    and "tick_rows lib c sc obj wall fresh now rows n b = Some (Inr m, b')"
  shows "(case stored_run b i of Some r \<Rightarrow> stored_run b' i = Some r
      | None \<Rightarrow> (case stored_run b' i of None \<Rightarrow> True
         | Some r \<Rightarrow> \<exists>row \<in> set rows. \<exists>t. fired lib now row = Some t \<and> i = cron_id (s_name row) t
             \<and> r = new_run wall i (s_name row) (the (to_string c obj)) (cron_opts (s_name row) t)))
    \<and> (\<forall>row \<in> set rows. \<forall>t. fired lib now row = Some t \<longrightarrow>
         (\<exists>r. stored_run b' (cron_id (s_name row) t) = Some r \<and> r_name r = s_name row))
    \<and> (\<forall>j r. stored_run b j = Some r \<longrightarrow> stored_run b' j = Some r)"
  using assms(3-)
proof (induction rows arbitrary: n b)
  case Nil
  then show ?case by (simp split: option.splits)
next
  case (Cons row rows)
  show ?case
  proof (cases rule: due_bucket_total [OF assms(1), of now row, case_names idle due])
    case idle
    then have f: "fired lib now row = None" by (simp add: fired_def)
    have tl: "tick_rows lib c sc obj wall fresh now rows n b = Some (Inr m, b')"
      using Cons.prems idle(1) by simp
    from Cons.IH [OF Cons.prems(1) tl] show ?thesis using f by (auto split: option.splits)
  next
    case (due t sch)
    then have f: "fired lib now row = Some t" by (simp add: fired_def)
    obtain x b1 where fe: "fire c sc obj wall fresh (s_name row) t b = (Inr x, b1)"
        and rest: "tick_rows lib c sc obj wall fresh now rows (n + 1) b1 = Some (Inr m, b')"
      using tick_rows_due [OF due(1) Cons.prems(2)] by blast
    note eff = fire_effect [OF Cons.prems(1) assms(2) fe]
    note ih = Cons.IH [OF eff(1) rest]
    have old: "stored_run b j = Some r \<Longrightarrow> stored_run b' j = Some r" for j r
      using ih eff(3) [of j] by (auto split: option.splits)
    have head: "\<exists>r. stored_run b' (cron_id (s_name row) t) = Some r \<and> r_name r = s_name row"
      using ih eff(4) by (auto split: option.splits)
    have "\<exists>row' \<in> set (row # rows). \<exists>t. fired lib now row' = Some t \<and> i = cron_id (s_name row') t
        \<and> r = new_run wall i (s_name row') (the (to_string c obj)) (cron_opts (s_name row') t)"
      if "stored_run b i = None" "stored_run b' i = Some r" for r
    proof (cases "i = cron_id (s_name row) t")
      case True
      then have "stored_run b1 i = Some (new_run wall i (s_name row) (the (to_string c obj)) (cron_opts (s_name row) t))"
        using eff(3) [of i] that(1) by simp
      then have "r = new_run wall i (s_name row) (the (to_string c obj)) (cron_opts (s_name row) t)"
        using ih that(2) by (auto split: option.splits)
      then show ?thesis using True f by auto
    next
      case False
      then have "stored_run b1 i = None" using eff(3) [of i] that(1) by simp
      then show ?thesis using ih that(2) by (auto split: option.splits)
    qed
    then show ?thesis using old head ih f by (auto split: option.splits)
  qed
qed

section \<open>Ticks and the runs in flight\<close>

lemma fire_held:
  assumes inv: "runs_inv sc b" and now: "wall < i64_max"
    and exq: "fire c sc obj wall fresh name t b = (resp, b')"
  shows "runs_inv sc b' \<and> held_by b' = held_by b"
proof -
  obtain y b1 where e1: "runs_exec c sc wall fresh (Op_enqueue name obj (cron_opts name t)) b = (y, b1)" by fastforce
  have oid: "o_id (cron_opts name t) = Some (cron_id name t)" by (simp add: cron_opts_def)
  note en = enqueue_effect [OF inv now e1 oid]
  then have inv1: "runs_inv sc b1" by blast
  have "(\<exists>r. stored_run b1 i = Some r \<and> r_status r = Running \<and> r_worker_id r = Some own) \<longleftrightarrow>
      (\<exists>r. stored_run b i = Some r \<and> r_status r = Running \<and> r_worker_id r = Some own)" for i own
    using en by (cases "i = cron_id name t") (auto simp: new_run_def split: sum.splits option.splits)
  then have h1: "held_by b1 = held_by b" by (simp add: held_by_def fun_eq_iff)
  show ?thesis
  proof (cases y)
    case Inl
    then show ?thesis using exq e1 inv1 h1 by (simp add: fire_def)
  next
    case Inr
    then have e2: "runs_exec c sc wall fresh (Op_set_schedule name t) b1 = (resp, b')"
      using exq e1 by (simp add: fire_def)
    show ?thesis using set_schedule_effect [OF inv1 now e2] h1 by (simp add: held_by_def fun_eq_iff)
  qed
qed

lemma tick_rows_total:
  assumes "cron_ok lib B" "wall < i64_max" "runs_inv sc b"
  shows "\<exists>res b'. tick_rows lib c sc obj wall fresh now rows n b = Some (res, b')
    \<and> runs_inv sc b' \<and> held_by b' = held_by b"
  using assms(3)
proof (induction rows arbitrary: n b)
  case (Cons row rows)
  show ?case
  proof (cases rule: due_bucket_total [OF assms(1), of now row, case_names idle due])
    case idle
    then show ?thesis using Cons by simp
  next
    case (due t sch)
    obtain resp b1 where fe: "fire c sc obj wall fresh (s_name row) t b = (resp, b1)" by fastforce
    note h = fire_held [OF Cons.prems assms(2) fe]
    then have "\<exists>res b'. tick_rows lib c sc obj wall fresh now rows (n + 1) b1 = Some (res, b')
        \<and> runs_inv sc b' \<and> held_by b' = held_by b1" by (intro Cons.IH) blast
    then show ?thesis using due(1) fe h by (cases resp) auto
  qed
qed simp

text \<open>How many claims of an owner the cache knows; releasing takes one away per release.\<close>

definition cached :: "in_flight_limiter \<Rightarrow> string \<Rightarrow> nat" where
  "cached lim own = (case map_of (claims lim) own of Some n \<Rightarrow> unat n | None \<Rightarrow> 0)"

lemma cached_release:
  assumes "distinct (map fst (claims lim))"
  shows "cached (release_claim o' lim) own = cached lim own - (if own = o' then 1 else 0)"
    and "distinct (map fst (claims (release_claim o' lim)))"
proof -
  have one: "unat n - 1 = 0" if "\<not> 1 < n" for n :: "32 word"
    using that by (simp add: word_less_nat_alt not_less)
  show "cached (release_claim o' lim) own = cached lim own - (if own = o' then 1 else 0)"
  proof (cases "map_of (claims lim) o'")
    case (Some n)
    show ?thesis
    proof (cases "1 < n")
      case True
      then have "unat (n - 1) = unat n - 1" by (intro unat_minus_one) auto
      then show ?thesis using True Some by (simp add: cached_def release_claim_def update_conv')
    next
      case False
      then show ?thesis using one [OF False] Some by (simp add: cached_def release_claim_def delete_conv' split: option.splits)
    qed
  qed (simp add: cached_def release_claim_def)
  show "distinct (map fst (claims (release_claim o' lim)))"
    using assms by (simp add: release_claim_def distinct_update distinct_delete split: option.splits)
qed

lemma cached_releases:
  assumes "distinct (map fst (claims lim))"
  shows "cached (fold release_claim ws lim) own = cached lim own - count_list ws own
    \<and> distinct (map fst (claims (fold release_claim ws lim)))"
  using assms by (induction ws arbitrary: lim) (auto simp: cached_release)

lemma held_view:
  assumes "runs_inv sc b"
  shows "i \<in> held_by b own \<longleftrightarrow> (\<exists>ar l. as_runs (runs_view b) i = Some ar \<and> a_phase ar = Held own l)"
    and "as_runs (runs_view b) i = Some ar \<Longrightarrow> a_phase ar = Held own l \<Longrightarrow> the (r_lease_until (the (stored_run b i))) = l"
proof -
  have row: "abs_phase (rows_of b) r = Held own l \<longleftrightarrow> r_status r = Running \<and> r_worker_id r = Some own \<and> r_lease_until r = Some l"
    if "stored_run b i = Some r" for r own l
    using stored_run_ok [OF assms that] by (auto simp: row_ok_def abs_phase_def terminal_def split: run_status.splits option.splits)
  have ok: "r_lease_until r \<noteq> None" if "stored_run b i = Some r" "r_status r = Running" for r
    using stored_run_ok [OF assms that(1)] that(2) by (auto simp: row_ok_def)
  show "i \<in> held_by b own \<longleftrightarrow> (\<exists>ar l. as_runs (runs_view b) i = Some ar \<and> a_phase ar = Held own l)"
    using row ok by (fastforce simp: held_by_def view_stored_run abs_run_def)
  show "as_runs (runs_view b) i = Some ar \<Longrightarrow> a_phase ar = Held own l \<Longrightarrow> the (r_lease_until (the (stored_run b i))) = l"
    using row by (auto simp: view_stored_run abs_run_def)
qed

lemma reclaim_held:
  "a_phase (a_reclaim now r) = Held own l \<longleftrightarrow> a_phase r = Held own l \<and> now \<le> l"
  "a_phase r = Held own l \<Longrightarrow> now \<le> l \<Longrightarrow> a_reclaim now r = r"
  by (cases "a_phase r"; simp add: a_reclaim_def a_expired_def; auto)+

lemma a_expired_iff: "a_expired now r \<longleftrightarrow> (\<exists>w l. a_phase r = Held w l \<and> l < now)"
  by (auto simp: a_expired_def split: phase.splits)

lemma count_image_set:
  assumes "finite A" "mset ws = image_mset f (mset_set A)"
  shows "count_list ws x = card {i \<in> A. f i = x}"
proof -
  have "count_list ws x = count (image_mset f (mset_set A)) x" using assms(2) by (metis count_mset)
  also have "\<dots> = (\<Sum>i | i \<in> A \<and> x = f i. count (mset_set A) i)" using assms(1) by (simp add: count_image_mset')
  also have "\<dots> = card {i \<in> A. f i = x}" using assms(1) by (simp add: eq_commute [of x])
  finally show ?thesis .
qed

lemma reclaim_effect:
  fixes c :: "'j codec"
  assumes inv: "runs_inv sc b" and now: "now < i64_max"
    and exq: "runs_exec c sc now fresh Op_reclaim_with_workers b = (resp, b')"
  shows "\<exists>ws. resp = Inr (Ok_workers ws) \<and> runs_inv sc b'
    \<and> (\<forall>own. held_by b' own = {i \<in> held_by b own. now \<le> the (r_lease_until (the (stored_run b i)))}
        \<and> count_list ws own = card {i \<in> held_by b own. the (r_lease_until (the (stored_run b i))) < now})
    \<and> (\<forall>i own. i \<in> held_by b' own \<longrightarrow> now \<le> the (r_lease_until (the (stored_run b' i))))"
proof -
  let ?s = "runs_view b" and ?s' = "runs_view b'"
  have ct: "contract op_accepts c now fresh Op_reclaim_with_workers ?s resp ?s'"
    and inv': "runs_inv sc b'" using runs_exec_implements [OF inv now exq] by blast+
  then obtain ws where s': "?s' = a_map_runs (a_reclaim now) ?s" and ws: "resp = Inr (Ok_workers ws)"
      and ms: "mset ws = image_mset (a_holder ?s) (mset_set (a_ids (a_expired now) ?s))"
    by (auto simp: contract_def op_accepts_def)
  have held': "as_runs ?s' i = Some ar \<and> a_phase ar = Held own l \<longleftrightarrow>
      as_runs ?s i = Some ar \<and> a_phase ar = Held own l \<and> now \<le> l" for i ar own l
    unfolding s' using reclaim_held by (auto simp: a_map_runs_def)
  have h: "held_by b' own = {i \<in> held_by b own. now \<le> the (r_lease_until (the (stored_run b i)))}" for own
  proof (rule set_eqI)
    fix i
    show "i \<in> held_by b' own \<longleftrightarrow> i \<in> {i \<in> held_by b own. now \<le> the (r_lease_until (the (stored_run b i)))}"
      unfolding held_view(1) [OF inv'] mem_Collect_eq held_view(1) [OF inv]
      using held' held_view(2) [OF inv] by metis
  qed
  have ex: "{i \<in> a_ids (a_expired now) ?s. a_holder ?s i = own}
      = {i \<in> held_by b own. the (r_lease_until (the (stored_run b i))) < now}" for own
  proof (rule set_eqI)
    fix i
    have "i \<in> {i \<in> a_ids (a_expired now) ?s. a_holder ?s i = own} \<longleftrightarrow>
        (\<exists>ar l. as_runs ?s i = Some ar \<and> a_phase ar = Held own l \<and> l < now)"
      by (cases "as_runs ?s i") (auto simp: a_ids_def a_expired_iff a_holder_def)
    also have "\<dots> \<longleftrightarrow> i \<in> {i \<in> held_by b own. the (r_lease_until (the (stored_run b i))) < now}"
      unfolding mem_Collect_eq held_view(1) [OF inv] using held_view(2) [OF inv] by metis
    finally show "i \<in> {i \<in> a_ids (a_expired now) ?s. a_holder ?s i = own} \<longleftrightarrow>
        i \<in> {i \<in> held_by b own. the (r_lease_until (the (stored_run b i))) < now}" .
  qed
  have cnt: "count_list ws own = card {i \<in> held_by b own. the (r_lease_until (the (stored_run b i))) < now}" for own
    unfolding ex [symmetric]
  proof (rule count_image_set [OF _ ms])
    have "a_ids (a_expired now) ?s \<subseteq> r_id ` set (db_runs (rows_of b))"
      by (auto simp: a_ids_def view_stored_run stored_run_def image_iff dest!: sql_lookup_SomeD)
    then show "finite (a_ids (a_expired now) ?s)" by (rule finite_subset) simp
  qed
  have fr: "now \<le> the (r_lease_until (the (stored_run b' i)))" if ih: "i \<in> held_by b' own" for i own
  proof -
    obtain ar l where "as_runs ?s' i = Some ar" "a_phase ar = Held own l"
      using ih held_view(1) [OF inv'] by blast
    moreover then have "now \<le> l" using held' by blast
    ultimately show ?thesis using held_view(2) [OF inv'] by simp
  qed
  show ?thesis using ws inv' h cnt fr by blast
qed

section \<open>An instance\<close>

text \<open>Schedules of a fixed period \<open>n + 1\<close>.\<close>

definition ex_next :: "nat \<Rightarrow> int \<Rightarrow> int option" where
  "ex_next n t = Some ((t div (int n + 1) + 1) * (int n + 1))"

definition ex_bounds :: "nat \<Rightarrow> int set" where
  "ex_bounds n = range (\<lambda>k. k * (int n + 1))"

definition ex_lib :: "nat cron_lib" where
  "ex_lib = \<lparr>cl_parse = (\<lambda>s. if s = ''ten'' then Some 9 else None), cl_next = ex_next,
     cl_instant = (\<lambda>_. True), cl_utc_now = 0\<rparr>"

lemma next_multiple:
  fixes p :: int
  assumes "p > 0"
  shows "t < (t div p + 1) * p"
  using pos_mod_bound [OF assms, of t] div_mult_mod_eq [of t p] unfolding distrib_right mult_1 by linarith

lemma div_below_multiple:
  fixes p :: int
  assumes "p > 0" "t < k * p"
  shows "t div p < k"
proof (rule ccontr)
  assume "\<not> t div p < k"
  then have "k * p \<le> t div p * p" using assms(1) by (intro mult_right_mono) auto
  then show False using assms(2) pos_mod_sign [OF assms(1), of t] div_mult_mod_eq [of t p] by linarith
qed

lemma ex_calendar: "calendar (ex_bounds n) (ex_next n)"
proof -
  let ?p = "int n + 1"
  have "?p > 0" by simp
  have lt: "t < (t div ?p + 1) * ?p" for t using \<open>?p > 0\<close> by (rule next_multiple)
  have least: "(t div ?p + 1) * ?p \<le> k * ?p" if "t < k * ?p" for t k
  proof -
    have "t div ?p < k" using \<open>?p > 0\<close> that by (rule div_below_multiple)
    then show ?thesis by (intro mult_right_mono) auto
  qed
  show ?thesis unfolding calendar_def ex_next_def ex_bounds_def option.case using lt least by blast
qed

lemma ex_lib_ok: "cron_ok ex_lib ex_bounds"
  by (simp add: cron_ok_def ex_lib_def ex_calendar)

text \<open>Two schedules registered at 5, of which only the first has an expression the library reads.\<close>

definition ex_cron_ops :: "string trace" where
  "ex_cron_ops = [(5, ''f'', Op_replace_schedules
     [\<lparr>sp_name = ''a'', sp_cron = ''ten''\<rparr>, \<lparr>sp_name = ''b'', sp_cron = ''never''\<rparr>])]"

definition ex_cron_db :: runs_backend where
  "ex_cron_db = run_ops (runs_exec text_codec id_scans) ex_cron_ops (Sqlite empty_db)"

lemma ex_cron_inv: "runs_inv id_scans ex_cron_db"
proof -
  have "clock_ok ex_cron_ops" by code_simp
  then show ?thesis unfolding ex_cron_db_def using empty_inv by (rule run_ops_inv)
qed

abbreviation ex_tick :: "int \<Rightarrow> runs_backend \<Rightarrow> nat tick_result" where
  "ex_tick now b \<equiv> tick_once ex_lib text_codec id_scans ''{}'' now ''f'' now b"

section \<open>Properties\<close>

text \<open>C29. The loop over the boundaries of a schedule ends and finds the latest one that has passed.  If
  the calendar of the expression has a boundary after the start and not after \<open>now\<close>, the result is the
  greatest boundary up to \<open>now\<close>, so a server that was asleep fires once for all it missed; if not,
  there is none.\<close>

theorem latest_boundary_correct:
  assumes "calendar B nxt"
  shows "\<exists>r. latest_boundary nxt now from_ms None = Some r
    \<and> (if \<exists>u \<in> B. from_ms < u \<and> u \<le> now
        then \<exists>t \<in> B. r = Some t \<and> from_ms < t \<and> t \<le> now \<and> (\<forall>u \<in> B. u \<le> now \<longrightarrow> u \<le> t)
        else r = None)"
  using latest_boundary_loop [OF assms, of now from_ms None] by (auto simp: is_latest_def split: if_splits)


theorem latest_boundary_correct_witness:
  "\<exists>t \<in> ex_bounds 9. latest_boundary (ex_next 9) 47 12 None = Some (Some t) \<and> 12 < t \<and> t \<le> 47"
proof -
  have "40 \<in> ex_bounds 9" unfolding ex_bounds_def by (rule range_eqI [of _ _ 4]) simp
  then have "\<exists>u \<in> ex_bounds 9. 12 < u \<and> u \<le> 47" by (rule rev_bexI) simp
  then show ?thesis using latest_boundary_correct [OF ex_calendar [of 9], of 47 12] by auto
qed




text \<open>C31. A tick is not repeated.  A second tick at the same time, after one that returned a count,
  finds every schedule up to date: it enqueues nothing, changes nothing and returns zero.\<close>

theorem tick_idempotent:
  assumes lib: "cron_ok lib B" and wall: "wall < i64_max" and inv: "runs_inv sc b" and inst: "cl_instant lib now"
    and tick: "tick_once lib c sc obj wall fresh now b = Some (Inr m, b')"
  shows "tick_once lib c sc obj wall' fresh' now b' = Some (Inr 0, b')"
proof -
  let ?rows = "runs_list_schedules sc b"
  have tr: "tick_rows lib c sc obj wall fresh now ?rows 0 b = Some (Inr m, b')"
    using tick inst by (simp add: tick_once_def)
  have sync: "row \<in> set ?rows \<Longrightarrow> stored_schedule b (s_name row) = Some row" for row
    using list_schedules_rows(1) [OF inv] by simp
  note sched = tick_rows_schedules [OF lib wall inv list_schedules_rows(2) [OF inv] tr sync]
  then have inv': "runs_inv sc b'" by blast
  have idle: "due_bucket lib now row' = Some None" if "row' \<in> set (runs_list_schedules sc b')" for row'
  proof -
    have st: "stored_schedule b' (s_name row') = Some row'" using that list_schedules_rows(1) [OF inv'] by simp
    have "s_name row' \<in> s_name ` set ?rows"
    proof (rule ccontr)
      assume no: "s_name row' \<notin> s_name ` set ?rows"
      then have "stored_schedule b (s_name row') = Some row'" using sched st by auto
      then show False using no list_schedules_rows(1) [OF inv, of row'] by blast
    qed
    then obtain row where row: "row \<in> set ?rows" "s_name row' = s_name row" by auto
    then have r': "row' = ticked lib now row" using sched st by auto
    show ?thesis
    proof (cases rule: due_bucket_total [OF lib, of now row, case_names idle due])
      case idle
      then show ?thesis using r' by (simp add: ticked_def fired_def)
    next
      case (due t sch)
      then show ?thesis using due_again [OF lib due(1)] r' by (simp add: ticked_def fired_def)
    qed
  qed
  have "tick_rows lib c sc obj wall' fresh' now rows 0 b' = Some (Inr 0, b')"
    if "\<forall>row \<in> set rows. due_bucket lib now row = Some None" for rows
    using that by (induction rows) auto
  then show ?thesis using inst idle by (simp add: tick_once_def)
qed

theorem tick_idempotent_witness:
  "ex_tick 47 (snd (the (ex_tick 47 ex_cron_db))) = Some (Inr 0, snd (the (ex_tick 47 ex_cron_db)))"
proof -
  have e: "ex_tick 47 ex_cron_db = Some (Inr 1, snd (the (ex_tick 47 ex_cron_db)))" by code_simp
  have w: "(47::int) < i64_max" "cl_instant ex_lib 47" by code_simp+
  show ?thesis by (rule tick_idempotent [OF ex_lib_ok w(1) ex_cron_inv w(2) e])
qed

text \<open>One schedule that cannot be enqueued stops the tick for all that are listed after it: here a name
  so long that its run id exceeds the limit of the store.\<close>

lemma tick_blocked_by_long_name:
  assumes "runs_list_schedules sc b = row # rows" "cl_instant lib now"
    and "due_bucket lib now row = Some (Some t)" "length (s_name row) > 248"
  shows "tick_once lib c sc obj wall fresh now b = Some (Inl InvalidId, b)"
proof -
  have "show_i64 t \<noteq> []" by (simp add: show_i64_def show_digits.simps [of t])
  then have "length (cron_id (s_name row) t) > 255"
    using assms(4) by (cases "show_i64 t") (simp_all add: cron_id_def)
  then show ?thesis
    using assms(1-3) by (simp add: tick_once_def fire_def runs_exec_def op_accepts_def cron_opts_def valid_id_def)
qed


text \<open>A tick with a limiter always returns.  Whatever the cron part did (also when it failed),
  afterwards no run is held under a lease that ran out before the store's clock, the cache of the
  limiter still accounts for every running row although the reclaimed claims were released, and the
  claims that were not reclaimed are exactly those still held.\<close>

theorem tick_reclaims_and_covers:
  assumes lib: "cron_ok lib B" and wall: "wall < i64_max" and inv: "runs_inv sc b"
    and cov: "covers (claims lim) b"
  shows "\<exists>wake lim' b'. tick_and_reclaim lib c sc obj wall fresh now (Some lim, b) = Some (wake, Some lim', b')
    \<and> runs_inv sc b' \<and> covers (claims lim') b' \<and> max_per_worker lim' = max_per_worker lim
    \<and> (\<forall>own. held_by b' own \<subseteq> held_by b own)
    \<and> (\<forall>own i. i \<in> held_by b' own \<longrightarrow> wall \<le> the (r_lease_until (the (stored_run b' i))))"
proof -
  obtain res b1 where t1: "tick_once lib c sc obj wall fresh now b = Some (res, b1)"
      and inv1: "runs_inv sc b1" and h1: "held_by b1 = held_by b"
    using tick_rows_total [OF lib wall inv, of c obj fresh "if cl_instant lib now then now else cl_utc_now lib"
        "runs_list_schedules sc b" 0] unfolding tick_once_def Let_def by blast
  obtain resp b2 where e: "runs_exec c sc wall fresh Op_reclaim_with_workers b1 = (resp, b2)" by fastforce
  from reclaim_effect [OF inv1 wall e] obtain ws where ws: "resp = Inr (Ok_workers ws)" and inv2: "runs_inv sc b2"
      and held: "\<And>own. held_by b2 own = {i \<in> held_by b1 own. wall \<le> the (r_lease_until (the (stored_run b1 i)))}"
      and cnt: "\<And>own. count_list ws own = card {i \<in> held_by b1 own. the (r_lease_until (the (stored_run b1 i))) < wall}"
      and fresh: "\<forall>i own. i \<in> held_by b2 own \<longrightarrow> wall \<le> the (r_lease_until (the (stored_run b2 i)))" by blast
  let ?l = "fold release_claim ws lim"
  have d: "distinct (map fst (claims lim))" using cov by (simp add: covers_def)
  note rel = cached_releases [OF d, of ws]
  have "card (held_by b2 own) \<le> cached ?l own" for own
  proof -
    let ?old = "{i \<in> held_by b1 own. the (r_lease_until (the (stored_run b1 i))) < wall}"
    have "held_by b2 own = held_by b1 own - ?old" unfolding held by auto
    then have "card (held_by b2 own) = card (held_by b1 own) - card ?old"
      by (simp add: card_Diff_subset)
    moreover have "card (held_by b1 own) \<le> cached lim own" using cov h1 by (simp add: covers_def cached_def)
    ultimately show ?thesis using rel [of own] cnt [of own] by simp
  qed
  then have cov': "covers (claims ?l) b2" using rel by (simp add: covers_def cached_def)
  have "max_per_worker (fold release_claim ws l) = max_per_worker l" for l :: in_flight_limiter
    by (induction ws arbitrary: l) (auto simp: release_claim_def split: option.splits)
  moreover have "held_by b2 own \<subseteq> held_by b own" for own unfolding held h1 by blast
  moreover have "\<exists>wake. tick_and_reclaim lib c sc obj wall fresh now (Some lim, b) = Some (wake, Some ?l, b2)"
    by (simp add: tick_and_reclaim_def t1 e ws)
  ultimately show ?thesis using inv2 cov' fresh by blast
qed

theorem tick_reclaims_and_covers_witness:
  "\<exists>wake lim' b'. tick_and_reclaim ex_lib text_codec id_scans ''{}'' 500 ''f'' 500
      (Some (rehydrate (runs_in_flight_by_worker ex_store) (limiter_new 4)), ex_store) = Some (wake, Some lim', b')
    \<and> covers (claims lim') b'"
proof -
  have len: "length (db_runs (rows_of ex_store)) = 1" by code_simp
  have "length (db_runs (rows_of ex_store)) < 2 ^ 32" unfolding len by simp
  then have "covers (claims (rehydrate (runs_in_flight_by_worker ex_store) (limiter_new 4))) ex_store"
    using in_flight_covers [OF ex_store_inv] by (simp add: rehydrate_def)
  moreover have "(500::int) < i64_max" by code_simp
  ultimately show ?thesis
    using tick_reclaims_and_covers [OF ex_lib_ok _ ex_store_inv, of 500 _ text_codec "''{}''" "''f''" 500] by blast
qed

end
