(* ===== verification/Request_Drain.thy ===== *)
theory Request_Drain
  imports Prelude
begin

text \<open>
  Admission of requests and shutdown of their connections
  (\<^verbatim>\<open>tako-server/src/request_drain.rs\<close>).  The registry is one locked state; its operations
  are functions on it, and the calls of concurrent requests are sequences of them.  A request holds a
  guard from its registration to its drop: \<open>drain_step\<close> lets only live guards act, as
  ownership does in the code.  Shutting a transport down is an effect on the operating system; the
  operations return the transports they shut down.
\<close>

section \<open>The registry\<close>

definition MAX_ACTIVE_REQUESTS :: nat where
  "MAX_ACTIVE_REQUESTS = 65536"

datatype admission = Admission_Open | Admission_Draining

record 't entry =
  transport :: "'t option"
  long_lived :: bool
  shutdown_requested :: bool

definition entry_shutdown :: "'t entry \<Rightarrow> 't list \<times> 't entry" where
  "entry_shutdown e =
     (if shutdown_requested e then ([], e)
      else case transport e of
             None \<Rightarrow> ([], e)
           | Some t \<Rightarrow> ([t], e\<lparr>shutdown_requested := True\<rparr>))"

text \<open>The ordered map of active requests, by ascending id.\<close>

record 't drain_state =
  admission :: admission
  next_id :: "64 word"
  active :: "(64 word \<times> 't entry) list"

definition drain_default :: "'t drain_state" where
  "drain_default = \<lparr>admission = Admission_Open, next_id = 0, active = []\<rparr>"

fun btree_insert :: "64 word \<Rightarrow> 'v \<Rightarrow> (64 word \<times> 'v) list \<Rightarrow> (64 word \<times> 'v) list" where
  "btree_insert k v [] = [(k, v)]"
| "btree_insert k v ((k', v') # m) =
     (if k < k' then (k, v) # (k', v') # m
      else if k = k' then (k, v) # m
      else (k', v') # btree_insert k v m)"

definition checked_succ :: "64 word \<Rightarrow> 64 word option" where
  "checked_succ n = (if n = - 1 then None else Some (n + 1))"

definition register_transport ::
    "'t option \<Rightarrow> 't drain_state \<Rightarrow> 64 word option \<times> 't drain_state" where
  "register_transport tr s =
     (if admission s = Admission_Draining \<or> length (active s) \<ge> MAX_ACTIVE_REQUESTS then (None, s)
      else case checked_succ (next_id s) of
             None \<Rightarrow> (None, s)
           | Some i \<Rightarrow>
               (Some i, s\<lparr>next_id := i, active := btree_insert i
                  \<lparr>transport = tr, long_lived = False, shutdown_requested = False\<rparr> (active s)\<rparr>))"

definition active_count :: "'t drain_state \<Rightarrow> nat" where
  "active_count s = length (active s)"

text \<open>Shut down the entries that satisfy a predicate, in key order.\<close>

definition shutdown_where ::
    "('t entry \<Rightarrow> bool) \<Rightarrow> (64 word \<times> 't entry) list \<Rightarrow> 't list \<times> (64 word \<times> 't entry) list" where
  "shutdown_where P m =
     (concat (map (\<lambda>(_, e). if P e then fst (entry_shutdown e) else []) m),
      map (\<lambda>(i, e). (i, if P e then snd (entry_shutdown e) else e)) m)"

definition begin_drain :: "'t drain_state \<Rightarrow> 't list \<times> 't drain_state" where
  "begin_drain s = (let (closed, m) = shutdown_where long_lived (active s)
     in (closed, s\<lparr>admission := Admission_Draining, active := m\<rparr>))"

definition force_drain :: "'t drain_state \<Rightarrow> nat \<times> 't list \<times> 't drain_state" where
  "force_drain s = (let (closed, m) = shutdown_where (\<lambda>_. True) (active s)
     in (sum_list (map (\<lambda>(_, e). length (fst (entry_shutdown e))) (active s)), closed,
         s\<lparr>admission := Admission_Draining, active := m\<rparr>))"

definition resume :: "'t drain_state \<Rightarrow> bool \<times> 't drain_state" where
  "resume s = (if active s \<noteq> [] then (False, s) else (True, s\<lparr>admission := Admission_Open\<rparr>))"

definition mark_long_lived :: "64 word \<Rightarrow> 't drain_state \<Rightarrow> 't list \<times> 't drain_state" where
  "mark_long_lived i s = (case map_of (active s) i of
     None \<Rightarrow> ([], s)
   | Some e \<Rightarrow>
       let e1 = e\<lparr>long_lived := True\<rparr>;
           (closed, e2) = (if admission s = Admission_Draining then entry_shutdown e1 else ([], e1))
       in (closed, s\<lparr>active := btree_insert i e2 (active s)\<rparr>))"

definition drop_guard :: "64 word \<Rightarrow> 't drain_state \<Rightarrow> 't drain_state" where
  "drop_guard i s = s\<lparr>active := filter (\<lambda>(j, _). j \<noteq> i) (active s)\<rparr>"

section \<open>Requests and their guards\<close>

datatype 't drain_event =
    Registered "'t option" "64 word"
  | Rejected "'t option"
  | Marked "64 word" "'t list"
  | Dropped "64 word"
  | Drain_begun "'t list"
  | Drain_forced nat "'t list"
  | Resumed bool

type_synonym 't guarded = "'t drain_state \<times> 64 word set"

inductive drain_step :: "'t guarded \<Rightarrow> 't drain_event \<Rightarrow> 't guarded \<Rightarrow> bool" where
  Register: "register_transport tr s = (Some i, s') \<Longrightarrow> drain_step (s, G) (Registered tr i) (s', insert i G)"
| Reject: "register_transport tr s = (None, s') \<Longrightarrow> drain_step (s, G) (Rejected tr) (s', G)"
| Mark: "i \<in> G \<Longrightarrow> mark_long_lived i s = (closed, s') \<Longrightarrow> drain_step (s, G) (Marked i closed) (s', G)"
| Drop: "i \<in> G \<Longrightarrow> drain_step (s, G) (Dropped i) (drop_guard i s, G - {i})"
| Begin: "begin_drain s = (closed, s') \<Longrightarrow> drain_step (s, G) (Drain_begun closed) (s', G)"
| Force: "force_drain s = (n, closed, s') \<Longrightarrow> drain_step (s, G) (Drain_forced n closed) (s', G)"
| Resume: "resume s = (ok, s') \<Longrightarrow> drain_step (s, G) (Resumed ok) (s', G)"

inductive drain_run :: "'t guarded \<Rightarrow> 't drain_event list \<Rightarrow> 't guarded \<Rightarrow> bool" where
  Nil: "drain_run g [] g"
| Step: "drain_run g es g1 \<Longrightarrow> drain_step g1 e g2 \<Longrightarrow> drain_run g (es @ [e]) g2"

inductive_cases registeredE: "drain_step g (Registered tr i) g'"

text \<open>What holds of every registry: its entries belong to the live guards, in key order, below
  \<open>next_id\<close> and within the bound; while draining, a long-lived connection has been shut down.\<close>

definition drain_ok :: "'t guarded \<Rightarrow> bool" where
  "drain_ok = (\<lambda>(s, G). sorted (map fst (active s)) \<and> distinct (map fst (active s)) \<and> set (map fst (active s)) = G
     \<and> (\<forall>i \<in> G. 0 < i \<and> i \<le> next_id s) \<and> length (active s) \<le> MAX_ACTIVE_REQUESTS
     \<and> (admission s = Admission_Draining \<longrightarrow>
          (\<forall>(i, e) \<in> set (active s). long_lived e \<and> transport e \<noteq> None \<longrightarrow> shutdown_requested e)))"

subsection \<open>The ordered map\<close>

lemma btree_insert_set: "fst ` set (btree_insert k v m) = insert k (fst ` set m)"
  by (induction k v m rule: btree_insert.induct) auto

lemma btree_insert_sorted:
  "sorted (map fst m) \<Longrightarrow> distinct (map fst m) \<Longrightarrow>
     sorted (map fst (btree_insert k v m)) \<and> distinct (map fst (btree_insert k v m))"
proof (induction k v m rule: btree_insert.induct)
  case (2 k v k' v' m)
  have "k' \<le> x" if "x \<in> fst ` set (btree_insert k v m)" "k' < k" for x
    using that 2(2) unfolding btree_insert_set by auto
  moreover have "k' \<notin> fst ` set (btree_insert k v m)" if "k' < k"
    using that 2(3) unfolding btree_insert_set by auto
  ultimately show ?case using 2 by (auto simp: not_less order.strict_iff_order)
qed auto

lemma map_of_btree_insert:
  "sorted (map fst m) \<Longrightarrow> map_of (btree_insert k v m) = (map_of m)(k \<mapsto> v)"
  by (induction k v m rule: btree_insert.induct) (auto simp: fun_eq_iff)

lemma btree_insert_length:
  "sorted (map fst m) \<Longrightarrow> distinct (map fst m) \<Longrightarrow> length (btree_insert k v m) = length m + (if k \<in> fst ` set m then 0 else 1)"
proof (induction k v m rule: btree_insert.induct)
  case (2 k v k' v' m)
  then show ?case by auto
qed auto


lemma btree_insert_subset: "set (btree_insert k v m) \<subseteq> insert (k, v) (set m)"
  by (induction k v m rule: btree_insert.induct) auto

subsection \<open>The invariant\<close>

definition closed_ok :: "'t entry \<Rightarrow> bool" where
  "closed_ok e = (long_lived e \<and> transport e \<noteq> None \<longrightarrow> shutdown_requested e)"

lemma drain_ok_alt:
  "drain_ok (s, G) \<longleftrightarrow> sorted (map fst (active s)) \<and> distinct (map fst (active s)) \<and> fst ` set (active s) = G
     \<and> (\<forall>i \<in> G. 0 < i \<and> i \<le> next_id s) \<and> length (active s) \<le> MAX_ACTIVE_REQUESTS
     \<and> (admission s = Admission_Draining \<longrightarrow> (\<forall>x \<in> set (active s). closed_ok (snd x)))"
  by (auto simp: drain_ok_def closed_ok_def)

lemma entry_shutdown_closed: "closed_ok (snd (entry_shutdown e))"
  by (simp add: entry_shutdown_def closed_ok_def split: option.splits)

lemma shutdown_where_keys: "map fst (snd (shutdown_where P m)) = map fst m"
  by (simp add: shutdown_where_def comp_def case_prod_beta)

lemma shutdown_where_closed:
  assumes "\<And>e. long_lived e \<Longrightarrow> P e" "x \<in> set (snd (shutdown_where P m))"
  shows "closed_ok (snd x)"
proof -
  obtain i e where "(i, e) \<in> set m" "snd x = (if P e then snd (entry_shutdown e) else e)"
    using assms(2) by (auto simp: shutdown_where_def)
  then show ?thesis using assms(1) [of e] entry_shutdown_closed [of e] by (auto simp: closed_ok_def)
qed

lemma shutdown_ok:
  assumes ok: "drain_ok (s, G)" and P: "\<And>e. long_lived e \<Longrightarrow> P e"
  shows "drain_ok (s\<lparr>admission := Admission_Draining, active := snd (shutdown_where P (active s))\<rparr>, G)"
proof -
  let ?m = "snd (shutdown_where P (active s))"
  have keys: "map fst ?m = map fst (active s)" by (rule shutdown_where_keys)
  then have "fst ` set ?m = fst ` set (active s)" "length ?m = length (active s)"
    by (metis list.set_map, metis length_map)
  moreover have "closed_ok (snd x)" if "x \<in> set ?m" for x using P that by (rule shutdown_where_closed)
  ultimately show ?thesis using ok keys by (simp add: drain_ok_alt)
qed

lemma checked_succ_gt: "checked_succ n = Some i \<Longrightarrow> n < i"
proof -
  assume "checked_succ n = Some i"
  then have ne: "n \<noteq> - 1" and i: "i = n + 1" by (auto simp: checked_succ_def split: if_splits)
  have m1: "unat (- 1 :: 64 word) = 2 ^ 64 - 1"
    by (simp add: unsigned_minus_1_eq_mask mask_eq_exp_minus_1)
  have "unat n \<noteq> 2 ^ 64 - 1" using ne unfolding m1 [symmetric] word_unat_eq_iff .
  moreover have "unat n < 2 ^ 64" using unsigned_less [of n] by simp
  ultimately show "n < i" by (simp add: i word_less_nat_alt unat_word_ariths)
qed

lemma register_ok:
  assumes ok: "drain_ok (s, G)" and reg: "register_transport tr s = (Some i, s')"
  shows "drain_ok (s', insert i G)" "next_id s < i" "next_id s' = i" "admission s = Admission_Open"
proof -
  let ?e = "\<lparr>transport = tr, long_lived = False, shutdown_requested = False\<rparr>"
  have c: "checked_succ (next_id s) = Some i" and adm: "admission s = Admission_Open"
      and room: "length (active s) < MAX_ACTIVE_REQUESTS"
      and s': "s' = s\<lparr>next_id := i, active := btree_insert i ?e (active s)\<rparr>"
    using reg by (auto simp: register_transport_def split: if_splits option.splits intro: admission.exhaust)
  show "next_id s < i" by (rule checked_succ_gt [OF c])
  show "next_id s' = i" "admission s = Admission_Open" by (simp_all add: s' adm)
  have bound: "0 < j \<and> j \<le> next_id s" if "j \<in> fst ` set (active s)" for j
    using ok that unfolding drain_ok_alt by blast
  then have "i \<notin> fst ` set (active s)" using \<open>next_id s < i\<close> leD by blast
  then have "length (btree_insert i ?e (active s)) \<le> MAX_ACTIVE_REQUESTS"
    using ok room by (simp add: drain_ok_alt btree_insert_length)
  moreover have "\<forall>j \<in> insert i G. 0 < j \<and> j \<le> i"
  proof
    fix j assume "j \<in> insert i G"
    moreover have "0 < i" using \<open>next_id s < i\<close> word_zero_le [of "next_id s"] by (rule le_less_trans [rotated])
    moreover have "0 < j \<and> j \<le> i" if "j \<in> G"
    proof -
      have "j \<in> fst ` set (active s)" using ok that by (simp add: drain_ok_alt)
      from bound [OF this] show ?thesis using \<open>next_id s < i\<close> order_trans less_imp_le by blast
    qed
    ultimately show "0 < j \<and> j \<le> i" by auto
  qed
  ultimately show "drain_ok (s', insert i G)"
    using ok adm btree_insert_sorted [of "active s" i ?e] by (auto simp: drain_ok_alt s' btree_insert_set)
qed


lemma mark_ok:
  assumes ok: "drain_ok (s, G)" and mark: "mark_long_lived i s = (closed, s')"
  shows "drain_ok (s', G) \<and> admission s' = admission s"
proof (cases "map_of (active s) i")
  case None
  then show ?thesis using assms by (simp add: mark_long_lived_def)
next
  case (Some e)
  let ?e1 = "e\<lparr>long_lived := True\<rparr>"
  let ?e2 = "if admission s = Admission_Draining then snd (entry_shutdown ?e1) else ?e1"
  have s': "s' = s\<lparr>active := btree_insert i ?e2 (active s)\<rparr>"
    using mark Some by (auto simp: mark_long_lived_def Let_def split: prod.splits if_splits)
  have i: "i \<in> fst ` set (active s)" using Some by (force dest: map_of_SomeD)
  have "closed_ok (snd x)" if "admission s = Admission_Draining" "x \<in> set (btree_insert i ?e2 (active s))" for x
  proof -
    have "x = (i, ?e2) \<or> x \<in> set (active s)" using that(2) btree_insert_subset [of i ?e2 "active s"] by blast
    then show ?thesis using ok that(1) entry_shutdown_closed [of ?e1] by (auto simp: drain_ok_alt)
  qed
  then show ?thesis
    using ok i btree_insert_sorted [of "active s" i ?e2]
    by (auto simp: drain_ok_alt s' btree_insert_set btree_insert_length)
qed

lemma drop_ok:
  fixes s :: "'t drain_state"
  assumes ok: "drain_ok (s, G)"
  shows "drain_ok (drop_guard i s, G - {i})"
proof -
  let ?m = "filter (\<lambda>(j, _). j \<noteq> i) (active s)"
  have "sorted (map fst ?m)" "distinct (map fst ?m)"
    using ok by (simp_all add: drain_ok_alt sorted_filter distinct_map_filter)
  moreover have "fst ` set ?m = fst ` set (active s) - {i}" by force
  moreover have "fst ` set (active s) = G" using ok by (simp add: drain_ok_alt)
  moreover have "length ?m \<le> MAX_ACTIVE_REQUESTS"
  proof (rule le_trans [OF length_filter_le])
    show "length (active s) \<le> MAX_ACTIVE_REQUESTS" using ok by (simp add: drain_ok_alt)
  qed
  moreover have "closed_ok (snd x)" if "admission s = Admission_Draining" "x \<in> set ?m" for x
    using ok that unfolding drain_ok_alt set_filter by blast
  moreover have "0 < j \<and> j \<le> next_id s" if "j \<in> G - {i}" for j
    using ok that unfolding drain_ok_alt by blast
  ultimately show ?thesis unfolding drain_ok_alt drop_guard_def by simp
qed

lemma drain_step_ok:
  assumes "drain_step g e g'" "drain_ok g"
  shows "drain_ok g'"
  using assms(1)
proof (cases rule: drain_step.cases)
  case (Register tr s i s' G)
  then show ?thesis using assms(2) register_ok(1) by blast
next
  case (Reject tr s s' G)
  then show ?thesis using assms(2) by (auto simp: register_transport_def split: if_splits option.splits)
next
  case (Mark i G s closed s')
  then show ?thesis using assms(2) mark_ok by blast
next
  case (Drop i G s)
  then show ?thesis using assms(2) drop_ok by blast
next
  case (Begin s closed s' G)
  then show ?thesis using assms(2) shutdown_ok [of s G long_lived] by (auto simp: begin_drain_def split: prod.splits)
next
  case (Force s n closed s' G)
  then show ?thesis using assms(2) shutdown_ok [of s G "\<lambda>_. True"] by (auto simp: force_drain_def split: prod.splits)
next
  case (Resume s ok s' G)
  then show ?thesis using assms(2) by (auto simp: resume_def drain_ok_alt split: if_splits)
qed

lemma drain_run_ok: "drain_run g es g' \<Longrightarrow> drain_ok g \<Longrightarrow> drain_ok g'"
  by (induction rule: drain_run.induct) (auto intro: drain_step_ok)

lemma drain_default_ok: "drain_ok (drain_default, {})"
  by (simp add: drain_ok_alt drain_default_def)


subsection \<open>Ids and admission along a run\<close>

definition registered :: "'t drain_event list \<Rightarrow> 64 word list" where
  "registered es = List.map_filter (\<lambda>e. case e of Registered _ i \<Rightarrow> Some i | _ \<Rightarrow> None) es"

lemma registered_simps [simp]:
  "registered [] = []"
  "registered (es @ [e]) = registered es @ (case e of Registered _ i \<Rightarrow> [i] | _ \<Rightarrow> [])"
  by (simp_all add: registered_def List.map_filter_def split: drain_event.splits)

lemma drain_step_next_id:
  assumes "drain_step (s, G) e (s', G')" "\<nexists>tr i. e = Registered tr i"
  shows "next_id s' = next_id s"
  using assms
  by (cases rule: drain_step.cases)
     (auto simp: register_transport_def mark_long_lived_def drop_guard_def begin_drain_def force_drain_def
       resume_def Let_def split: if_splits option.splits prod.splits)

lemma drain_run_ids:
  fixes g :: "'t guarded"
  assumes "drain_run (drain_default, {}) es g"
  shows "distinct (registered es) \<and> (\<forall>i \<in> set (registered es). i \<le> next_id (fst g))"
  using assms
proof (induction "(drain_default, {}) :: 't guarded" es g rule: drain_run.induct)
  case Nil
  then show ?case by simp
next
  case (Step es g1 e g2)
  obtain s G s' G' where g: "g1 = (s, G)" "g2 = (s', G')" by fastforce
  have ok: "drain_ok (s, G)" using drain_run_ok [OF Step(1) drain_default_ok] g by simp
  show ?case
  proof (cases "\<exists>tr i. e = Registered tr i")
    case True
    then obtain tr i where e: "e = Registered tr i" by blast
    then have r: "register_transport tr s = (Some i, s')" using Step(3) g by (auto elim: registeredE)
    note gt = register_ok(2,3) [OF ok r]
    have "i \<notin> set (registered es)" using Step(2) gt(1) g leD by auto
    moreover have "j \<le> i" if "j \<in> set (registered es)" for j
      using Step(2) gt(1) g that by (auto intro: order_trans less_imp_le)
    ultimately show ?thesis using Step(2) e g gt(2) by auto
  next
    case False
    then have "next_id s' = next_id s" using Step(3) drain_step_next_id g by blast
    then show ?thesis using Step(2) g False by (auto split: drain_event.splits)
  qed
qed

lemma drain_step_closed:
  assumes "drain_step (s, G) e (s', G')" "drain_ok (s, G)" "admission s = Admission_Draining" "i \<in> G" "e \<noteq> Dropped i"
  shows "admission s' = Admission_Draining \<and> i \<in> G' \<and> (\<nexists>tr j. e = Registered tr j)"
  using assms(1)
proof (cases rule: drain_step.cases)
  case (Resume ok)
  then show ?thesis using assms(2-4) by (auto simp: resume_def drain_ok_alt split: if_splits)
qed (use assms(2-5) in \<open>auto simp: register_transport_def mark_long_lived_def drop_guard_def begin_drain_def
    force_drain_def Let_def split: if_splits option.splits prod.splits\<close>)


lemma drain_run_append: "drain_run g es g1 \<Longrightarrow> drain_step g1 e g2 \<Longrightarrow> drain_run g (es @ [e]) g2"
  by (rule drain_run.Step)

lemma drain_run_closed:
  fixes g :: "'t guarded"
  assumes "drain_run g es g'" "drain_ok g" "admission (fst g) = Admission_Draining" "i \<in> snd g" "Dropped i \<notin> set es"
  shows "admission (fst g') = Admission_Draining \<and> i \<in> snd g' \<and> registered es = []"
  using assms
proof (induction rule: drain_run.induct)
  case (Step g es g1 e g2)
  then have ih: "admission (fst g1) = Admission_Draining" "i \<in> snd g1" "registered es = []" by simp_all
  have "drain_ok g1" using Step drain_run_ok by blast
  then show ?case
    using drain_step_closed [of "fst g1" "snd g1" e "fst g2" "snd g2" i] Step ih
    by (auto split: drain_event.splits)
qed simp

section \<open>Properties\<close>

text \<open>C40. At every point of every history of requests and drains, the registry holds exactly the
  requests whose guards are alive, each once and at most 65536, and while it drains every long-lived
  connection that has a transport has been asked to shut down, also one that was upgraded only after
  the drain had begun.\<close>

theorem drain_registry_exact:
  assumes "drain_run (drain_default, {}) es (s, G)"
  shows "set (map fst (active s)) = G \<and> active_count s = card G \<and> card G \<le> 65536
    \<and> (admission s = Admission_Draining \<longrightarrow>
        (\<forall>i e. map_of (active s) i = Some e \<longrightarrow> long_lived e \<longrightarrow> transport e \<noteq> None \<longrightarrow> shutdown_requested e))"
proof -
  have ok: "drain_ok (s, G)" by (rule drain_run_ok [OF assms drain_default_ok])
  then have "length (active s) = card G" using distinct_card [of "map fst (active s)"] by (simp add: drain_ok_alt)
  moreover have "shutdown_requested e" if "admission s = Admission_Draining" "map_of (active s) i = Some e" "long_lived e" "transport e \<noteq> None" for i e
    using ok that map_of_SomeD [OF that(2)] by (auto simp: drain_ok_alt closed_ok_def)
  ultimately show ?thesis using ok by (auto simp: drain_ok_alt active_count_def MAX_ACTIVE_REQUESTS_def)
qed

text \<open>A request is admitted, the drain begins, and only then the request is upgraded.\<close>

definition ex_admitted :: "nat drain_state" where
  "ex_admitted = \<lparr>admission = Admission_Open, next_id = 1,
     active = [(1, \<lparr>transport = Some 7, long_lived = False, shutdown_requested = False\<rparr>)]\<rparr>"

definition ex_drain :: "nat drain_state" where
  "ex_drain = snd (mark_long_lived 1 (snd (begin_drain ex_admitted)))"

lemma ex_drain_run:
  "drain_run (drain_default, {}) [Registered (Some 7) 1, Drain_begun [], Marked 1 [7]] (ex_drain, {1})"
proof -
  let ?s2 = "snd (begin_drain ex_admitted)"
  have "register_transport (Some 7) drain_default = (Some 1, ex_admitted)"
    by (simp add: register_transport_def drain_default_def MAX_ACTIVE_REQUESTS_def checked_succ_def ex_admitted_def)
  then have s1: "drain_step (drain_default, {}) (Registered (Some 7) 1) (ex_admitted, {1})" by (rule drain_step.Register)
  have "begin_drain ex_admitted = ([], ?s2)" by code_simp
  then have s2: "drain_step (ex_admitted, {1}) (Drain_begun []) (?s2, {1})" by (rule drain_step.Begin)
  have "mark_long_lived 1 ?s2 = ([7], ex_drain)" by code_simp
  then have s3: "drain_step (?s2, {1}) (Marked 1 [7]) (ex_drain, {1})" by (intro drain_step.Mark) simp_all
  show ?thesis
    using drain_run_append [OF drain_run_append [OF drain_run_append [OF drain_run.Nil s1] s2] s3] by simp
qed

theorem drain_registry_exact_witness:
  "active_count ex_drain = 1 \<and> admission ex_drain = Admission_Draining
    \<and> map_option shutdown_requested (map_of (active ex_drain) 1) = Some True"
proof -
  have e: "admission ex_drain = Admission_Draining" "\<exists>e. map_of (active ex_drain) 1 = Some e \<and> long_lived e \<and> transport e \<noteq> None"
    by (code_simp, rule exI [of _ "the (map_of (active ex_drain) 1)"], code_simp)
  then show ?thesis using drain_registry_exact [OF ex_drain_run] by auto
qed

text \<open>Nothing is admitted while a drain waits.  From any state of a drain, as long as one request
  that was active then has not been dropped, no request is admitted, no resume succeeds and the
  registry keeps draining, whatever the requests and the server do.\<close>

theorem drain_admits_nothing:
  assumes "drain_run (drain_default, {}) es0 (s, G)" "admission s = Admission_Draining" "i \<in> G"
    and "drain_run (s, G) es (s', G')" "Dropped i \<notin> set es"
  shows "registered es = [] \<and> admission s' = Admission_Draining \<and> fst (resume s') = False"
proof -
  have ok: "drain_ok (s, G)" by (rule drain_run_ok [OF assms(1) drain_default_ok])
  have c: "admission s' = Admission_Draining" "i \<in> G'" "registered es = []"
    using drain_run_closed [OF assms(4) ok _ _ assms(5)] assms(2,3) by auto
  have "active s' \<noteq> []" using drain_run_ok [OF assms(4) ok] c(2) by (auto simp: drain_ok_alt)
  then show ?thesis using c by (simp add: resume_def)
qed

theorem drain_admits_nothing_witness:
  "registered [Resumed False, Rejected None :: nat drain_event] = [] \<and> fst (resume ex_drain) = False"
proof -
  have adm: "admission ex_drain = Admission_Draining" by code_simp
  have "resume ex_drain = (False, ex_drain)" by code_simp
  moreover have "register_transport None ex_drain = (None, ex_drain)" by (simp add: register_transport_def adm)
  ultimately have s: "drain_step (ex_drain, {1}) (Resumed False) (ex_drain, {1})"
      "drain_step (ex_drain, {1}) (Rejected None) (ex_drain, {1})"
    by (auto intro: drain_step.intros)
  have "drain_run (ex_drain, {1}) [Resumed False, Rejected None] (ex_drain, {1})"
    using drain_run_append [OF drain_run_append [OF drain_run.Nil s(1)] s(2)] by simp
  then show ?thesis using drain_admits_nothing [OF ex_drain_run adm, of 1] by auto
qed

text \<open>Request ids are never reused, including across drains and resumes: in every history, all
  admitted requests have different ids.\<close>

theorem drain_ids_unique:
  assumes "drain_run (drain_default, {}) es g"
  shows "distinct (registered es)"
  using drain_run_ids [OF assms] by blast

theorem drain_ids_unique_witness:
  "distinct (registered [Registered (Some 7) 1, Drain_begun [], Marked 1 [7 :: nat]])"
  by (rule drain_ids_unique [OF ex_drain_run])

end
