(* ===== verification/Instances.thy ===== *)
theory Instances
  imports Prelude
begin

text \<open>
  The instances of an app and their place in request routing
  (\<^verbatim>\<open>tako-server/src/instances/instance.rs\<close>, \<^verbatim>\<open>app.rs\<close>,
  \<^verbatim>\<open>config.rs\<close>) and the load balancer over them
  (\<^verbatim>\<open>tako-server/src/lb/mod.rs\<close>).

  An instance is a shared object that outlives its registration: health checks and requests keep
  handles to it.  The model has the objects of an app in a map by instance id, and the registry, the
  routing list and the suppressed set as the ids they hold.  Every operation on the app is atomic, as
  its lock makes it.  Processes, containers and sockets are the operating system's; what stopping them
  answers is an argument.
\<close>

section \<open>Instances\<close>

datatype instance_state = Starting | Ready | Healthy | Unhealthy | Draining | Stopped

datatype app_state = App_Running | App_Idle | App_Deploying | App_Stopped | App_Error

definition encode_instance_state :: "instance_state \<Rightarrow> 8 word" where
  "encode_instance_state st = (case st of
     Starting \<Rightarrow> 0 | Ready \<Rightarrow> 1 | Healthy \<Rightarrow> 2 | Unhealthy \<Rightarrow> 3 | Draining \<Rightarrow> 4 | Stopped \<Rightarrow> 5)"

definition decode_instance_state :: "8 word \<Rightarrow> instance_state" where
  "decode_instance_state e =
     (if e = 0 then Starting else if e = 1 then Ready else if e = 2 then Healthy
      else if e = 3 then Unhealthy else if e = 4 then Draining else if e = 5 then Stopped else Unhealthy)"

record inst =
  inst_id :: string
  build_version :: string
  internal_token :: string
  sdk_health :: bool
  health_probe :: "(string \<times> string) option"
  upstream :: "string option"
  has_process :: bool
  container :: "string option"
  compose :: "(string \<times> bool) option"
  pid :: "32 word"
  state_code :: "8 word"
  requests_total :: "64 word"
  in_flight :: "64 word"
  last_request_ms :: "64 word"
  last_heartbeat_ms :: "64 word"

definition new_inner :: "string \<Rightarrow> string \<Rightarrow> string \<Rightarrow> 64 word \<Rightarrow> inst" where
  "new_inner i version token now =
     \<lparr>inst_id = i, build_version = version, internal_token = token, sdk_health = True, health_probe = None,
      upstream = None, has_process = False, container = None, compose = None, pid = 0,
      state_code = encode_instance_state Starting, requests_total = 0, in_flight = 0,
      last_request_ms = now, last_heartbeat_ms = now\<rparr>"

definition inst_state :: "inst \<Rightarrow> instance_state" where
  "inst_state x = decode_instance_state (state_code x)"

definition inst_set_state :: "instance_state \<Rightarrow> inst \<Rightarrow> instance_state \<times> inst" where
  "inst_set_state st x =
     (decode_instance_state (state_code x), x\<lparr>state_code := encode_instance_state st\<rparr>)"

definition inst_pid :: "inst \<Rightarrow> 32 word option" where
  "inst_pid x = (if pid x > 0 then Some (pid x) else None)"

definition endpoint :: "inst \<Rightarrow> string option" where
  "endpoint x = upstream x"

definition set_port :: "string \<Rightarrow> inst \<Rightarrow> inst" where
  "set_port addr x = x\<lparr>upstream := Some addr\<rparr>"

definition set_process :: "32 word option \<Rightarrow> inst \<Rightarrow> inst" where
  "set_process child_id x =
     (case child_id of Some p \<Rightarrow> x\<lparr>pid := p\<rparr> | None \<Rightarrow> x)\<lparr>has_process := True\<rparr>"

definition set_compose :: "string \<Rightarrow> inst \<Rightarrow> inst" where
  "set_compose container_id x = x\<lparr>compose := Some (container_id, False)\<rparr>"

definition own_compose_container :: "bool \<Rightarrow> inst \<Rightarrow> inst" where
  "own_compose_container own x = x\<lparr>compose := map_option (\<lambda>(c, _). (c, own)) (compose x)\<rparr>"

definition health_token :: "inst \<Rightarrow> string option" where
  "health_token x = (if sdk_health x then Some (internal_token x) else None)"

definition request_started :: "inst \<Rightarrow> inst" where
  "request_started x = x\<lparr>requests_total := requests_total x + 1, in_flight := in_flight x + 1\<rparr>"

definition request_finished :: "64 word \<Rightarrow> inst \<Rightarrow> inst" where
  "request_finished now x =
     (let x' = x\<lparr>in_flight := in_flight x - 1\<rparr>
      in if in_flight x = 1 then x'\<lparr>last_request_ms := now\<rparr> else x')"

definition idle_time :: "64 word \<Rightarrow> inst \<Rightarrow> 64 word" where
  "idle_time now x = (if last_request_ms x \<le> now then now - last_request_ms x else 0)"

definition record_heartbeat :: "64 word \<Rightarrow> inst \<Rightarrow> inst" where
  "record_heartbeat now x = x\<lparr>last_heartbeat_ms := now\<rparr>"

text \<open>What the operating system answers while an instance is stopped; the polling of the process
  until it is gone is one answer.\<close>

record stop_answers =
  compose_stopped :: bool
  container_removed :: bool
  kill_sent :: bool
  process_reaped :: bool

definition kill_compose :: "stop_answers \<Rightarrow> inst \<Rightarrow> inst option" where
  "kill_compose a x = (case compose x of
     None \<Rightarrow> Some x
   | Some (_, own) \<Rightarrow> if own \<and> \<not> compose_stopped a then None else Some (x\<lparr>compose := None\<rparr>))"

definition kill_container :: "stop_answers \<Rightarrow> inst \<Rightarrow> inst option" where
  "kill_container a x = (case container x of
     None \<Rightarrow> Some x | Some _ \<Rightarrow> if container_removed a then Some (x\<lparr>container := None\<rparr>) else None)"

definition kill_process :: "stop_answers \<Rightarrow> inst \<Rightarrow> inst option" where
  "kill_process a x =
     (if \<not> has_process x then Some x
      else if kill_sent a \<and> process_reaped a then Some (x\<lparr>has_process := False\<rparr>) else None)"

text \<open>The result tells whether the kill succeeded; a failed step leaves what was done before it.\<close>

definition kill :: "stop_answers \<Rightarrow> inst \<Rightarrow> bool \<times> inst" where
  "kill a x = (case kill_compose a x of
     None \<Rightarrow> (False, x)
   | Some x1 \<Rightarrow> (case kill_container a x1 of
       None \<Rightarrow> (False, x1)
     | Some x2 \<Rightarrow> (case kill_process a x2 of
         None \<Rightarrow> (False, x2)
       | Some x3 \<Rightarrow> (True, snd (inst_set_state Stopped (x3\<lparr>upstream := None\<rparr>))))))"

section \<open>The app\<close>

text \<open>The configuration, without what only the launched process sees: commands, variables, secrets,
  storages and images.\<close>

datatype app_launch = Native | Compose | Container string "16 word"

record app_config =
  cfg_name :: string
  environment :: string
  version :: string
  launch :: app_launch
  container_sdk :: bool
  compose_stack :: bool
  min_instances :: "32 word"
  max_instances :: "32 word"
  health_check_path :: string
  health_check_host :: string
  idle_timeout_ms :: "64 word"

definition app_config_default :: app_config where
  "app_config_default =
     \<lparr>cfg_name = [], environment = [], version = [], launch = Native, container_sdk = False, compose_stack = False,
      min_instances = 1, max_instances = 4, health_check_path = ''/status'', health_check_host = [],
      idle_timeout_ms = 300000\<rparr>"

definition deployment_id :: "app_config \<Rightarrow> string" where
  "deployment_id c = (if environment c = [] then cfg_name c else cfg_name c @ ''/'' @ environment c)"

definition internal_app_host :: "string \<Rightarrow> string" where
  "internal_app_host name = (let name = trim name in (if name = [] then ''app'' else name) @ ''.tako'')"

definition apply_internal_defaults :: "app_config \<Rightarrow> app_config" where
  "apply_internal_defaults c =
     (if health_check_host c = [] then c\<lparr>health_check_host := internal_app_host (cfg_name c)\<rparr> else c)"

record healthy_instance =
  h_id :: string
  h_endpoint :: "string option"

record app =
  objects :: "string \<Rightarrow> inst option"
  instances :: "string list"
  healthy_instances :: "healthy_instance list"
  routing_suppressed :: "string list"
  app_status :: app_state
  last_error :: "string option"
  config :: app_config

definition state_of :: "app \<Rightarrow> string \<Rightarrow> instance_state" where
  "state_of a i = (case objects a i of Some x \<Rightarrow> inst_state x | None \<Rightarrow> Stopped)"

definition upd_object :: "string \<Rightarrow> (inst \<Rightarrow> inst) \<Rightarrow> app \<Rightarrow> app" where
  "upd_object i f a = a\<lparr>objects := (objects a)(i := map_option f (objects a i))\<rparr>"

definition endpoint_of :: "app \<Rightarrow> string \<Rightarrow> string option" where
  "endpoint_of a i = Option.bind (objects a i) endpoint"

definition add_healthy_instance :: "string \<Rightarrow> app \<Rightarrow> app" where
  "add_healthy_instance i a =
     (if i \<in> set (routing_suppressed a) then a
      else if i \<in> set (map h_id (healthy_instances a)) then a
      else a\<lparr>healthy_instances := healthy_instances a @ [\<lparr>h_id = i, h_endpoint = endpoint_of a i\<rparr>]\<rparr>)"

fun refresh_first :: "string \<Rightarrow> string option \<Rightarrow> healthy_instance list \<Rightarrow> healthy_instance list" where
  "refresh_first i ep [] = []"
| "refresh_first i ep (h # hs) = (if h_id h = i then h\<lparr>h_endpoint := ep\<rparr> # hs else h # refresh_first i ep hs)"

definition refresh_healthy_instance :: "string \<Rightarrow> app \<Rightarrow> app" where
  "refresh_healthy_instance i a =
     a\<lparr>healthy_instances := refresh_first i (endpoint_of a i) (healthy_instances a)\<rparr>"

definition remove_healthy_instance :: "string \<Rightarrow> app \<Rightarrow> app" where
  "remove_healthy_instance i a = a\<lparr>healthy_instances := filter (\<lambda>h. h_id h \<noteq> i) (healthy_instances a)\<rparr>"

definition set_instance_state :: "string \<Rightarrow> instance_state \<Rightarrow> app \<Rightarrow> instance_state \<times> app" where
  "set_instance_state i st a =
     (let previous = state_of a i;
          a1 = upd_object i (\<lambda>x. snd (inst_set_state st x)) a
      in (previous,
          if previous = st then (if st = Healthy then refresh_healthy_instance i a1 else a1)
          else if previous = Healthy then remove_healthy_instance i a1
          else if st = Healthy then add_healthy_instance i a1
          else a1))"

definition set_instance_health_state :: "string \<Rightarrow> instance_state \<Rightarrow> app \<Rightarrow> bool \<times> app" where
  "set_instance_health_state i st a =
     (if state_of a i = Draining \<or> state_of a i = Stopped then (False, a)
      else (True, snd (set_instance_state i st a)))"

definition suppress_instance_routing :: "string \<Rightarrow> app \<Rightarrow> app" where
  "suppress_instance_routing i a =
     remove_healthy_instance i (a\<lparr>routing_suppressed := List.insert i (routing_suppressed a)\<rparr>)"

definition enable_instance_routing :: "string \<Rightarrow> app \<Rightarrow> bool \<times> app" where
  "enable_instance_routing i a =
     (let a1 = a\<lparr>routing_suppressed := removeAll i (routing_suppressed a)\<rparr>
      in if state_of a1 i = Healthy then (True, add_healthy_instance i a1) else (False, a1))"

definition enable_rollout_routing ::
    "string list \<Rightarrow> app \<Rightarrow> (string \<times> instance_state + unit) \<times> app" where
  "enable_rollout_routing is a = (case find (\<lambda>i. state_of a i \<noteq> Healthy) is of
     Some i \<Rightarrow> (Inl (i, state_of a i), a)
   | None \<Rightarrow> (Inr (), fold (\<lambda>i a. snd (enable_instance_routing i a)) is a))"

definition healthy_backend_for_request :: "nat \<Rightarrow> app \<Rightarrow> healthy_instance option" where
  "healthy_backend_for_request request_index a =
     (if healthy_instances a = [] then None
      else Some (healthy_instances a ! (request_index mod length (healthy_instances a))))"

definition has_starting_instance :: "app \<Rightarrow> bool" where
  "has_starting_instance a =
     (routing_suppressed a \<noteq> [] \<or> list_ex (\<lambda>i. state_of a i = Starting \<or> state_of a i = Ready) (instances a))"

definition get_instance :: "string \<Rightarrow> app \<Rightarrow> inst option" where
  "get_instance i a = (if i \<in> set (instances a) then objects a i else None)"

text \<open>A new instance under a fresh id.\<close>

definition allocate_instance :: "string \<Rightarrow> string \<Rightarrow> 64 word \<Rightarrow> app \<Rightarrow> app" where
  "allocate_instance i token now a =
     a\<lparr>objects := (objects a)(i \<mapsto> new_inner i (version (config a)) token now), instances := instances a @ [i]\<rparr>"

definition remove_instance :: "string \<Rightarrow> app \<Rightarrow> app" where
  "remove_instance i a =
     (if i \<in> set (instances a)
      then remove_healthy_instance i
             (a\<lparr>instances := removeAll i (instances a), routing_suppressed := removeAll i (routing_suppressed a)\<rparr>)
      else a)"

definition update_config :: "app_config \<Rightarrow> app \<Rightarrow> app" where
  "update_config c a = a\<lparr>config := apply_internal_defaults c\<rparr>"

definition kill_instance :: "stop_answers \<Rightarrow> string \<Rightarrow> app \<Rightarrow> bool \<times> app" where
  "kill_instance ans i a =
     ((case objects a i of Some x \<Rightarrow> fst (kill ans x) | None \<Rightarrow> True), upd_object i (\<lambda>x. snd (kill ans x)) a)"

section \<open>Limits\<close>

definition u32_sat_mul2 :: "32 word \<Rightarrow> 32 word" where
  "u32_sat_mul2 p = (if unat p * 2 < 2 ^ 32 then p * 2 else - 1)"

definition host_instance_limit_for_parallelism :: "32 word \<Rightarrow> 32 word" where
  "host_instance_limit_for_parallelism parallelism = max (u32_sat_mul2 parallelism) 1"

definition effective_instance_limit :: "32 word \<Rightarrow> 32 word \<Rightarrow> 32 word" where
  "effective_instance_limit parallelism max_inst = min max_inst (host_instance_limit_for_parallelism parallelism)"

definition validate_requested_instances :: "32 word \<Rightarrow> 32 word \<Rightarrow> 32 word \<Rightarrow> bool" where
  "validate_requested_instances parallelism requested max_inst =
     (\<not> requested > effective_instance_limit parallelism max_inst)"

definition clamp_instances_to_limit ::
    "32 word \<Rightarrow> app_config \<Rightarrow> (32 word \<times> 32 word) option \<times> app_config" where
  "clamp_instances_to_limit parallelism c =
     (let limit = effective_instance_limit parallelism (max_instances c)
      in if min_instances c \<le> limit then (None, c)
         else (Some (min_instances c, limit), c\<lparr>min_instances := limit\<rparr>))"


section \<open>The load balancer\<close>

record app_load_balancer =
  lb_app_name :: string
  rr_counter :: "64 word"

definition lb_new :: "string \<Rightarrow> app_load_balancer" where
  "lb_new name = \<lparr>lb_app_name = name, rr_counter = 0\<rparr>"

record backend =
  be_app_name :: string
  be_instance :: string
  be_endpoint :: "string option"

definition get_backend :: "app \<Rightarrow> app_load_balancer \<Rightarrow> backend option \<times> app_load_balancer" where
  "get_backend a lb =
     (map_option (\<lambda>h. \<lparr>be_app_name = lb_app_name lb, be_instance = h_id h, be_endpoint = h_endpoint h\<rparr>)
        (healthy_backend_for_request (unat (rr_counter lb)) a),
      lb\<lparr>rr_counter := rr_counter lb + 1\<rparr>)"

text \<open>The backends of a number of requests in a row.\<close>

fun get_backends :: "nat \<Rightarrow> app \<Rightarrow> app_load_balancer \<Rightarrow> backend option list" where
  "get_backends 0 a lb = []"
| "get_backends (Suc n) a lb = (let (b, lb') = get_backend a lb in b # get_backends n a lb')"

section \<open>Histories of an app\<close>

datatype app_op =
    Set_state string instance_state
  | Set_health string instance_state
  | Suppress string
  | Enable string
  | Enable_rollout "string list"
  | Allocate string string "64 word"
  | Remove string
  | Kill stop_answers string
  | Evict stop_answers string
  | Request_started string
  | Request_finished "64 word" string
  | Heartbeat "64 word" string
  | Set_port string string
  | Set_process string "32 word option"
  | Update_config app_config

fun app_exec :: "app_op \<Rightarrow> app \<Rightarrow> app" where
  "app_exec (Set_state i st) a = snd (set_instance_state i st a)"
| "app_exec (Set_health i st) a = snd (set_instance_health_state i st a)"
| "app_exec (Suppress i) a = suppress_instance_routing i a"
| "app_exec (Enable i) a = snd (enable_instance_routing i a)"
| "app_exec (Enable_rollout is) a = snd (enable_rollout_routing is a)"
| "app_exec (Allocate i token now) a = allocate_instance i token now a"
| "app_exec (Remove i) a = remove_instance i a"
| "app_exec (Kill ans i) a = snd (kill_instance ans i a)"
| "app_exec (Evict ans i) a = remove_instance i (snd (kill_instance ans i a))"
| "app_exec (Request_started i) a = upd_object i request_started a"
| "app_exec (Request_finished now i) a = upd_object i (request_finished now) a"
| "app_exec (Heartbeat now i) a = upd_object i (record_heartbeat now) a"
| "app_exec (Set_port i addr) a = upd_object i (set_port addr) a"
| "app_exec (Set_process i child) a = upd_object i (set_process child) a"
| "app_exec (Update_config c) a = update_config c a"

definition routed :: "app \<Rightarrow> string set" where
  "routed a = set (map h_id (healthy_instances a))"

text \<open>The operations in the order the server keeps: only known instances are acted on, a new one has a
  fresh id, and an instance is killed once it is out of routing or is removed with the kill.\<close>

fun op_allowed :: "app \<Rightarrow> app_op \<Rightarrow> bool" where
  "op_allowed a (Allocate i _ _) = (objects a i = None)"
| "op_allowed a (Kill _ i) = (objects a i \<noteq> None \<and> i \<notin> routed a)"
| "op_allowed a (Evict _ i) = (i \<in> set (instances a))"
| "op_allowed a (Set_state i _) = (objects a i \<noteq> None)"
| "op_allowed a (Set_health i _) = (objects a i \<noteq> None)"
| "op_allowed a (Enable_rollout is) = (\<forall>i \<in> set is. objects a i \<noteq> None)"
| "op_allowed a _ = True"

inductive app_run :: "app \<Rightarrow> app_op list \<Rightarrow> app \<Rightarrow> bool" where
  Nil: "app_run a [] a"
| Step: "app_run a ops b \<Longrightarrow> op_allowed b op \<Longrightarrow> app_run a (ops @ [op]) (app_exec op b)"

definition app_new :: "app_config \<Rightarrow> app" where
  "app_new c =
     \<lparr>objects = Map.empty, instances = [], healthy_instances = [], routing_suppressed = [], app_status = App_Stopped,
      last_error = None, config = apply_internal_defaults c\<rparr>"

text \<open>Routing holds exactly what it may hold: known, healthy, unsuppressed instances, each once, and all
  of the registered ones.\<close>

definition routing_ok :: "app \<Rightarrow> bool" where
  "routing_ok a = (distinct (map h_id (healthy_instances a))
     \<and> (\<forall>i \<in> routed a. i \<notin> set (routing_suppressed a) \<and> objects a i \<noteq> None \<and> state_of a i = Healthy)
     \<and> (\<forall>i \<in> set (instances a). objects a i \<noteq> None
          \<and> (state_of a i = Healthy \<longrightarrow> i \<notin> set (routing_suppressed a) \<longrightarrow> i \<in> routed a)))"

subsection \<open>Effects on routing\<close>

lemma decode_encode [simp]: "decode_instance_state (encode_instance_state st) = st"
  by (cases st) (simp_all add: decode_instance_state_def encode_instance_state_def)

lemma inst_state_set [simp]: "inst_state (snd (inst_set_state st x)) = st"
  by (simp add: inst_state_def inst_set_state_def)

lemma state_of_upd:
  "state_of (upd_object i f a) j = (if j = i \<and> objects a i \<noteq> None then inst_state (f (the (objects a i))) else state_of a j)"
  by (auto simp: state_of_def upd_object_def split: option.splits)

lemma state_of_Some: "objects a i = Some x \<Longrightarrow> state_of a i = inst_state x"
  by (simp add: state_of_def)

lemma upd_object_sel [simp]:
  "instances (upd_object i f a) = instances a" "healthy_instances (upd_object i f a) = healthy_instances a"
  "routing_suppressed (upd_object i f a) = routing_suppressed a" "routed (upd_object i f a) = routed a"
  "objects (upd_object i f a) j = None \<longleftrightarrow> objects a j = None"
  by (auto simp: upd_object_def routed_def)

lemma state_of_update [simp]:
  "state_of (a\<lparr>instances := xs\<rparr>) j = state_of a j" "state_of (a\<lparr>healthy_instances := hs\<rparr>) j = state_of a j"
  "state_of (a\<lparr>routing_suppressed := ys\<rparr>) j = state_of a j"
  by (simp_all add: state_of_def)

lemma map_id_refresh [simp]: "map h_id (refresh_first i ep hs) = map h_id hs"
  by (induction hs) auto

lemma refresh_sel [simp]:
  "objects (refresh_healthy_instance i a) = objects a" "instances (refresh_healthy_instance i a) = instances a"
  "routing_suppressed (refresh_healthy_instance i a) = routing_suppressed a"
  "map h_id (healthy_instances (refresh_healthy_instance i a)) = map h_id (healthy_instances a)"
  "routed (refresh_healthy_instance i a) = routed a" "state_of (refresh_healthy_instance i a) j = state_of a j"
  by (simp_all add: refresh_healthy_instance_def routed_def state_of_def del: set_map)

lemma remove_healthy_sel [simp]:
  "objects (remove_healthy_instance i a) = objects a" "instances (remove_healthy_instance i a) = instances a"
  "routing_suppressed (remove_healthy_instance i a) = routing_suppressed a"
  "routed (remove_healthy_instance i a) = routed a - {i}" "state_of (remove_healthy_instance i a) j = state_of a j"
  "distinct (map h_id (healthy_instances a)) \<Longrightarrow> distinct (map h_id (healthy_instances (remove_healthy_instance i a)))"
  by (auto simp: remove_healthy_instance_def routed_def state_of_def distinct_map_filter)

lemma add_healthy_sel [simp]:
  "objects (add_healthy_instance i a) = objects a" "instances (add_healthy_instance i a) = instances a"
  "routing_suppressed (add_healthy_instance i a) = routing_suppressed a"
  "routed (add_healthy_instance i a) = (if i \<in> set (routing_suppressed a) then routed a else insert i (routed a))"
  "state_of (add_healthy_instance i a) j = state_of a j"
  "distinct (map h_id (healthy_instances a)) \<Longrightarrow> distinct (map h_id (healthy_instances (add_healthy_instance i a)))"
  by (auto simp: add_healthy_instance_def routed_def state_of_def)


text \<open>The invariant instance by instance.\<close>

definition elem_ok :: "app \<Rightarrow> string \<Rightarrow> bool" where
  "elem_ok a j = ((j \<in> routed a \<longrightarrow> j \<notin> set (routing_suppressed a) \<and> objects a j \<noteq> None \<and> state_of a j = Healthy)
     \<and> (j \<in> set (instances a) \<longrightarrow> objects a j \<noteq> None
          \<and> (state_of a j = Healthy \<longrightarrow> j \<notin> set (routing_suppressed a) \<longrightarrow> j \<in> routed a)))"

lemma routing_ok_elem:
  "routing_ok a \<longleftrightarrow> distinct (map h_id (healthy_instances a)) \<and> (\<forall>j. elem_ok a j)"
  unfolding routing_ok_def elem_ok_def by blast

lemma routing_okI:
  assumes "routing_ok a"
    and "distinct (map h_id (healthy_instances a)) \<Longrightarrow> distinct (map h_id (healthy_instances a'))"
    and "\<And>j. elem_ok a j \<Longrightarrow> elem_ok a' j"
  shows "routing_ok a'"
  using assms unfolding routing_ok_elem by blast

lemma set_state_ok:
  assumes ok: "routing_ok a" and obj: "objects a i \<noteq> None"
  shows "routing_ok (snd (set_instance_state i st a))"
proof -
  let ?a1 = "upd_object i (\<lambda>x. snd (inst_set_state st x)) a"
  have st: "state_of ?a1 j = (if j = i then st else state_of a j)" for j
    using obj by (simp add: state_of_upd)
  consider "snd (set_instance_state i st a) = refresh_healthy_instance i ?a1" "state_of a i = st"
    | "snd (set_instance_state i st a) = ?a1" "state_of a i = st"
    | "snd (set_instance_state i st a) = remove_healthy_instance i ?a1" "state_of a i = Healthy" "st \<noteq> Healthy"
    | "snd (set_instance_state i st a) = add_healthy_instance i ?a1" "state_of a i \<noteq> Healthy" "st = Healthy"
    | "snd (set_instance_state i st a) = ?a1" "state_of a i \<noteq> Healthy" "st \<noteq> Healthy"
    by (cases "state_of a i = st"; cases "st = Healthy"; cases "state_of a i = Healthy")
       (simp_all add: set_instance_state_def Let_def)
  then show ?thesis
    by cases (simp_all only:, (rule routing_okI [OF ok]; use st obj in \<open>simp add: elem_ok_def; blast?\<close>)+)
qed

lemma set_health_ok:
  "routing_ok a \<Longrightarrow> objects a i \<noteq> None \<Longrightarrow> routing_ok (snd (set_instance_health_state i st a))"
  by (simp add: set_instance_health_state_def set_state_ok)

lemma suppress_ok: "routing_ok a \<Longrightarrow> routing_ok (suppress_instance_routing i a)"
  unfolding suppress_instance_routing_def
  by (erule routing_okI) (auto simp: elem_ok_def routed_def remove_healthy_instance_def distinct_map_filter)

lemma enable_ok:
  assumes ok: "routing_ok a"
  shows "routing_ok (snd (enable_instance_routing i a))"
proof -
  let ?a1 = "a\<lparr>routing_suppressed := removeAll i (routing_suppressed a)\<rparr>"
  have r: "routed ?a1 = routed a" by (simp add: routed_def)
  have obj: "objects a i \<noteq> None" if "state_of a i = Healthy"
    using that by (auto simp: state_of_def split: option.splits)
  show ?thesis
  proof (cases "state_of a i = Healthy")
    case True
    then have eq: "snd (enable_instance_routing i a) = add_healthy_instance i ?a1"
      by (simp add: enable_instance_routing_def Let_def)
    show ?thesis unfolding eq
      by (rule routing_okI [OF ok]; use obj True r in \<open>simp add: elem_ok_def; blast?\<close>)
  next
    case False
    then have eq: "snd (enable_instance_routing i a) = ?a1"
      by (simp add: enable_instance_routing_def Let_def)
    show ?thesis unfolding eq
      by (rule routing_okI [OF ok]; use False r in \<open>simp add: elem_ok_def; blast?\<close>)
  qed
qed

lemma enable_fold_ok:
  "routing_ok a \<Longrightarrow> routing_ok (fold (\<lambda>i a. snd (enable_instance_routing i a)) is a)"
  by (induction "is" arbitrary: a) (auto simp: enable_ok)

lemma enable_rollout_ok: "routing_ok a \<Longrightarrow> routing_ok (snd (enable_rollout_routing is a))"
  by (simp add: enable_rollout_routing_def enable_fold_ok split: option.splits)

lemma allocate_ok: "routing_ok a \<Longrightarrow> objects a i = None \<Longrightarrow> routing_ok (allocate_instance i token now a)"
proof -
  assume ok: "routing_ok a" and new: "objects a i = None"
  have st: "state_of (allocate_instance i token now a) j = (if j = i then Starting else state_of a j)" for j
    by (simp add: allocate_instance_def state_of_def new_inner_def inst_state_def)
  have r: "routed (allocate_instance i token now a) = routed a" by (simp add: allocate_instance_def routed_def)
  have sel: "objects (allocate_instance i token now a) j = None \<longleftrightarrow> j \<noteq> i \<and> objects a j = None"
    "set (instances (allocate_instance i token now a)) = insert i (set (instances a))"
    "routing_suppressed (allocate_instance i token now a) = routing_suppressed a"
    "healthy_instances (allocate_instance i token now a) = healthy_instances a" for j
    by (auto simp: allocate_instance_def)
  show "routing_ok (allocate_instance i token now a)"
  proof (rule routing_okI [OF ok])
    fix j assume "elem_ok a j"
    then show "elem_ok (allocate_instance i token now a) j"
      using new unfolding elem_ok_def st r sel by (cases "j = i") simp_all
  qed (simp add: sel)
qed

lemma remove_ok: "routing_ok a \<Longrightarrow> routing_ok (remove_instance i a)"
proof -
  assume ok: "routing_ok a"
  let ?a1 = "a\<lparr>instances := removeAll i (instances a), routing_suppressed := removeAll i (routing_suppressed a)\<rparr>"
  have r: "routed ?a1 = routed a" by (simp add: routed_def)
  have "routing_ok (remove_healthy_instance i ?a1)"
    by (rule routing_okI [OF ok]; use r in \<open>simp add: elem_ok_def; blast?\<close>)
  then show "routing_ok (remove_instance i a)" using ok by (simp add: remove_instance_def)
qed

lemma kill_state: "inst_state (snd (kill ans x)) = inst_state x \<or> inst_state (snd (kill ans x)) = Stopped"
  by (auto simp: kill_def kill_compose_def kill_container_def kill_process_def inst_state_def inst_set_state_def
      split: option.splits if_splits prod.splits)

lemma kill_ok: "routing_ok a \<Longrightarrow> i \<notin> routed a \<Longrightarrow> routing_ok (snd (kill_instance ans i a))"
proof -
  assume ok: "routing_ok a" and n: "i \<notin> routed a"
  let ?a1 = "upd_object i (\<lambda>x. snd (kill ans x)) a"
  have st: "state_of ?a1 j = state_of a j \<or> j = i \<and> state_of ?a1 j = Stopped" for j
    using kill_state [of ans "the (objects a i)"]
    by (cases "objects a i") (auto simp: state_of_upd state_of_Some)
  have "routing_ok ?a1"
  proof (rule routing_okI [OF ok])
    fix j assume "elem_ok a j"
    then show "elem_ok ?a1 j" using st [of j] n by (auto simp: elem_ok_def)
  qed simp
  then show ?thesis by (simp add: kill_instance_def)
qed

text \<open>Removing an instance after its kill is killing it after its removal.\<close>

lemma evict_commute:
  assumes "i \<in> set (instances a)"
  shows "remove_instance i (snd (kill_instance ans i a)) = snd (kill_instance ans i (remove_instance i a))"
  using assms by (simp add: remove_instance_def kill_instance_def upd_object_def remove_healthy_instance_def)

lemma evict_ok:
  assumes "routing_ok a" "i \<in> set (instances a)"
  shows "routing_ok (remove_instance i (snd (kill_instance ans i a)))"
proof -
  have "i \<notin> routed (remove_instance i a)" using assms(2) by (simp add: remove_instance_def)
  then show ?thesis unfolding evict_commute [OF assms(2)] by (rule kill_ok [OF remove_ok [OF assms(1)]])
qed


lemma object_op_ok:
  assumes ok: "routing_ok a" and f: "\<And>x. state_code (f x) = state_code x"
  shows "routing_ok (upd_object i f a)"
proof (rule routing_okI [OF ok])
  have st: "state_of (upd_object i f a) j = state_of a j" for j
    using f by (cases "objects a i") (auto simp: state_of_upd inst_state_def state_of_Some)
  fix j assume "elem_ok a j"
  then show "elem_ok (upd_object i f a) j" by (simp add: elem_ok_def st)
qed simp

lemma state_code_ops [simp]:
  "state_code (request_started x) = state_code x" "state_code (request_finished now x) = state_code x"
  "state_code (record_heartbeat now x) = state_code x" "state_code (set_port p x) = state_code x"
  "state_code (set_process c x) = state_code x"
  by (simp_all add: request_started_def request_finished_def Let_def record_heartbeat_def set_port_def
      set_process_def split: option.splits)

lemma config_ok: "routing_ok a \<Longrightarrow> routing_ok (update_config c a)"
  by (simp add: routing_ok_def update_config_def routed_def state_of_def)

lemma app_exec_ok: "routing_ok a \<Longrightarrow> op_allowed a op \<Longrightarrow> routing_ok (app_exec op a)"
  by (cases op) (simp_all add: set_state_ok set_health_ok suppress_ok enable_ok enable_rollout_ok allocate_ok remove_ok
      kill_ok evict_ok object_op_ok config_ok)

lemma app_run_ok: "app_run a ops b \<Longrightarrow> routing_ok a \<Longrightarrow> routing_ok b"
  by (induction rule: app_run.induct) (auto intro: app_exec_ok)

lemma app_new_ok: "routing_ok (app_new c)"
  by (simp add: routing_ok_def app_new_def routed_def)

subsection \<open>Drained instances\<close>

definition touches :: "string \<Rightarrow> app_op \<Rightarrow> bool" where
  "touches i op = (case op of Set_state j _ \<Rightarrow> j = i | Allocate j _ _ \<Rightarrow> j = i | _ \<Rightarrow> False)"

definition retired :: "app \<Rightarrow> string \<Rightarrow> bool" where
  "retired a i = (objects a i \<noteq> None \<and> (state_of a i = Draining \<or> state_of a i = Stopped))"

lemma retired_set_state: "retired a i \<Longrightarrow> j \<noteq> i \<Longrightarrow> retired (snd (set_instance_state j st a)) i"
  by (auto simp: retired_def set_instance_state_def Let_def state_of_upd simp del: not_None_eq)

lemma retired_fold:
  "retired a i \<Longrightarrow> retired (fold (\<lambda>j a. snd (enable_instance_routing j a)) is a) i"
  by (induction "is" arbitrary: a) (auto simp: retired_def enable_instance_routing_def Let_def)

lemma retired_kill: "retired a i \<Longrightarrow> retired (snd (kill_instance ans j a)) i"
  using kill_state [of ans "the (objects a j)"]
  by (cases "objects a j") (auto simp: retired_def kill_instance_def state_of_upd state_of_Some simp del: not_None_eq)

lemma retired_remove: "retired a i \<Longrightarrow> retired (remove_instance j a) i"
  by (auto simp: retired_def remove_instance_def)

lemma retired_object:
  "(\<And>x. state_code (f x) = state_code x) \<Longrightarrow> retired a i \<Longrightarrow> retired (upd_object j f a) i"
  by (cases "objects a j") (auto simp: retired_def state_of_upd inst_state_def state_of_Some simp del: not_None_eq)

lemma app_exec_retired:
  assumes "retired a i" "op_allowed a op" "\<not> touches i op"
  shows "retired (app_exec op a) i"
proof (cases op)
  case (Set_state j st)
  then show ?thesis using assms retired_set_state by (auto simp: touches_def)
next
  case (Set_health j st)
  then show ?thesis
    using assms retired_set_state by (cases "j = i") (auto simp: set_instance_health_state_def retired_def simp del: not_None_eq)
next
  case (Allocate j token now)
  then show ?thesis using assms by (auto simp: touches_def retired_def allocate_instance_def state_of_def)
next
  case (Update_config c)
  then show ?thesis using assms by (simp add: retired_def update_config_def state_of_def)
qed (use assms retired_fold retired_kill retired_remove retired_object in \<open>auto simp: retired_def suppress_instance_routing_def
      enable_instance_routing_def enable_rollout_routing_def Let_def simp del: not_None_eq split: option.splits\<close>)

lemma app_run_retired:
  assumes "app_run a ops b" "retired a i" "\<forall>op \<in> set ops. \<not> touches i op"
  shows "retired b i"
  using assms by (induction rule: app_run.induct) (auto intro: app_exec_retired)


subsection \<open>Round robin\<close>

definition nth_backend :: "string \<Rightarrow> app \<Rightarrow> nat \<Rightarrow> backend option" where
  "nth_backend name a n = map_option (\<lambda>h. \<lparr>be_app_name = name, be_instance = h_id h, be_endpoint = h_endpoint h\<rparr>)
     (healthy_backend_for_request n a)"

lemma get_backends_seq:
  assumes "unat (rr_counter lb) + n < 2 ^ 64"
  shows "get_backends n a lb = map (\<lambda>k. nth_backend (lb_app_name lb) a (unat (rr_counter lb) + k)) [0..<n]"
  using assms
proof (induction n arbitrary: lb)
  case (Suc n)
  let ?lb = "lb\<lparr>rr_counter := rr_counter lb + 1\<rparr>"
  have c: "unat (rr_counter ?lb) = unat (rr_counter lb) + 1" using Suc.prems by (simp add: unat_word_ariths)
  have "get_backends n a ?lb = map (\<lambda>k. nth_backend (lb_app_name ?lb) a (unat (rr_counter ?lb) + k)) [0..<n]"
    using Suc.prems c by (intro Suc.IH) simp
  then have "get_backends n a ?lb = map (\<lambda>k. nth_backend (lb_app_name lb) a (unat (rr_counter lb) + Suc k)) [0..<n]"
    unfolding c by simp
  moreover have "get_backend a lb = (nth_backend (lb_app_name lb) a (unat (rr_counter lb)), ?lb)"
    by (simp add: get_backend_def nth_backend_def)
  ultimately show ?case unfolding map_upt_Suc by simp
qed simp

lemma count_round:
  assumes "p < Suc m"
  shows "count_list (map (\<lambda>k. (c + k) mod Suc m) [0..<Suc m]) p = 1"
proof (induction c)
  case 0
  have "map (\<lambda>k. (0 + k) mod Suc m) [0..<Suc m] = [0..<Suc m]" by (rule map_idI) (simp del: upt_Suc)
  moreover have "count_list [0..<n] p = (if p < n then 1 else 0)" for n by (induction n) auto
  ultimately show ?case using assms by (simp only: if_True)
next
  case (Suc c)
  have "(c + Suc m) mod Suc m = c mod Suc m" by (rule mod_add_self2)
  then have "map (\<lambda>k. (Suc c + k) mod Suc m) [0..<Suc m]
      = map (\<lambda>k. (c + Suc k) mod Suc m) [0..<m] @ [c mod Suc m]" by simp
  moreover have "map (\<lambda>k. (c + k) mod Suc m) [0..<Suc m]
      = (c mod Suc m) # map (\<lambda>k. (c + Suc k) mod Suc m) [0..<m]" unfolding map_upt_Suc by simp
  ultimately show ?case using Suc.IH by (simp del: map_append split: if_splits)
qed

lemma count_rounds:
  assumes "p < Suc m"
  shows "count_list (map (\<lambda>k. (c + k) mod Suc m) [0..<r * Suc m]) p = r"
proof (induction r)
  case (Suc r)
  have "[0..<Suc r * Suc m] = [0..<r * Suc m] @ map (\<lambda>k. k + r * Suc m) [0..<Suc m]"
    unfolding map_add_upt by (metis add.commute le_add2 le0 mult_Suc upt_add_eq_append add_0)
  moreover have "map (\<lambda>k. (c + k) mod Suc m) (map (\<lambda>k. k + r * Suc m) [0..<Suc m])
      = map (\<lambda>k. ((c + r * Suc m) + k) mod Suc m) [0..<Suc m]"
    by (simp add: ac_simps del: upt_Suc mult_Suc_right mod_mult_self2)
  ultimately show ?case using Suc.IH count_round [OF assms, of "c + r * Suc m"]
    by (simp only: map_append count_list_append)
qed simp

lemma count_list_map:
  "(\<And>y. y \<in> set ys \<Longrightarrow> f y = f x \<Longrightarrow> y = x) \<Longrightarrow> count_list (map f ys) (f x) = count_list ys x"
  by (induction ys) auto


section \<open>An instance\<close>

definition all_stop :: stop_answers where
  "all_stop = \<lparr>compose_stopped = True, container_removed = True, kill_sent = True, process_reaped = True\<rparr>"

definition kill_fails :: stop_answers where
  "kill_fails = all_stop\<lparr>kill_sent := False\<rparr>"

definition ex_app_ops :: "app_op list" where
  "ex_app_ops = [Allocate ''a'' ''ta'' 0, Set_port ''a'' ''p1'', Set_process ''a'' (Some 7),
     Set_state ''a'' Ready, Set_health ''a'' Healthy, Allocate ''b'' ''tb'' 0, Suppress ''b'', Set_state ''b'' Ready,
     Set_health ''b'' Healthy]"

definition ex_config :: "32 word \<Rightarrow> app_config" where
  "ex_config mn = app_config_default\<lparr>cfg_name := ''web'', version := ''v1'', min_instances := mn, idle_timeout_ms := 1000\<rparr>"

definition ex_app :: app where
  "ex_app = fold app_exec ex_app_ops (app_new (ex_config 0))"

fun all_allowed :: "app_op list \<Rightarrow> app \<Rightarrow> bool" where
  "all_allowed [] a = True"
| "all_allowed (op # ops) a = (op_allowed a op \<and> all_allowed ops (app_exec op a))"

lemma app_run_trans: "app_run b ops' c \<Longrightarrow> app_run a ops b \<Longrightarrow> app_run a (ops @ ops') c"
proof (induction rule: app_run.induct)
  case (Step b ops' c op)
  then show ?case using app_run.Step [of a "ops @ ops'" c op] by simp
qed simp

lemma app_run_fold: "all_allowed ops a \<Longrightarrow> app_run a ops (fold app_exec ops a)"
proof (induction ops arbitrary: a)
  case (Cons op ops)
  have "app_run a [op] (app_exec op a)" using app_run.Step [OF app_run.Nil, of a op] Cons.prems by simp
  then show ?case using app_run_trans [OF Cons.IH] Cons.prems by fastforce
qed (simp add: app_run.Nil)

lemma ex_app_run: "app_run (app_new (ex_config 0)) ex_app_ops ex_app"
  unfolding ex_app_def by (rule app_run_fold) code_simp

section \<open>Properties\<close>






text \<open>C34. Round robin is exact.  While the routing list of an app does not change, each of its instances
  gets exactly \<open>r\<close> of any \<open>r\<close> times as many requests in a row as there are instances, wherever the
  counter stands, until it wraps around at \<open>2 ^ 64\<close>.\<close>

theorem round_robin_fair:
  assumes "app_run (app_new c) ops a"
    and "h \<in> set (healthy_instances a)"
    and "unat (rr_counter lb) + r * length (healthy_instances a) < 2 ^ 64"
  shows "count_list (get_backends (r * length (healthy_instances a)) a lb)
      (Some \<lparr>be_app_name = lb_app_name lb, be_instance = h_id h, be_endpoint = h_endpoint h\<rparr>) = r"
proof -
  let ?hs = "healthy_instances a"
  obtain m where m: "length ?hs = Suc m" using assms(2) by (cases ?hs) auto
  obtain p where p: "p < Suc m" "?hs ! p = h" using assms(2) m by (metis in_set_conv_nth)
  define f where "f = (\<lambda>p. Some \<lparr>be_app_name = lb_app_name lb, be_instance = h_id (?hs ! p), be_endpoint = h_endpoint (?hs ! p)\<rparr>)"
  have nth: "nth_backend (lb_app_name lb) a k = f (k mod Suc m)" for k
    using m by (auto simp: nth_backend_def healthy_backend_for_request_def f_def)
  have dist: "distinct (map h_id ?hs)"
    using app_run_ok [OF assms(1) app_new_ok] by (simp add: routing_ok_def)
  have inj: "q = p" if "q < Suc m" "f q = f p" for q
  proof -
    have "map h_id ?hs ! q = map h_id ?hs ! p" using that p m by (simp add: f_def)
    moreover have "q < length (map h_id ?hs)" "p < length (map h_id ?hs)" using that(1) p(1) m by simp_all
    ultimately show ?thesis using nth_eq_iff_index_eq [OF dist] by blast
  qed
  let ?c = "unat (rr_counter lb)"
  have "get_backends (r * Suc m) a lb = map (\<lambda>k. nth_backend (lb_app_name lb) a (?c + k)) [0..<r * Suc m]"
    using assms(3) m by (intro get_backends_seq) simp
  also have "\<dots> = map f (map (\<lambda>k. (?c + k) mod Suc m) [0..<r * Suc m])" by (simp add: nth)
  also have "count_list \<dots> (f p) = count_list (map (\<lambda>k. (?c + k) mod Suc m) [0..<r * Suc m]) p"
    by (rule count_list_map) (use inj in auto)
  also have "\<dots> = r" by (rule count_rounds [OF p(1)])
  finally show ?thesis using m p(2) by (simp add: f_def)
qed

theorem round_robin_fair_witness:
  "count_list (get_backends 6 (snd (enable_instance_routing ''b'' ex_app)) (lb_new ''web''))
     (Some \<lparr>be_app_name = ''web'', be_instance = ''b'', be_endpoint = None\<rparr>) = 3"
proof -
  let ?a = "snd (enable_instance_routing ''b'' ex_app)"
  have r: "app_run (app_new (ex_config 0)) (ex_app_ops @ [Enable ''b'']) ?a"
    using app_run.Step [OF ex_app_run, of "Enable ''b''"] by simp
  have len: "length (healthy_instances ?a) = 2" by code_simp
  have c: "unat (rr_counter (lb_new ''web'')) = 0" "lb_app_name (lb_new ''web'') = ''web''" by code_simp+
  have h: "\<lparr>h_id = ''b'', h_endpoint = None\<rparr> \<in> set (healthy_instances ?a)" by code_simp
  show ?thesis using round_robin_fair [OF r h, of "lb_new ''web''" 3] unfolding len c by simp
qed

text \<open>The instance limits are respected on every host.  Clamping a configuration leaves a minimum
  that is within the configured maximum and the host's limit and that validation accepts, reports the
  change exactly when there is one, and does nothing the second time.  The host's limit is twice the
  parallelism, at least one, without overflow.\<close>

theorem clamp_within_limits:
  "(let (change, c') = clamp_instances_to_limit p c; limit = effective_instance_limit p (max_instances c)
    in min_instances c' = min (min_instances c) limit \<and> limit \<le> max_instances c
      \<and> validate_requested_instances p (min_instances c') (max_instances c')
      \<and> change = (if min_instances c \<le> limit then None else Some (min_instances c, limit))
      \<and> clamp_instances_to_limit p c' = (None, c'))
   \<and> unat (host_instance_limit_for_parallelism p) = max 1 (min (2 * unat p) (2 ^ 32 - 1))"
proof -
  have m1: "unat (- 1 :: 32 word) = 2 ^ 32 - 1" by (simp add: unsigned_minus_1_eq_mask mask_eq_exp_minus_1)
  have "unat (u32_sat_mul2 p) = min (2 * unat p) (2 ^ 32 - 1)"
    by (auto simp: u32_sat_mul2_def m1 unat_word_ariths)
  moreover have "unat (max x 1) = max 1 (unat x)" for x :: "32 word"
    by (auto simp: max_def word_le_nat_alt)
  ultimately have h: "unat (host_instance_limit_for_parallelism p) = max 1 (min (2 * unat p) (2 ^ 32 - 1))"
    by (simp add: host_instance_limit_for_parallelism_def)
  have le: "effective_instance_limit p (max_instances c) \<le> max_instances c"
    by (simp add: effective_instance_limit_def)
  show ?thesis
  proof (cases "min_instances c \<le> effective_instance_limit p (max_instances c)")
    case True
    then show ?thesis using le unfolding h
      by (simp add: clamp_instances_to_limit_def validate_requested_instances_def not_less min.absorb1)
  next
    case False
    then show ?thesis using le unfolding h
      by (simp add: clamp_instances_to_limit_def validate_requested_instances_def Let_def not_le min.absorb2 less_imp_le)
  qed
qed

section \<open>Two windows\<close>

text \<open>The idle path kills an instance that is still in routing and removes it only then: until the
  removal, requests are sent to the stopped instance.\<close>

lemma idle_kill_still_routed:
  "let a = snd (kill_instance all_stop ''a'' ex_app)
   in state_of a ''a'' = Stopped \<and> map_option be_instance (fst (get_backend a (lb_new ''web''))) = Some ''a''"
  by code_simp

text \<open>An unhealthy instance whose kill failed and that was removed is put back into routing by a health
  check that was under way: it is routed without being registered, so no later check or removal takes
  it out.\<close>

lemma removed_instance_routed_again:
  "let a = fold app_exec [Set_health ''a'' Unhealthy, Kill kill_fails ''a'', Remove ''a'', Set_health ''a'' Healthy] ex_app
   in ''a'' \<notin> set (instances a) \<and> map_option be_instance (fst (get_backend a (lb_new ''web''))) = Some ''a''
      \<and> remove_instance ''a'' a = a"
proof -
  let ?a = "fold app_exec [Set_health ''a'' Unhealthy, Kill kill_fails ''a'', Remove ''a'', Set_health ''a'' Healthy] ex_app"
  have i: "''a'' \<notin> set (instances ?a)" by code_simp
  have "map_option be_instance (fst (get_backend ?a (lb_new ''web''))) = Some ''a''" by code_simp
  with i show ?thesis unfolding Let_def remove_instance_def by (simp only: if_False simp_thms)
qed

end
