(* ===== verification/Health.thy ===== *)
theory Health
  imports Instances Decimal
begin

text \<open>
  Active health checking (\<^verbatim>\<open>tako-server/src/instances/health.rs\<close>): what one check of an
  instance does with the answer of its probe, and how the answer of an HTTP probe is read.

  Whether the process is alive and what the probe's connection delivers are arguments.  A check reads
  the instance's state when it begins and acts on it when the probe has answered, so the state it
  began with is an argument too: other operations may come in between.
\<close>

section \<open>Checks\<close>

text \<open>Durations are in milliseconds.\<close>

record health_config =
  check_interval :: nat
  startup_check_interval :: nat
  unhealthy_threshold :: "32 word"
  dead_threshold :: "32 word"
  probe_timeout :: nat
  max_probe_concurrency :: nat

definition health_config_default :: health_config where
  "health_config_default =
     \<lparr>check_interval = 1000, startup_check_interval = 100, unhealthy_threshold = 2, dead_threshold = 3,
      probe_timeout = 2000, max_probe_concurrency = 16\<rparr>"

definition effective_probe_concurrency :: "nat \<Rightarrow> nat" where
  "effective_probe_concurrency n = max n 1"

definition monitor_interval :: "health_config \<Rightarrow> app \<Rightarrow> nat" where
  "monitor_interval cfg a = (if has_starting_instance a then startup_check_interval cfg else check_interval cfg)"

datatype health_event =
    Ev_Healthy string string
  | Ev_Unhealthy string string
  | Ev_Dead string string
  | Ev_Recovered string string

record health_probe_failure =
  reason :: string
  detail :: string

definition instance_key :: "string \<Rightarrow> string \<Rightarrow> string" where
  "instance_key app_name i = app_name @ '':'' @ i"

definition new_health_state :: "health_config \<Rightarrow> bool \<Rightarrow> 32 word \<Rightarrow> instance_state \<Rightarrow> instance_state" where
  "new_health_state cfg suppressed failure_count current =
     (if suppressed then Unhealthy
      else if failure_count \<ge> dead_threshold cfg then Stopped
      else if failure_count \<ge> unhealthy_threshold cfg then Unhealthy
      else current)"

type_synonym failure_counts = "string \<Rightarrow> 32 word option"

text \<open>One check of instance \<open>i\<close>: the state it began with, whether the process is alive, the answer
  of the probe and the time; the events it sends.\<close>

definition check_instance ::
    "health_config \<Rightarrow> string \<Rightarrow> string \<Rightarrow> instance_state \<Rightarrow> bool \<Rightarrow> health_probe_failure + unit \<Rightarrow> 64 word
      \<Rightarrow> app \<times> failure_counts \<Rightarrow> health_event list \<times> app \<times> failure_counts" where
  "check_instance cfg app_name i current_state alive probe_result now = (\<lambda>(a, counts).
     if current_state = Starting \<or> current_state = Draining \<or> current_state = Stopped then ([], a, counts)
     else
       let key = instance_key app_name i
       in if \<not> alive then
            let (ok, a') = set_instance_health_state i Stopped a
            in (if ok then [Ev_Dead app_name i] else [], a', counts(key := None))
          else case probe_result of
            Inr _ \<Rightarrow>
              let a1 = upd_object i (record_heartbeat now) a
              in if current_state \<noteq> Healthy then
                   let (ok, a2) = set_instance_health_state i Healthy a1
                   in (if ok then [if current_state = Unhealthy then Ev_Recovered app_name i
                                   else Ev_Healthy app_name i] else [], a2, counts(key := None))
                 else ([], a1, counts(key := None))
          | Inl failure \<Rightarrow>
              let failure_count = (case counts key of Some n \<Rightarrow> n | None \<Rightarrow> 0) + 1;
                  counts' = counts(key \<mapsto> failure_count);
                  new_state = new_health_state cfg (i \<in> set (routing_suppressed a)) failure_count current_state
              in if new_state \<noteq> current_state then
                   let (ok, a') = set_instance_health_state i new_state a
                   in (if ok then (case new_state of
                                     Unhealthy \<Rightarrow> [Ev_Unhealthy app_name i]
                                   | Stopped \<Rightarrow> [Ev_Dead app_name i]
                                   | _ \<Rightarrow> []) else [], a', counts')
                 else ([], a, counts'))"

text \<open>Checks in a row with nothing in between: each begins with the state the one before left.\<close>

fun check_sequence ::
    "health_config \<Rightarrow> string \<Rightarrow> string \<Rightarrow> (bool \<times> (health_probe_failure + unit) \<times> 64 word) list
      \<Rightarrow> app \<times> failure_counts \<Rightarrow> health_event list \<times> app \<times> failure_counts" where
  "check_sequence cfg app_name i [] s = ([], s)"
| "check_sequence cfg app_name i ((alive, probe, now) # cs) s =
     (let (es, s') = check_instance cfg app_name i (state_of (fst s) i) alive probe now s;
          (es', s'') = check_sequence cfg app_name i cs s'
      in (es @ es', s''))"

section \<open>Reading an HTTP answer\<close>

definition MAX_HEALTH_RESPONSE_BYTES :: nat where
  "MAX_HEALTH_RESPONSE_BYTES = 4096"

definition INTERNAL_TOKEN_HEADER :: string where
  "INTERNAL_TOKEN_HEADER = ''X-Tako-Internal-Token''"

fun has_window :: "string \<Rightarrow> string \<Rightarrow> bool" where
  "has_window w [] = (w = [])"
| "has_window w (ch # s) = (starts_with (ch # s) w \<or> has_window w s)"

definition crlf :: string where
  "crlf = [CHR 0x0D, CHR 0x0A]"

text \<open>The chunks the socket delivers: an error or the bytes of one read, empty at the end.\<close>

fun read_http_response_headers ::
    "(health_probe_failure + string) list \<Rightarrow> string \<Rightarrow> health_probe_failure + string" where
  "read_http_response_headers [] response =
     (if response = [] then Inl \<lparr>reason = ''empty_response'', detail = ''connection closed before response headers''\<rparr>
      else Inr response)"
| "read_http_response_headers (Inl e # chunks) response = Inl e"
| "read_http_response_headers (Inr chunk # chunks) response =
     (if chunk = [] then read_http_response_headers [] response
      else let response' = response @ chunk
           in if length response' > MAX_HEALTH_RESPONSE_BYTES
              then Inl \<lparr>reason = ''oversized_response'', detail = ''response headers exceeded size limit''\<rparr>
              else if has_window (crlf @ crlf) response' then read_http_response_headers [] response'
              else read_http_response_headers chunks response')"

fun split_whitespace_acc :: "string \<Rightarrow> string \<Rightarrow> string list" where
  "split_whitespace_acc word [] = (if word = [] then [] else [rev word])"
| "split_whitespace_acc word (ch # s) =
     (if is_space ch then (if word = [] then [] else [rev word]) @ split_whitespace_acc [] s
      else split_whitespace_acc (ch # word) s)"

definition split_whitespace :: "string \<Rightarrow> string list" where
  "split_whitespace s = split_whitespace_acc [] s"

text \<open>Lines end at a line feed, with a carriage return before it dropped.\<close>

definition drop_cr :: "string \<Rightarrow> string" where
  "drop_cr line = (if line \<noteq> [] \<and> hd line = CHR 0x0D then tl line else line)"

fun str_lines_acc :: "string \<Rightarrow> string \<Rightarrow> string list" where
  "str_lines_acc line [] = (if line = [] then [] else [rev line])"
| "str_lines_acc line (ch # s) =
     (if ch = CHR 0x0A
      then rev (drop_cr line) # str_lines_acc [] s
      else str_lines_acc (ch # line) s)"

definition str_lines :: "string \<Rightarrow> string list" where
  "str_lines s = str_lines_acc [] s"

definition split_once :: "char \<Rightarrow> string \<Rightarrow> (string \<times> string) option" where
  "split_once c s = (case dropWhile (\<lambda>x. x \<noteq> c) s of
     [] \<Rightarrow> None | _ # rest \<Rightarrow> Some (takeWhile (\<lambda>x. x \<noteq> c) s, rest))"

definition http_status_is_success :: "string \<Rightarrow> bool \<Rightarrow> bool" where
  "http_status_is_success status_line allow_redirect = (case split_whitespace status_line of
     [] \<Rightarrow> False
   | http_version # rest \<Rightarrow>
       starts_with http_version ''HTTP/'' \<and>
       (case rest of [] \<Rightarrow> False
        | code # _ \<Rightarrow> (case parse_u16 code of None \<Rightarrow> False
            | Some n \<Rightarrow> 200 \<le> n \<and> n < (if allow_redirect then 400 else 300))))"

definition http_response_is_success :: "string \<Rightarrow> string option \<Rightarrow> health_probe_failure + unit" where
  "http_response_is_success response expected_token =
     (let lines = str_lines response;
          status_line = (case lines of [] \<Rightarrow> [] | l # _ \<Rightarrow> l)
      in if \<not> http_status_is_success status_line (expected_token = None)
         then Inl \<lparr>reason = ''bad_status'', detail = status_line\<rparr>
         else case expected_token of
           None \<Rightarrow> Inr ()
         | Some token \<Rightarrow>
             if list_ex (\<lambda>(name, value). eq_ignore_ascii_case name INTERNAL_TOKEN_HEADER \<and> trim value = token)
                  (List.map_filter (split_once CHR '':'') (takeWhile (\<lambda>l. l \<noteq> []) (drop 1 lines)))
             then Inr ()
             else Inl \<lparr>reason = ''missing_internal_token'',
                    detail = ''status response did not echo the expected internal token''\<rparr>)"

text \<open>A probe: no endpoint, a failed connection, or the bytes it delivered.\<close>

definition probe_instance_health ::
    "inst \<Rightarrow> (string \<Rightarrow> health_probe_failure + (health_probe_failure + string) list) \<Rightarrow> health_probe_failure + unit" where
  "probe_instance_health x connect = (case endpoint x of
     None \<Rightarrow> Inl \<lparr>reason = ''missing_endpoint'', detail = ''instance has no private upstream endpoint''\<rparr>
   | Some ep \<Rightarrow> (case connect ep of
       Inl e \<Rightarrow> Inl e
     | Inr chunks \<Rightarrow> (case read_http_response_headers chunks [] of
         Inl e \<Rightarrow> Inl e | Inr response \<Rightarrow> http_response_is_success response (health_token x))))"


section \<open>Consecutive failures\<close>

lemma set_health_effect:
  assumes "objects a i \<noteq> None" "state_of a i \<noteq> Draining" "state_of a i \<noteq> Stopped"
  shows "fst (set_instance_health_state i st a)"
    and "state_of (snd (set_instance_health_state i st a)) i = st"
    and "objects (snd (set_instance_health_state i st a)) i \<noteq> None"
    and "routing_suppressed (snd (set_instance_health_state i st a)) = routing_suppressed a"
  using assms
  by (simp_all add: set_instance_health_state_def set_instance_state_def Let_def state_of_upd del: not_None_eq)

lemma check_sequence_snoc:
  "check_sequence cfg nm i (cs @ [(alive, probe, now)]) s =
     (let (es, s') = check_sequence cfg nm i cs s;
          (es', s'') = check_instance cfg nm i (state_of (fst s') i) alive probe now s'
      in (es @ es', s''))"
proof (induction cs arbitrary: s)
  case (Cons c cs)
  show ?case by (cases c) (simp add: Let_def case_prod_beta Cons.IH)
qed (simp add: Let_def case_prod_beta)

definition failed_state :: "nat \<Rightarrow> nat \<Rightarrow> instance_state \<Rightarrow> nat \<Rightarrow> instance_state" where
  "failed_state u d st n = (if n \<ge> d then Stopped else if n \<ge> u then Unhealthy else st)"

definition failing :: "health_config \<Rightarrow> string \<Rightarrow> string \<Rightarrow> instance_state \<Rightarrow> nat \<Rightarrow> health_event list \<times> app \<times> failure_counts \<Rightarrow> bool" where
  "failing cfg nm i st n = (\<lambda>(es, a, counts).
     let u = unat (unhealthy_threshold cfg); d = unat (dead_threshold cfg)
     in objects a i \<noteq> None \<and> i \<notin> set (routing_suppressed a) \<and> state_of a i = failed_state u d st n
        \<and> (case counts (instance_key nm i) of Some c \<Rightarrow> unat c | None \<Rightarrow> 0) = min n d
        \<and> es = (if n \<ge> u then [Ev_Unhealthy nm i] else []) @ (if n \<ge> d then [Ev_Dead nm i] else []))"

lemma failing_step:
  assumes ok: "failing cfg nm i st n (es, s)" and st: "st = Healthy \<or> st = Ready"
    and th: "0 < unat (unhealthy_threshold cfg)" "unat (unhealthy_threshold cfg) < unat (dead_threshold cfg)"
    and res: "check_instance cfg nm i (state_of (fst s) i) True (Inl f) now s = (es', s')"
  shows "failing cfg nm i st (Suc n) (es @ es', s')"
proof -
  obtain a counts where s: "s = (a, counts)" by fastforce
  let ?u = "unat (unhealthy_threshold cfg)" and ?d = "unat (dead_threshold cfg)"
  let ?c = "case counts (instance_key nm i) of Some c \<Rightarrow> c | None \<Rightarrow> 0"
  have f: "objects a i \<noteq> None" "i \<notin> set (routing_suppressed a)" "state_of a i = failed_state ?u ?d st n"
      "unat ?c = min n ?d"
      "es = (if n \<ge> ?u then [Ev_Unhealthy nm i] else []) @ (if n \<ge> ?d then [Ev_Dead nm i] else [])"
    using ok by (auto simp: failing_def s Let_def split: option.splits)
  show ?thesis
  proof (cases "n \<ge> ?d")
    case True
    then have "state_of a i = Stopped" using f(3) by (simp add: failed_state_def)
    then have "es' = [] \<and> s' = s" using res by (simp add: check_instance_def s)
    then show ?thesis using True f th by (auto simp: failing_def s failed_state_def Let_def split: option.splits)
  next
    case False
    have "?d < 2 ^ 32" using unsigned_less [of "dead_threshold cfg"] by simp
    then have c1: "unat (?c + 1) = Suc n" using False f(4) by (simp add: unat_word_ariths)
    let ?cur = "failed_state ?u ?d st n" and ?new = "failed_state ?u ?d st (Suc n)"
    have ns: "new_health_state cfg False (?c + 1) ?cur = ?new"
      using False c1 by (auto simp: new_health_state_def failed_state_def word_le_nat_alt)
    have live: "?cur = Healthy \<or> ?cur = Ready \<or> ?cur = Unhealthy"
      using False st by (auto simp: failed_state_def)
    let ?set = "set_instance_health_state i ?new a"
    have eff: "fst ?set" "state_of (snd ?set) i = ?new" "objects (snd ?set) i \<noteq> None"
        "routing_suppressed (snd ?set) = routing_suppressed a"
      using set_health_effect [OF f(1), of ?new] live f(3) by auto
    let ?counts = "counts(instance_key nm i \<mapsto> ?c + 1)"
    have step: "es' = (if ?new = ?cur then [] else case ?new of Unhealthy \<Rightarrow> [Ev_Unhealthy nm i] | Stopped \<Rightarrow> [Ev_Dead nm i] | _ \<Rightarrow> [])
        \<and> s' = (if ?new = ?cur then (a, ?counts) else (snd ?set, ?counts))"
    proof (cases "?new = ?cur")
      case True
      then show ?thesis
        using res live f ns by (auto simp: check_instance_def s Let_def)
    next
      case False
      then show ?thesis
        using res live f ns eff(1) by (auto simp: check_instance_def s Let_def case_prod_beta)
    qed
    have st': "state_of (fst s') i = ?new" "objects (fst s') i \<noteq> None" "i \<notin> set (routing_suppressed (fst s'))"
        "snd s' = ?counts"
      using step eff f by (auto split: if_splits)
    moreover have "es @ es' = (if Suc n \<ge> ?u then [Ev_Unhealthy nm i] else []) @ (if Suc n \<ge> ?d then [Ev_Dead nm i] else [])"
      using step f(5) False st th by (auto simp: failed_state_def)
    ultimately show ?thesis
      using False c1 by (cases s') (simp add: failing_def Let_def)
  qed
qed


lemma failing_run:
  assumes "objects a i \<noteq> None" "state_of a i = st" "st = Healthy \<or> st = Ready" "i \<notin> set (routing_suppressed a)"
    and "counts (instance_key nm i) = None"
    and "0 < unat (unhealthy_threshold cfg)" "unat (unhealthy_threshold cfg) < unat (dead_threshold cfg)"
  shows "failing cfg nm i st (length fs) (check_sequence cfg nm i (map (\<lambda>(f, now). (True, Inl f, now)) fs) (a, counts))"
proof (induction fs rule: rev_induct)
  case Nil
  then show ?case using assms by (auto simp: failing_def failed_state_def Let_def)
next
  case (snoc x fs)
  obtain f now where x: "x = (f, now)" by fastforce
  obtain es s where p: "check_sequence cfg nm i (map (\<lambda>(f, now). (True, Inl f, now)) fs) (a, counts) = (es, s)" by (metis prod.exhaust)
  obtain es' s' where q: "check_instance cfg nm i (state_of (fst s) i) True (Inl f) now s = (es', s')" by (metis prod.exhaust)
  have "failing cfg nm i st (Suc (length fs)) (es @ es', s')"
    using failing_step [OF _ assms(3,6,7) q] snoc.IH p by simp
  then show ?case using p q by (simp add: x check_sequence_snoc)
qed

subsection \<open>Lines and tokens\<close>

lemma str_lines_acc_line:
  "CHR 0x0A \<notin> set l \<Longrightarrow> str_lines_acc acc (l @ CHR 0x0A # s) =
     rev (drop_cr (rev l @ acc)) # str_lines_acc [] s"
  by (induction l arbitrary: acc) auto

lemma str_lines_crlf: "CHR 0x0A \<notin> set l \<Longrightarrow> str_lines (l @ crlf @ s) = l # str_lines s"
  using str_lines_acc_line [of "l @ [CHR 0x0D]" "[]" s] by (simp add: str_lines_def crlf_def drop_cr_def)

lemma split_once_first: "c \<notin> set s \<Longrightarrow> split_once c (s @ c # t) = Some (s, t)"
proof -
  assume c: "c \<notin> set s"
  have "dropWhile (\<lambda>x. x \<noteq> c) (s @ c # t) = c # t" "takeWhile (\<lambda>x. x \<noteq> c) (s @ c # t) = s"
    using c by (induction s) auto
  then show ?thesis by (simp add: split_once_def)
qed

lemma trim_token:
  assumes "list_all (\<lambda>ch. \<not> is_space ch) t"
  shows "trim (CHR '' '' # t) = t"
proof -
  have n: "dropWhile is_space u = u" if "list_all (\<lambda>ch. \<not> is_space ch) u" for u
    using that by (cases u) auto
  have "list_all (\<lambda>ch. \<not> is_space ch) (rev t)" using assms by (simp add: list_all_iff)
  then show ?thesis using n [OF assms] n [of "rev t"] by (simp add: trim_def is_space_def)
qed

definition health_answer :: "string \<Rightarrow> string \<Rightarrow> string" where
  "health_answer token body =
     ''HTTP/1.1 200 OK'' @ crlf @ (INTERNAL_TOKEN_HEADER @ '': '' @ token) @ crlf @ [] @ crlf @ body"

lemma health_answer_lines:
  assumes "list_all (\<lambda>ch. \<not> is_space ch) t"
  shows "str_lines (health_answer t body) = ''HTTP/1.1 200 OK'' # (INTERNAL_TOKEN_HEADER @ '': '' @ t) # [] # str_lines body"
proof -
  have "CHR 0x0A \<notin> set t" using assms by (auto simp: list_all_iff is_space_def)
  then have n: "CHR 0x0A \<notin> set (INTERNAL_TOKEN_HEADER @ '': '' @ t)" by (simp add: INTERNAL_TOKEN_HEADER_def)
  have "str_lines (health_answer t body) = ''HTTP/1.1 200 OK'' # str_lines ((INTERNAL_TOKEN_HEADER @ '': '' @ t) @ crlf @ [] @ crlf @ body)"
    unfolding health_answer_def by (rule str_lines_crlf) simp
  also have "str_lines ((INTERNAL_TOKEN_HEADER @ '': '' @ t) @ crlf @ [] @ crlf @ body)
      = (INTERNAL_TOKEN_HEADER @ '': '' @ t) # str_lines ([] @ crlf @ body)" by (rule str_lines_crlf [OF n])
  also have "str_lines ([] @ crlf @ body) = [] # str_lines body" by (rule str_lines_crlf) simp
  finally show ?thesis .
qed

lemma read_prefix:
  assumes "read_http_response_headers chunks acc = Inr r" "length acc \<le> 4096"
  shows "r \<noteq> [] \<and> length r \<le> 4096 \<and> (\<exists>k. r = acc @ concat (map (\<lambda>c. case c of Inr b \<Rightarrow> b | Inl _ \<Rightarrow> []) (take k chunks)))"
  using assms
proof (induction chunks acc rule: read_http_response_headers.induct)
  case (1 response)
  then show ?case by (auto split: if_splits)
next
  case (3 chunk chunks response)
  show ?case
  proof (cases "chunk = []")
    case True
    then show ?thesis using "3.prems" by (auto split: if_splits intro: exI [of _ 0])
  next
    case False
    have le: "length (response @ chunk) \<le> 4096"
      using "3.prems"(1) False by (auto simp: Let_def MAX_HEALTH_RESPONSE_BYTES_def split: if_splits)
    consider "read_http_response_headers [] (response @ chunk) = Inr r"
      | "\<not> has_window (crlf @ crlf) (response @ chunk)" "read_http_response_headers chunks (response @ chunk) = Inr r"
      using "3.prems"(1) False by (auto simp: Let_def split: if_splits)
    then show ?thesis
    proof cases
      case 1
      then show ?thesis using le by (auto split: if_splits intro: exI [of _ 1])
    next
      case 2
      then have "r \<noteq> [] \<and> length r \<le> 4096 \<and>
          (\<exists>k. r = (response @ chunk) @ concat (map (\<lambda>c. case c of Inr b \<Rightarrow> b | Inl _ \<Rightarrow> []) (take k chunks)))"
        using "3.IH"(3) [OF False refl _ 2] le by (simp add: MAX_HEALTH_RESPONSE_BYTES_def)
      then obtain k where "r = (response @ chunk) @ concat (map (\<lambda>c. case c of Inr b \<Rightarrow> b | Inl _ \<Rightarrow> []) (take k chunks))"
          "r \<noteq> []" "length r \<le> 4096" by blast
      then show ?thesis by (intro conjI exI [of _ "Suc k"]) simp_all
    qed
  qed
qed simp


section \<open>Properties\<close>

text \<open>C37. Consecutive failures take an instance through the thresholds in order.  For thresholds
  \<open>0 < u < d\<close> and an instance in routing whose probes fail \<open>n\<close> times in a row: it keeps its state
  below \<open>u\<close>, is unhealthy from \<open>u\<close> and stopped from \<open>d\<close>, exactly one event is sent at each
  threshold, and nothing more happens after that.\<close>

theorem health_thresholds:
  assumes "objects a i \<noteq> None" "state_of a i = Healthy \<or> state_of a i = Ready" "i \<notin> set (routing_suppressed a)"
    and "counts (instance_key nm i) = None"
    and "0 < unhealthy_threshold cfg" "unhealthy_threshold cfg < dead_threshold cfg"
    and run: "check_sequence cfg nm i (map (\<lambda>(f, now). (True, Inl f, now)) fs) (a, counts) = (es, a', counts')"
  shows "state_of a' i = (if length fs \<ge> unat (dead_threshold cfg) then Stopped
        else if length fs \<ge> unat (unhealthy_threshold cfg) then Unhealthy else state_of a i)
    \<and> es = (if length fs \<ge> unat (unhealthy_threshold cfg) then [Ev_Unhealthy nm i] else [])
        @ (if length fs \<ge> unat (dead_threshold cfg) then [Ev_Dead nm i] else [])"
  using failing_run [OF assms(1) refl assms(2,3), where counts = counts and nm = nm and cfg = cfg, of fs] assms(4-6)
  unfolding run by (simp add: failing_def failed_state_def Let_def word_less_nat_alt)

theorem health_thresholds_witness:
  "fst (check_sequence health_config_default ''web'' ''a''
      (map (\<lambda>(f, now). (True, Inl f, now)) (replicate 5 (\<lparr>reason = ''connect_failed'', detail = []\<rparr>, 9))) (ex_app, \<lambda>_. None))
    = [Ev_Unhealthy ''web'' ''a'', Ev_Dead ''web'' ''a'']"
proof -
  let ?fs = "replicate 5 (\<lparr>reason = ''connect_failed'', detail = []\<rparr>, 9 :: 64 word)"
  let ?r = "check_sequence health_config_default ''web'' ''a'' (map (\<lambda>(f, now). (True, Inl f, now)) ?fs) (ex_app, \<lambda>_. None)"
  have a: "objects ex_app ''a'' \<noteq> None" "state_of ex_app ''a'' = Healthy \<or> state_of ex_app ''a'' = Ready"
      "''a'' \<notin> set (routing_suppressed ex_app)" by code_simp+
  have c: "0 < unhealthy_threshold health_config_default"
      "unhealthy_threshold health_config_default < dead_threshold health_config_default"
      "unat (unhealthy_threshold health_config_default) = 2" "unat (dead_threshold health_config_default) = 3"
    by (simp_all add: health_config_default_def)
  have "?r = (fst ?r, fst (snd ?r), snd (snd ?r))" by simp
  from health_thresholds [OF a refl c(1,2) this] show ?thesis unfolding c by simp
qed

text \<open>A health check never brings a stopping instance back.  However old the state it began with,
  whatever the process and the probe answer, a check of an instance that is by now draining or stopped
  leaves the state of every instance and the routing list as they are and sends no event.\<close>

theorem health_check_respects_drain:
  assumes "state_of a i = Draining \<or> state_of a i = Stopped"
    and "check_instance cfg nm i current alive probe now (a, counts) = (es, a', counts')"
  shows "es = [] \<and> (\<forall>j. state_of a' j = state_of a j) \<and> healthy_instances a' = healthy_instances a"
proof -
  have ref: "set_instance_health_state i st x = (False, x)" if "state_of x i = Draining \<or> state_of x i = Stopped" for st x
    using that by (simp add: set_instance_health_state_def)
  have hb: "state_of (upd_object i (record_heartbeat now) a) j = state_of a j" for j
    by (cases "objects a i") (auto simp: state_of_upd state_of_Some inst_state_def)
  show ?thesis
    using assms ref [of a] ref [of "upd_object i (record_heartbeat now) a"] hb
    by (auto simp: check_instance_def Let_def split: if_splits sum.splits)
qed

theorem health_check_respects_drain_witness:
  "fst (check_instance health_config_default ''web'' ''a'' Unhealthy True (Inr ()) 9
      (snd (set_instance_state ''a'' Draining ex_app), \<lambda>_. None)) = []"
proof -
  let ?a = "snd (set_instance_state ''a'' Draining ex_app)"
  let ?r = "check_instance health_config_default ''web'' ''a'' Unhealthy True (Inr ()) 9 (?a, \<lambda>_. None)"
  have "state_of ?a ''a'' = Draining \<or> state_of ?a ''a'' = Stopped" by code_simp
  moreover have "?r = (fst ?r, fst (snd ?r), snd (snd ?r))" by simp
  ultimately show ?thesis using health_check_respects_drain by blast
qed

text \<open>The token decides.  An answer that echoes a token in its header, whatever its body, passes
  the probe exactly when the token is the instance's own, so another process that took over the port
  cannot pass for the instance.\<close>

theorem token_echo_decides:
  assumes "list_all (\<lambda>ch. \<not> is_space ch) t"
  shows "(http_response_is_success (health_answer t body) (Some token) = Inr ()) = (t = token)"
proof -
  have st: "http_status_is_success ''HTTP/1.1 200 OK'' False" by code_simp
  have n: "CHR '':'' \<notin> set INTERNAL_TOKEN_HEADER" by code_simp
  have "split_once CHR '':'' (INTERNAL_TOKEN_HEADER @ '': '' @ t) = Some (INTERNAL_TOKEN_HEADER, CHR '' '' # t)"
    using split_once_first [OF n, of "CHR '' '' # t"] by simp
  then show ?thesis
    using st trim_token [OF assms] unfolding http_response_is_success_def Let_def health_answer_lines [OF assms]
    by (simp add: List.map_filter_def INTERNAL_TOKEN_HEADER_def)
qed

theorem token_echo_decides_witness:
  "(http_response_is_success (health_answer ''secret'' ''ok'') (Some ''secret'') = Inr ()) = (''secret'' = ''secret'')"
  by (rule token_echo_decides) code_simp

text \<open>Reading a probe's answer is bounded: what is read is never empty, never longer than 4096
  bytes, and is what the socket delivered, without gaps.\<close>

theorem health_response_bounded:
  assumes "read_http_response_headers chunks [] = Inr r"
  shows "r \<noteq> [] \<and> length r \<le> 4096
    \<and> (\<exists>k. r = concat (map (\<lambda>c. case c of Inr b \<Rightarrow> b | Inl _ \<Rightarrow> []) (take k chunks)))"
  using read_prefix [OF assms] by simp

theorem health_response_bounded_witness:
  "length (''HTTP/1.1 200 OK'' @ crlf @ crlf) \<le> 4096"
proof -
  have "read_http_response_headers [Inr ''HTTP/1.1 200 '', Inr (''OK'' @ crlf @ crlf), Inr ''x''] []
      = Inr (''HTTP/1.1 200 OK'' @ crlf @ crlf)"
    by (simp add: MAX_HEALTH_RESPONSE_BYTES_def crlf_def starts_with_def Let_def)
  then show ?thesis using health_response_bounded by blast
qed

end
