(* ===== verification/Cold_Start.thy ===== *)
theory Cold_Start
  imports Prelude
begin

text \<open>
  Cold starts (\<^verbatim>\<open>tako-server/src/scaling/cold_start.rs\<close>): one request starts the instance,
  the others queue until it is ready, has failed or takes too long.

  Each attempt to start an app has its own broadcast channel and its own semaphore; the model numbers
  the attempts and keeps the channel and the free permits of each.  A request that queues holds a
  permit of the attempt it joined until it has its answer, also when the app has been reset since.
  The requests waiting are the list of the attempts they wait for.
\<close>

section \<open>The manager\<close>

datatype cold_start_state = CS_Idle | CS_Starting | CS_Ready | CS_Failed

datatype channel = Open_Channel | Sent bool | Closed_Channel

datatype wait_outcome = Wait_Ready | Wait_Failed | Wait_Timeout | Wait_QueueFull

record app_cold_start =
  cs_state :: cold_start_state
  started_at :: "int option"
  ready_tx :: "nat option"
  queue_slots :: nat

record cold_start_manager =
  cold_apps :: "string \<Rightarrow> app_cold_start option"
  channels :: "nat \<Rightarrow> channel"
  permits :: "nat \<Rightarrow> nat"
  waiting :: "nat list"
  next_attempt :: nat

definition cold_new :: cold_start_manager where
  "cold_new = \<lparr>cold_apps = Map.empty, channels = (\<lambda>_. Closed_Channel), permits = (\<lambda>_. 0), waiting = [], next_attempt = 1\<rparr>"

text \<open>A new entry has a semaphore of its own without permits, numbered 0.\<close>

definition app_cold_start_new :: app_cold_start where
  "app_cold_start_new = \<lparr>cs_state = CS_Idle, started_at = None, ready_tx = None, queue_slots = 0\<rparr>"

definition is_cold_starting :: "string \<Rightarrow> cold_start_manager \<Rightarrow> bool" where
  "is_cold_starting app m = (case cold_apps m app of Some cs \<Rightarrow> cs_state cs = CS_Starting | None \<Rightarrow> False)"

definition begin_cold_start :: "nat \<Rightarrow> int \<Rightarrow> string \<Rightarrow> cold_start_manager \<Rightarrow> bool \<times> cold_start_manager" where
  "begin_cold_start max_queued now app m =
     (let cs = (case cold_apps m app of Some cs \<Rightarrow> cs | None \<Rightarrow> app_cold_start_new)
      in if cs_state cs = CS_Idle \<or> cs_state cs = CS_Failed then
           let att = next_attempt m
           in (True, m\<lparr>cold_apps := (cold_apps m)(app \<mapsto> \<lparr>cs_state = CS_Starting, started_at = Some now,
                         ready_tx = Some att, queue_slots = att\<rparr>),
                       channels := (channels m)(att := Open_Channel), permits := (permits m)(att := max_queued),
                       next_attempt := att + 1\<rparr>)
         else (False, m\<lparr>cold_apps := (cold_apps m)(app \<mapsto> cs)\<rparr>))"

text \<open>Entering the queue: an answer at once, or a place in the queue of the current attempt.\<close>

definition wait_enter :: "string \<Rightarrow> cold_start_manager \<Rightarrow> wait_outcome option \<times> cold_start_manager" where
  "wait_enter app m = (case cold_apps m app of
     None \<Rightarrow> (Some Wait_Failed, m)
   | Some cs \<Rightarrow>
       if cs_state cs = CS_Ready then (Some Wait_Ready, m)
       else if cs_state cs = CS_Starting then
         if permits m (queue_slots cs) = 0 then (Some Wait_QueueFull, m)
         else (case ready_tx cs of
                 None \<Rightarrow> (Some Wait_Failed, m)
               | Some att \<Rightarrow> (None, m\<lparr>permits := (permits m)(queue_slots cs := permits m (queue_slots cs) - 1),
                                       waiting := att # waiting m\<rparr>))
       else (Some Wait_Failed, m))"

definition leave_queue :: "nat \<Rightarrow> cold_start_manager \<Rightarrow> cold_start_manager" where
  "leave_queue att m = m\<lparr>permits := (permits m)(att := permits m att + 1), waiting := remove1 att (waiting m)\<rparr>"

text \<open>A waiting request takes its answer once the channel has one, or gives up after the timeout.\<close>

definition wait_receive :: "nat \<Rightarrow> cold_start_manager \<Rightarrow> wait_outcome option \<times> cold_start_manager" where
  "wait_receive att m =
     (if att \<notin> set (waiting m) then (None, m)
      else case channels m att of
             Open_Channel \<Rightarrow> (None, m)
           | Sent ok \<Rightarrow> (Some (if ok then Wait_Ready else Wait_Failed), leave_queue att m)
           | Closed_Channel \<Rightarrow> (Some Wait_Failed, leave_queue att m))"

definition wait_timeout :: "nat \<Rightarrow> cold_start_manager \<Rightarrow> wait_outcome option \<times> cold_start_manager" where
  "wait_timeout att m =
     (if att \<notin> set (waiting m) then (None, m) else (Some Wait_Timeout, leave_queue att m))"

definition finish_start :: "cold_start_state \<Rightarrow> bool \<Rightarrow> string \<Rightarrow> cold_start_manager \<Rightarrow> cold_start_manager" where
  "finish_start st ok app m = (case cold_apps m app of
     None \<Rightarrow> m
   | Some cs \<Rightarrow>
       let m1 = m\<lparr>cold_apps := (cold_apps m)(app \<mapsto> cs\<lparr>cs_state := st, ready_tx := None\<rparr>)\<rparr>
       in case ready_tx cs of
            Some att \<Rightarrow> m1\<lparr>channels := (channels m)(att := Sent ok)\<rparr>
          | None \<Rightarrow> m1)"

definition mark_ready :: "string \<Rightarrow> cold_start_manager \<Rightarrow> cold_start_manager" where
  "mark_ready app m = finish_start CS_Ready True app m"

definition mark_failed :: "string \<Rightarrow> cold_start_manager \<Rightarrow> cold_start_manager" where
  "mark_failed app m = finish_start CS_Failed False app m"

text \<open>Removing the entry drops its sender, which closes the channel.\<close>

definition reset :: "string \<Rightarrow> cold_start_manager \<Rightarrow> cold_start_manager" where
  "reset app m = (case cold_apps m app of
     None \<Rightarrow> m
   | Some cs \<Rightarrow>
       let m1 = m\<lparr>cold_apps := (cold_apps m)(app := None)\<rparr>
       in case ready_tx cs of
            Some att \<Rightarrow> m1\<lparr>channels := (channels m)(att := Closed_Channel)\<rparr>
          | None \<Rightarrow> m1)"

definition elapsed :: "int \<Rightarrow> string \<Rightarrow> cold_start_manager \<Rightarrow> int option" where
  "elapsed now app m = Option.bind (cold_apps m app) (\<lambda>cs. map_option (\<lambda>t. now - t) (started_at cs))"

section \<open>Histories\<close>

datatype cold_op =
    Begin int string
  | Enter string
  | Receive nat
  | Timeout nat
  | Mark_ready string
  | Mark_failed string
  | Reset string

fun cold_exec :: "nat \<Rightarrow> cold_op \<Rightarrow> cold_start_manager \<Rightarrow> cold_start_manager" where
  "cold_exec mq (Begin now app) m = snd (begin_cold_start mq now app m)"
| "cold_exec mq (Enter app) m = snd (wait_enter app m)"
| "cold_exec mq (Receive att) m = snd (wait_receive att m)"
| "cold_exec mq (Timeout att) m = snd (wait_timeout att m)"
| "cold_exec mq (Mark_ready app) m = mark_ready app m"
| "cold_exec mq (Mark_failed app) m = mark_failed app m"
| "cold_exec mq (Reset app) m = reset app m"

definition cold_run :: "nat \<Rightarrow> cold_op list \<Rightarrow> cold_start_manager \<Rightarrow> cold_start_manager" where
  "cold_run mq ops m = fold (cold_exec mq) ops m"

text \<open>An app has a sender exactly while it is starting; the attempts of different apps differ; the
  permits of an attempt and its waiting requests make up the queue; and a channel that is open has its
  sender in some app, so that nobody waits for an answer that cannot come.\<close>

definition sender :: "cold_start_manager \<Rightarrow> string \<Rightarrow> nat option" where
  "sender m app = Option.bind (cold_apps m app) ready_tx"

definition links :: "(string \<Rightarrow> nat option) \<Rightarrow> (nat \<Rightarrow> channel) \<Rightarrow> nat \<Rightarrow> bool" where
  "links tx ch n = ((\<forall>app att. tx app = Some att \<longrightarrow> 0 < att \<and> att < n \<and> ch att = Open_Channel)
     \<and> (\<forall>app app' att. tx app = Some att \<longrightarrow> tx app' = Some att \<longrightarrow> app = app')
     \<and> (\<forall>att. 0 < att \<longrightarrow> att < n \<longrightarrow> ch att = Open_Channel \<longrightarrow> (\<exists>app. tx app = Some att)))"

definition start_ok :: "app_cold_start \<Rightarrow> bool" where
  "start_ok cs = ((cs_state cs = CS_Starting \<longleftrightarrow> ready_tx cs \<noteq> None)
     \<and> (ready_tx cs \<noteq> None \<longrightarrow> ready_tx cs = Some (queue_slots cs)))"

definition queue_ok :: "nat \<Rightarrow> (nat \<Rightarrow> nat) \<Rightarrow> nat list \<Rightarrow> nat \<Rightarrow> bool" where
  "queue_ok mq ps ws n = (0 < n
      \<and> (\<forall>att. 0 < att \<longrightarrow> att < n \<longrightarrow> ps att + count_list ws att = mq)
      \<and> (\<forall>att \<in> set ws. 0 < att \<and> att < n))"

definition cold_ok :: "nat \<Rightarrow> cold_start_manager \<Rightarrow> bool" where
  "cold_ok mq m = ((\<forall>app cs. cold_apps m app = Some cs \<longrightarrow> start_ok cs)
     \<and> links (sender m) (channels m) (next_attempt m)
     \<and> queue_ok mq (permits m) (waiting m) (next_attempt m))"

lemma cold_new_ok: "cold_ok mq cold_new"
  by (simp add: cold_ok_def links_def queue_ok_def cold_new_def sender_def)

lemma links_open:
  assumes "links tx ch n" "tx app = None" "0 < n"
  shows "links (tx(app \<mapsto> n)) (ch(n := Open_Channel)) (n + 1)"
  unfolding links_def
proof (intro conjI allI impI)
  fix a att assume "(tx(app \<mapsto> n)) a = Some att"
  then have "att = n \<or> tx a = Some att" by (auto split: if_splits)
  then show "0 < att" "att < n + 1" "(ch(n := Open_Channel)) att = Open_Channel"
    using assms unfolding links_def by (auto simp: less_SucI)
next
  fix a a' att assume "(tx(app \<mapsto> n)) a = Some att" "(tx(app \<mapsto> n)) a' = Some att"
  moreover have "tx x \<noteq> Some n" for x using assms(1) unfolding links_def by blast
  ultimately show "a = a'" using assms(1) unfolding links_def by (auto split: if_splits)
next
  fix att assume att: "0 < att" "att < n + 1" "(ch(n := Open_Channel)) att = Open_Channel"
  show "\<exists>a. (tx(app \<mapsto> n)) a = Some att"
  proof (cases "att = n")
    case False
    then have "\<exists>a. tx a = Some att" using assms(1) att unfolding links_def by simp
    then obtain a where "tx a = Some att" by blast
    then show ?thesis using assms(2) by (intro exI [of _ a]) auto
  qed auto
qed

lemma links_close:
  assumes "links tx ch n" "tx app = Some att" "v \<noteq> Open_Channel"
  shows "links (tx(app := None)) (ch(att := v)) n"
  unfolding links_def
proof (intro conjI allI impI)
  fix a att' assume "(tx(app := None)) a = Some att'"
  then have a: "tx a = Some att'" "a \<noteq> app" by (auto split: if_splits)
  then have "att' \<noteq> att" using assms(1,2) unfolding links_def by blast
  then show "0 < att'" "att' < n" "(ch(att := v)) att' = Open_Channel"
    using assms(1) a unfolding links_def by auto
next
  fix a a' att' assume "(tx(app := None)) a = Some att'" "(tx(app := None)) a' = Some att'"
  then show "a = a'" using assms(1) unfolding links_def by (auto split: if_splits)
next
  fix att' assume att': "0 < att'" "att' < n" "(ch(att := v)) att' = Open_Channel"
  then have "att' \<noteq> att" "ch att' = Open_Channel" using assms(3) by (auto split: if_splits)
  then obtain a where "tx a = Some att'" using assms(1) att' unfolding links_def by blast
  then show "\<exists>a. (tx(app := None)) a = Some att'"
    using assms(2) \<open>att' \<noteq> att\<close> by (intro exI [of _ a]) auto
qed

lemma sender_upd: "sender (m\<lparr>cold_apps := (cold_apps m)(app := x)\<rparr>) = (sender m)(app := Option.bind x ready_tx)"
  by (auto simp: sender_def)

lemma sender_sel [simp]:
  "sender (m\<lparr>channels := ch\<rparr>) = sender m" "sender (m\<lparr>permits := ps\<rparr>) = sender m"
  "sender (m\<lparr>waiting := ws\<rparr>) = sender m" "sender (m\<lparr>next_attempt := n\<rparr>) = sender m"
  by (simp_all add: sender_def fun_eq_iff)

lemma finish_ok:
  assumes ok: "cold_ok mq m" and st: "st \<noteq> CS_Starting"
  shows "cold_ok mq (finish_start st v app m)"
proof (cases "cold_apps m app")
  case (Some cs)
  then have tx: "sender m app = ready_tx cs" by (simp add: sender_def)
  let ?m1 = "m\<lparr>cold_apps := (cold_apps m)(app \<mapsto> cs\<lparr>cs_state := st, ready_tx := None\<rparr>)\<rparr>"
  have s1: "sender ?m1 = (sender m)(app := None)" by (simp add: sender_upd)
  show ?thesis
  proof (cases "ready_tx cs")
    case None
    then have "(sender m)(app := None) = sender m" using tx by (simp add: fun_upd_idem)
    then show ?thesis
      using ok st Some None s1 by (auto simp: cold_ok_def finish_start_def start_ok_def split: if_splits)
  next
    case (Some att)
    then have "links ((sender m)(app := None)) ((channels m)(att := Sent v)) (next_attempt m)"
      using ok tx by (intro links_close) (auto simp: cold_ok_def)
    then show ?thesis
      using ok st Some \<open>cold_apps m app = Some cs\<close> s1
      by (auto simp: cold_ok_def finish_start_def start_ok_def split: if_splits)
  qed
qed (use ok in \<open>simp add: finish_start_def\<close>)

lemma reset_ok:
  assumes ok: "cold_ok mq m"
  shows "cold_ok mq (reset app m)"
proof (cases "cold_apps m app")
  case (Some cs)
  then have tx: "sender m app = ready_tx cs" by (simp add: sender_def)
  let ?m1 = "m\<lparr>cold_apps := (cold_apps m)(app := None)\<rparr>"
  have s1: "sender ?m1 = (sender m)(app := None)" by (simp add: sender_upd)
  show ?thesis
  proof (cases "ready_tx cs")
    case None
    then have "(sender m)(app := None) = sender m" using tx by (simp add: fun_upd_idem)
    then show ?thesis using ok Some None s1 by (auto simp: cold_ok_def reset_def split: if_splits)
  next
    case (Some att)
    then have "links ((sender m)(app := None)) ((channels m)(att := Closed_Channel)) (next_attempt m)"
      using ok tx by (intro links_close) (auto simp: cold_ok_def)
    then show ?thesis
      using ok Some \<open>cold_apps m app = Some cs\<close> s1 by (auto simp: cold_ok_def reset_def split: if_splits)
  qed
qed (use ok in \<open>simp add: reset_def\<close>)


lemma begin_ok:
  assumes ok: "cold_ok mq m"
  shows "cold_ok mq (snd (begin_cold_start mq now app m))"
proof -
  define cs where "cs = (case cold_apps m app of Some cs \<Rightarrow> cs | None \<Rightarrow> app_cold_start_new)"
  have sok: "start_ok cs"
    using ok by (auto simp: cs_def cold_ok_def start_ok_def app_cold_start_new_def split: option.splits)
  show ?thesis
  proof (cases "cs_state cs = CS_Idle \<or> cs_state cs = CS_Failed")
    case True
    let ?n = "next_attempt m"
    let ?cs = "\<lparr>cs_state = CS_Starting, started_at = Some now, ready_tx = Some ?n, queue_slots = ?n\<rparr>"
    have "sender m app = None"
      using True sok by (auto simp: sender_def cs_def start_ok_def split: option.splits)
    then have l: "links ((sender m)(app \<mapsto> ?n)) ((channels m)(?n := Open_Channel)) (?n + 1)"
      using ok by (intro links_open) (auto simp: cold_ok_def queue_ok_def)
    have "?n \<notin> set (waiting m)" using ok by (auto simp: cold_ok_def queue_ok_def)
    then have "count_list (waiting m) ?n = 0" by (simp add: count_list_0_iff)
    then have q: "queue_ok mq ((permits m)(?n := mq)) (waiting m) (?n + 1)"
      using ok by (auto simp: cold_ok_def queue_ok_def less_Suc_eq)
    have "snd (begin_cold_start mq now app m) = m\<lparr>cold_apps := (cold_apps m)(app \<mapsto> ?cs),
        channels := (channels m)(?n := Open_Channel), permits := (permits m)(?n := mq), next_attempt := ?n + 1\<rparr>"
      using True by (simp add: begin_cold_start_def Let_def cs_def)
    then show ?thesis using ok l q by (auto simp: cold_ok_def sender_upd start_ok_def split: if_splits)
  next
    case False
    then have "cold_apps m app = Some cs" by (auto simp: cs_def app_cold_start_new_def split: option.splits)
    then have "snd (begin_cold_start mq now app m) = m"
      using False by (simp add: begin_cold_start_def Let_def fun_upd_idem)
    then show ?thesis using ok by simp
  qed
qed

lemma enter_ok:
  assumes ok: "cold_ok mq m"
  shows "cold_ok mq (snd (wait_enter app m))"
proof (cases "fst (wait_enter app m)")
  case None
  then obtain cs att where cs: "cold_apps m app = Some cs" "ready_tx cs = Some att" "permits m (queue_slots cs) \<noteq> 0"
      and m': "snd (wait_enter app m) = m\<lparr>permits := (permits m)(queue_slots cs := permits m (queue_slots cs) - 1), waiting := att # waiting m\<rparr>"
    by (auto simp: wait_enter_def split: option.splits if_splits)
  have "start_ok cs" using ok cs(1) by (simp add: cold_ok_def)
  then have q: "queue_slots cs = att" using cs(2) by (simp add: start_ok_def)
  have att: "0 < att" "att < next_attempt m"
  proof -
    have "sender m app = Some att" using cs(1,2) by (simp add: sender_def)
    then show "0 < att" "att < next_attempt m" using ok unfolding cold_ok_def links_def by blast+
  qed
  have "permits m att + count_list (waiting m) att = mq"
    using ok att by (simp add: cold_ok_def queue_ok_def)
  then have "0 < mq" using cs(3) q by simp
  then have "queue_ok mq ((permits m)(att := permits m att - 1)) (att # waiting m) (next_attempt m)"
    using ok att cs(3) q by (auto simp: cold_ok_def queue_ok_def)
  then show ?thesis using ok by (simp add: m' q cold_ok_def)
next
  case (Some r)
  then have "snd (wait_enter app m) = m" by (auto simp: wait_enter_def split: option.splits if_splits)
  then show ?thesis using ok by simp
qed

lemma leave_ok:
  assumes ok: "cold_ok mq m" and att: "att \<in> set (waiting m)"
  shows "cold_ok mq (leave_queue att m)"
proof -
  have "0 < att" "att < next_attempt m" using ok att by (auto simp: cold_ok_def queue_ok_def)
  then have "permits m att + count_list (waiting m) att = mq" using ok by (simp add: cold_ok_def queue_ok_def)
  moreover have "0 < count_list (waiting m) att" using att count_list_0_iff [of "waiting m" att] by auto
  ultimately have "queue_ok mq ((permits m)(att := permits m att + 1)) (remove1 att (waiting m)) (next_attempt m)"
    using ok by (auto simp: cold_ok_def queue_ok_def dest: set_remove1_subset [THEN subsetD])
  then show ?thesis using ok by (simp add: cold_ok_def leave_queue_def)
qed

lemma cold_exec_ok: "cold_ok mq m \<Longrightarrow> cold_ok mq (cold_exec mq op m)"
  by (cases op) (auto simp: begin_ok enter_ok finish_ok reset_ok mark_ready_def mark_failed_def wait_receive_def
      wait_timeout_def leave_ok split: channel.splits)

lemma cold_run_ok: "cold_ok mq m \<Longrightarrow> cold_ok mq (cold_run mq ops m)"
  unfolding cold_run_def by (induction ops arbitrary: m) (auto intro: cold_exec_ok)

lemma cold_reachable: "cold_ok mq (cold_run mq ops cold_new)"
  by (rule cold_run_ok [OF cold_new_ok])

subsection \<open>Leaders\<close>

definition led :: "string \<Rightarrow> cold_start_manager \<Rightarrow> bool" where
  "led app m = (\<exists>cs. cold_apps m app = Some cs \<and> (cs_state cs = CS_Starting \<or> cs_state cs = CS_Ready))"

lemma begin_led: "led app (snd (begin_cold_start mq now app m))"
  and led_no_leader: "led app m \<Longrightarrow> \<not> fst (begin_cold_start mq now app m)"
  by (cases "cold_apps m app"; cases "cs_state (the (cold_apps m app))";
      auto simp: led_def begin_cold_start_def Let_def app_cold_start_new_def)+

lemma led_step:
  assumes "led app m" "op \<noteq> Mark_failed app" "op \<noteq> Reset app"
  shows "led app (cold_exec mq op m)"
proof (cases op)
  case (Begin now a)
  then show ?thesis
    using assms begin_led by (cases "a = app") (auto simp: led_def begin_cold_start_def Let_def)
qed (use assms in \<open>auto simp: led_def wait_enter_def wait_receive_def wait_timeout_def leave_queue_def mark_ready_def
      mark_failed_def finish_start_def reset_def Let_def split: option.splits if_splits channel.splits\<close>)

lemma led_run:
  "led app m \<Longrightarrow> \<forall>op \<in> set ops. op \<noteq> Mark_failed app \<and> op \<noteq> Reset app \<Longrightarrow> led app (cold_run mq ops m)"
  unfolding cold_run_def by (induction ops arbitrary: m) (auto intro: led_step)


section \<open>Properties\<close>

text \<open>C38. One request starts the app.  After any request has asked to begin a cold start of an app, no
  other request becomes its leader, whatever happens to this and other apps, until the start has failed
  or the app has been reset.\<close>

theorem cold_start_single_leader:
  assumes "\<forall>op \<in> set ops. op \<noteq> Mark_failed app \<and> op \<noteq> Reset app"
  shows "fst (begin_cold_start mq now' app (cold_run mq ops (snd (begin_cold_start mq now app m)))) = False"
  using led_no_leader [OF led_run [OF begin_led assms]] by simp

theorem cold_start_single_leader_witness:
  "fst (begin_cold_start 2 9 ''web'' (cold_run 2 [Enter ''web'', Mark_ready ''web'', Mark_failed ''api'']
     (snd (begin_cold_start 2 5 ''web'' cold_new)))) = False"
  by (rule cold_start_single_leader) simp

text \<open>Queued requests are bounded and none is forgotten.  In every history, at most as many requests
  wait for an attempt as the queue has places, a place is free for every one that does not, and a request
  whose answer is still to come waits for an attempt that some app is starting right now.\<close>

theorem cold_start_queue_sound:
  assumes "att \<in> set (waiting m)" "m = cold_run mq ops cold_new"
  shows "count_list (waiting m) att + permits m att = mq
    \<and> (channels m att = Open_Channel \<longrightarrow>
         (\<exists>app cs. cold_apps m app = Some cs \<and> cs_state cs = CS_Starting \<and> ready_tx cs = Some att))"
proof -
  have ok: "cold_ok mq m" using cold_reachable assms(2) by simp
  then have att: "0 < att" "att < next_attempt m" using assms(1) by (auto simp: cold_ok_def queue_ok_def)
  then have q: "permits m att + count_list (waiting m) att = mq" using ok by (simp add: cold_ok_def queue_ok_def)
  have "\<exists>app cs. cold_apps m app = Some cs \<and> cs_state cs = CS_Starting \<and> ready_tx cs = Some att"
    if o: "channels m att = Open_Channel"
  proof -
    obtain app where "sender m app = Some att" using ok att o unfolding cold_ok_def links_def by blast
    then obtain cs where cs: "cold_apps m app = Some cs" "ready_tx cs = Some att"
      by (auto simp: sender_def split: bind_splits)
    then have "cs_state cs = CS_Starting" using ok by (auto simp: cold_ok_def start_ok_def)
    then show ?thesis using cs by blast
  qed
  then show ?thesis using q by simp
qed

theorem cold_start_queue_sound_witness:
  "count_list (waiting (cold_run 2 [Begin 5 ''web'', Enter ''web'', Enter ''web''] cold_new)) 1
     + permits (cold_run 2 [Begin 5 ''web'', Enter ''web'', Enter ''web''] cold_new) 1 = 2"
proof -
  have "1 \<in> set (waiting (cold_run 2 [Begin 5 ''web'', Enter ''web'', Enter ''web''] cold_new))" by code_simp
  from cold_start_queue_sound [OF this refl] show ?thesis by blast
qed



end
