(* ===== verification/Spawner.thy ===== *)
theory Spawner
  imports Instances
begin

text \<open>
  Starting instances (\<^verbatim>\<open>tako-server/src/instances/spawner/mod.rs\<close>,
  \<^verbatim>\<open>spawner/readiness.rs\<close> and the state a container process leaves on its instance in
  \<^verbatim>\<open>spawner/spawn_command.rs\<close>): native processes and containers; an app with a Compose
  stack is refused here, as in the code.

  What the operating system and the new process answer is an argument: whether a port and a child were
  obtained, what the process reported before the deadline, and how a failed one is stopped.  The facts
  at the end say what a spawn, a kill and a removal leave alone; the rollout and the event handlers use them.
\<close>

section \<open>Spawning\<close>

datatype instance_error =
    AppNotFound string
  | SpawnError
  | StopError
  | StartupTimeout
  | StartupTimeoutWithDetail
  | HealthCheckFailed string

datatype instance_event = Inst_Started string string | Inst_Ready string string

datatype ready_answer = Ready_port string | Ready_error string bool | Ready_timeout

record spawn_answers =
  host_port :: "string option"
  child_id :: "32 word option option"
  ready_answer :: ready_answer
  cleanup :: stop_answers

definition take_process :: "inst \<Rightarrow> inst" where
  "take_process x = x\<lparr>has_process := False\<rparr>"

text \<open>The port the process reports makes it ready; an error may have taken the process to read its
  last output.\<close>

definition wait_for_ready :: "ready_answer \<Rightarrow> string \<Rightarrow> app \<Rightarrow> (instance_error + unit) \<times> app" where
  "wait_for_ready ans i a = (case ans of
     Ready_port addr \<Rightarrow> (Inr (), upd_object i (\<lambda>x. snd (inst_set_state Ready (set_port addr x))) a)
   | Ready_error msg exited \<Rightarrow>
       (Inl (HealthCheckFailed msg), if exited then upd_object i take_process a else a)
   | Ready_timeout \<Rightarrow> (Inl StartupTimeout, a))"

definition spawn_native :: "spawn_answers \<Rightarrow> string \<Rightarrow> string \<Rightarrow> app
    \<Rightarrow> (instance_error + unit) \<times> instance_event list \<times> app" where
  "spawn_native ans app_name i a =
     (case child_id ans of
        None \<Rightarrow> (Inl SpawnError, [], a)
      | Some child \<Rightarrow>
          let a1 = snd (set_instance_state i Starting (upd_object i (set_process child) a))
          in case wait_for_ready (ready_answer ans) i a1 of
               (Inr _, a2) \<Rightarrow>
                 (Inr (), [Inst_Started app_name i, Inst_Ready app_name i], snd (set_instance_state i Healthy a2))
             | (Inl e, a2) \<Rightarrow>
                 let a3 = snd (set_instance_state i Unhealthy a2);
                     timed_out = (ready_answer ans = Ready_timeout);
                     a4 = (if timed_out then upd_object i take_process a3 else a3)
                 in (Inl (if timed_out then StartupTimeoutWithDetail else e), [Inst_Started app_name i],
                     snd (kill_instance (cleanup ans) i a4)))"

definition container_name :: "string \<Rightarrow> string \<Rightarrow> string" where
  "container_name app_name i =
     ''tako-'' @ map (\<lambda>ch. if ch = CHR ''/'' then CHR ''-'' else ch) app_name @ ''-'' @ i"

text \<open>A container is reached at the host port; the answer is that of the health probes until one
  succeeds, the container exits or the deadline passes.\<close>

definition spawn_container :: "spawn_answers \<Rightarrow> bool \<Rightarrow> string \<Rightarrow> string \<Rightarrow> app
    \<Rightarrow> (instance_error + unit) \<times> instance_event list \<times> app" where
  "spawn_container ans sdk app_name i a =
     (case host_port ans of
        None \<Rightarrow> (Inl SpawnError, [], a)
      | Some port \<Rightarrow>
          let a1 = upd_object i (\<lambda>x. x\<lparr>sdk_health := sdk\<rparr>) a
          in (case child_id ans of
               None \<Rightarrow> (Inl SpawnError, [], a1)
             | Some child \<Rightarrow>
                 let a2 = snd (set_instance_state i Starting
                       (upd_object i (\<lambda>x. set_port port (set_process child (x\<lparr>container := Some (container_name app_name i)\<rparr>))) a1));
                     failed = snd (kill_instance (cleanup ans) i (snd (set_instance_state i Unhealthy a2)))
                 in (case ready_answer ans of
                      Ready_port _ \<Rightarrow>
                        (Inr (), [Inst_Started app_name i, Inst_Ready app_name i],
                         snd (set_instance_state i Healthy (snd (set_instance_state i Ready a2))))
                    | Ready_error msg _ \<Rightarrow> (Inl (HealthCheckFailed msg), [Inst_Started app_name i], failed)
                    | Ready_timeout \<Rightarrow> (Inl StartupTimeoutWithDetail, [Inst_Started app_name i], failed))))"

definition spawn :: "spawn_answers \<Rightarrow> string \<Rightarrow> string \<Rightarrow> app
    \<Rightarrow> (instance_error + unit) \<times> instance_event list \<times> app" where
  "spawn ans app_name i a0 =
     (let c = config a0;
          a = upd_object i (\<lambda>x. x\<lparr>health_probe := Some (health_check_host c, health_check_path c)\<rparr>) a0
      in if compose_stack c
         then (Inl (HealthCheckFailed ''Compose instances must be started by stack reconciliation''), [], a)
         else case launch c of
                Container _ _ \<Rightarrow> spawn_container ans (container_sdk c) app_name i a
              | _ \<Rightarrow> spawn_native ans app_name i a)"

section \<open>What operations leave alone\<close>

lemma kill_instance_sel:
  "instances (snd (kill_instance ans i a)) = instances a" "config (snd (kill_instance ans i a)) = config a"
  "j \<noteq> i \<Longrightarrow> objects (snd (kill_instance ans i a)) j = objects a j"
  by (simp_all add: kill_instance_def upd_object_def)

lemma remove_instance_sel:
  "set (instances (remove_instance i a)) = set (instances a) - {i}" "config (remove_instance i a) = config a"
  "objects (remove_instance i a) = objects a" "instances (remove_instance i a) = removeAll i (instances a)"
  by (auto simp: remove_instance_def remove_healthy_instance_def)

definition evict :: "stop_answers \<Rightarrow> string \<Rightarrow> app \<Rightarrow> app" where
  "evict ans i a = remove_instance i (snd (kill_instance ans i a))"

lemma evict_sel:
  "instances (evict ans i a) = removeAll i (instances a)" "config (evict ans i a) = config a"
  "j \<noteq> i \<Longrightarrow> objects (evict ans i a) j = objects a j"
  by (simp_all add: evict_def remove_instance_sel kill_instance_sel)

section \<open>Spawns\<close>

definition spawn_ok :: "spawn_answers \<Rightarrow> app_config \<Rightarrow> bool" where
  "spawn_ok sp c = (\<not> compose_stack c \<and> child_id sp \<noteq> None
     \<and> (case ready_answer sp of Ready_port _ \<Rightarrow> True | _ \<Rightarrow> False)
     \<and> (case launch c of Container _ _ \<Rightarrow> host_port sp \<noteq> None | _ \<Rightarrow> True))"

lemma upd_object_other: "j \<noteq> i \<Longrightarrow> objects (upd_object i f a) j = objects a j"
  by (simp add: upd_object_def)

lemma upd_object_same: "objects (upd_object i f a) i = map_option f (objects a i)"
  by (simp add: upd_object_def)

lemma set_instance_state_sel:
  "instances (snd (set_instance_state i st a)) = instances a"
  "j \<noteq> i \<Longrightarrow> objects (snd (set_instance_state i st a)) j = objects a j"
  "objects (snd (set_instance_state i st a)) i = map_option (\<lambda>x. snd (inst_set_state st x)) (objects a i)"
  "routing_suppressed (snd (set_instance_state i st a)) = routing_suppressed a"
  "routed (snd (set_instance_state i st a)) - {i} = routed a - {i}"
  "config (snd (set_instance_state i st a)) = config a"
  by (auto simp: set_instance_state_def Let_def upd_object_other upd_object_same)
    (simp_all add: upd_object_def remove_healthy_instance_def add_healthy_instance_def refresh_healthy_instance_def)

lemma set_instance_state_routes:
  "i \<notin> set (routing_suppressed a) \<Longrightarrow> state_of a i \<noteq> Healthy
     \<Longrightarrow> routed (snd (set_instance_state i Healthy a)) = insert i (routed a)"
  by (simp add: set_instance_state_def Let_def)

text \<open>What concerns one instance leaves the registry and the other instances alone.\<close>

definition only :: "string \<Rightarrow> app \<Rightarrow> app \<Rightarrow> bool" where
  "only n a b = (instances b = instances a \<and> routed b - {n} = routed a - {n} \<and> config b = config a
     \<and> routing_suppressed b = routing_suppressed a \<and> (\<forall>j. j \<noteq> n \<longrightarrow> objects b j = objects a j)
     \<and> map_option build_version (objects b n) = map_option build_version (objects a n)
     \<and> (distinct (map h_id (healthy_instances a)) \<longrightarrow> distinct (map h_id (healthy_instances b)))
     \<and> (n \<in> set (routing_suppressed a) \<longrightarrow> n \<notin> routed a \<longrightarrow> n \<notin> routed b))"

lemma only_refl: "only n a a"
  by (simp add: only_def)

lemma only_trans: "only n a b \<Longrightarrow> only n b c \<Longrightarrow> only n a c"
  by (simp add: only_def)

lemma only_upd: "only n a b \<Longrightarrow> (\<And>x. build_version (f x) = build_version x) \<Longrightarrow> only n a (upd_object n f b)"
  by (simp add: only_def upd_object_other upd_object_same option.map_comp comp_def) (simp add: upd_object_def)

lemma set_instance_state_distinct:
  "distinct (map h_id (healthy_instances a)) \<Longrightarrow> distinct (map h_id (healthy_instances (snd (set_instance_state n st a))))"
  by (simp add: set_instance_state_def Let_def)

lemma set_instance_state_withheld:
  "n \<in> set (routing_suppressed a) \<Longrightarrow> n \<notin> routed a \<Longrightarrow> n \<notin> routed (snd (set_instance_state n st a))"
  by (simp add: set_instance_state_def Let_def)

lemma only_set_state: "only n a b \<Longrightarrow> only n a (snd (set_instance_state n st b))"
  by (simp add: only_def set_instance_state_sel set_instance_state_distinct set_instance_state_withheld
      option.map_comp comp_def inst_set_state_def)

lemma build_version_kill_steps:
  "kill_compose ans x = Some y \<Longrightarrow> build_version y = build_version x"
  "kill_container ans x = Some y \<Longrightarrow> build_version y = build_version x"
  "kill_process ans x = Some y \<Longrightarrow> build_version y = build_version x"
  by (auto simp: kill_compose_def kill_container_def kill_process_def split: option.splits if_splits)

lemma build_version_kill [simp]: "build_version (snd (kill ans x)) = build_version x"
  by (simp add: kill_def inst_set_state_def build_version_kill_steps split: option.splits)

lemma build_version_ops [simp]:
  "build_version (set_process c x) = build_version x"
  "build_version (set_port q x) = build_version x" "build_version (snd (inst_set_state st x)) = build_version x"
  "build_version (take_process x) = build_version x"
  by (simp_all add: inst_set_state_def set_process_def set_port_def take_process_def split: option.splits prod.splits)

lemma only_kill: "only n a b \<Longrightarrow> only n a (snd (kill_instance ans n b))"
  by (simp add: kill_instance_def only_upd)

lemma only_wait: "only n a b \<Longrightarrow> wait_for_ready ans n b = (r, c) \<Longrightarrow> only n a c"
  by (auto simp: wait_for_ready_def only_upd split: ready_answer.splits if_splits)

lemmas only_intros = only_refl only_upd only_set_state only_kill

lemma only_spawn_native:
  assumes "only n a b" "spawn_native sp name n b = (r, es, c)"
  shows "only n a c"
proof -
  let ?b = "\<lambda>ch. snd (set_instance_state n Starting (upd_object n (set_process ch) b))"
  have w: "only n a c'" if "wait_for_ready rdy n (?b ch) = (q, c')" for rdy ch q c'
    by (rule only_wait [OF _ that]) (intro only_intros assms(1); simp)
  show ?thesis using assms
    by (auto simp: spawn_native_def Let_def intro!: only_intros dest!: w split: option.splits prod.splits sum.splits if_splits)
qed

lemma only_spawn_container:
  "only n a b \<Longrightarrow> spawn_container sp sdk name n b = (r, es, c) \<Longrightarrow> only n a c"
  by (auto simp: spawn_container_def Let_def intro!: only_intros split: option.splits ready_answer.splits)

lemma spawn_frame:
  assumes "spawn sp name n a = (r, es, a')"
  shows "only n a a'"
proof -
  let ?a = "upd_object n (\<lambda>x. x\<lparr>health_probe := Some (health_check_host (config a), health_check_path (config a))\<rparr>) a"
  have "only n a ?a" by (intro only_intros; simp)
  note frames = only_spawn_native [OF this, of sp name r es a'] only_spawn_container [OF this, of sp _ name r es a'] this
  show ?thesis using assms frames
    by (cases "compose_stack (config a)"; cases "launch (config a)") (simp_all add: spawn_def Let_def)
qed

text \<open>The last step of a successful spawn takes an instance that is ready into routing unless it is withheld.\<close>

definition arrived :: "string \<Rightarrow> string \<Rightarrow> app \<Rightarrow> app \<Rightarrow> bool" where
  "arrived n v a c = (state_of c n = Healthy \<and> map_option build_version (objects c n) = Some v
     \<and> (n \<notin> set (routing_suppressed a) \<longrightarrow> n \<in> routed c)
     \<and> (n \<in> set (routing_suppressed a) \<longrightarrow> n \<notin> routed a \<longrightarrow> n \<notin> routed c))"

lemma arrivedI:
  assumes "only n a b" "map_option build_version (objects b n) = Some v" "state_of b n = Ready" "n \<in> routed b \<longrightarrow> n \<in> routed a"
  shows "arrived n v a (snd (set_instance_state n Healthy b))"
proof -
  obtain y where y: "objects b n = Some y" "build_version y = v" using assms(2) by auto
  have "routed (snd (set_instance_state n Healthy b)) = (if n \<in> set (routing_suppressed b) then routed b else insert n (routed b))"
    using assms(3) by (simp add: set_instance_state_def Let_def)
  then show ?thesis using assms(1,4) y
    by (auto simp: arrived_def only_def state_of_def set_instance_state_sel inst_set_state_def inst_state_def)
qed

lemma set_state_leaves: "j \<in> routed (snd (set_instance_state n st a)) \<Longrightarrow> st \<noteq> Healthy \<Longrightarrow> j \<in> routed a"
  by (auto simp: set_instance_state_def Let_def split: if_splits)

lemma spawn_success:
  assumes ok: "spawn_ok sp (config a)" and x: "objects a n = Some x"
  shows "\<exists>es a'. spawn sp name n a = (Inr (), es, a') \<and> arrived n (build_version x) a a'"
proof -
  let ?a = "upd_object n (\<lambda>x. x\<lparr>health_probe := Some (health_check_host (config a), health_check_path (config a))\<rparr>) a"
  obtain c addr where sp: "child_id sp = Some c" "ready_answer sp = Ready_port addr" "\<not> compose_stack (config a)"
    using ok by (auto simp: spawn_ok_def split: ready_answer.splits)
  show ?thesis
  proof (cases "\<exists>image port. launch (config a) = Container image port")
    case True
    then obtain image port q where l: "launch (config a) = Container image port" "host_port sp = Some q"
      using ok by (auto simp: spawn_ok_def)
    let ?b = "snd (set_instance_state n Ready (snd (set_instance_state n Starting (upd_object n (\<lambda>x. set_port q (set_process c
        (x\<lparr>container := Some (container_name name n)\<rparr>))) (upd_object n (\<lambda>x. x\<lparr>sdk_health := container_sdk (config a)\<rparr>) ?a)))))"
    have "only n a ?b" by (intro only_intros; simp)
    moreover have "n \<in> routed ?b \<longrightarrow> n \<in> routed a" by (auto dest!: set_state_leaves)
    ultimately have "arrived n (build_version x) a (snd (set_instance_state n Healthy ?b))"
      by (intro arrivedI) (simp_all add: x set_instance_state_sel upd_object_same inst_set_state_def state_of_def inst_state_def)
    then show ?thesis by (simp add: spawn_def spawn_container_def sp l Let_def)
  next
    case False
    let ?b = "upd_object n (\<lambda>x. snd (inst_set_state Ready (set_port addr x)))
        (snd (set_instance_state n Starting (upd_object n (set_process c) ?a)))"
    have "only n a ?b" by (intro only_intros; simp)
    moreover have "n \<in> routed ?b \<longrightarrow> n \<in> routed a" by (auto dest!: set_state_leaves)
    ultimately have "arrived n (build_version x) a (snd (set_instance_state n Healthy ?b))"
      by (intro arrivedI) (simp_all add: x set_instance_state_sel upd_object_same inst_set_state_def state_of_def inst_state_def)
    moreover have "spawn sp name n a = (Inr (), [Inst_Started name n, Inst_Ready name n], snd (set_instance_state n Healthy ?b))"
      using False by (cases "launch (config a)") (simp_all add: spawn_def spawn_native_def wait_for_ready_def sp Let_def)
    ultimately show ?thesis by blast
  qed
qed

lemma spawn_failure:
  assumes "\<not> spawn_ok sp (config a)"
  shows "\<exists>e es a'. spawn sp name n a = (Inl e, es, a')"
  using assms
  by (auto simp: spawn_ok_def spawn_def spawn_native_def spawn_container_def Let_def wait_for_ready_def
      split: option.splits ready_answer.splits app_launch.splits)

lemma evict_routed: "i \<in> set (instances a) \<Longrightarrow> routed (evict ans i a) = routed a - {i}"
  "routing_suppressed (evict ans i a) = (if i \<in> set (instances a) then removeAll i (routing_suppressed a) else routing_suppressed a)"
  by (simp_all add: evict_def remove_instance_def kill_instance_def) (simp_all add: routed_def upd_object_def)

lemma allocate_routed: "routed (allocate_instance n token now a) = routed a"
  by (simp add: allocate_instance_def routed_def)

lemma remove_routed: "i \<in> set (instances a) \<Longrightarrow> routed (remove_instance i a) = routed a - {i}"
  by (simp add: remove_instance_def) (simp add: routed_def)

end
