(* ===== verification/Runtime_Events.thy ===== *)
theory Runtime_Events
  imports Health Cold_Start Spawner
begin

text \<open>
  Idling and replacing instances: the idle monitor (\<^verbatim>\<open>tako-server/src/scaling/idle.rs\<close>), the
  app manager (\<^verbatim>\<open>instances/manager.rs\<close>) and the handlers of the events that the monitors and the
  spawner send (\<^verbatim>\<open>runtime_events.rs\<close>), over the apps of \<open>Instances\<close>, the spawns of
  \<open>Spawner\<close> and the cold starts of \<open>Cold_Start\<close>.

  The locks the handlers try to take, the operating system's answers to spawning and stopping, and the
  clock are arguments.  So is what the Compose runtime does with a stack.  Metrics and log lines are left out.
\<close>

section \<open>The idle monitor\<close>

datatype idle_event = InstanceIdle string string | AppIdle string

definition idle_of :: "64 word \<Rightarrow> app \<Rightarrow> string \<Rightarrow> 64 word" where
  "idle_of now a i = (case objects a i of Some x \<Rightarrow> idle_time now x | None \<Rightarrow> 0)"

definition healthy_ids :: "app \<Rightarrow> string list" where
  "healthy_ids a = filter (\<lambda>i. state_of a i = Healthy) (instances a)"

definition running_count :: "app \<Rightarrow> nat" where
  "running_count a =
     length (filter (\<lambda>i. state_of a i = Starting \<or> state_of a i = Ready \<or> state_of a i = Healthy) (instances a))"

text \<open>One pass of the monitor; the sort is stable and by descending idle time.\<close>

definition monitor_pass :: "64 word \<Rightarrow> string \<Rightarrow> app \<Rightarrow> idle_event list" where
  "monitor_pass now name a =
     (let idle = sort_desc_key (idle_of now a) (filter (\<lambda>i. idle_of now a i > idle_timeout_ms (config a)) (healthy_ids a));
          can_stop = length (healthy_ids a) - unat (min_instances (config a))
      in map (InstanceIdle name) (take can_stop idle)
         @ (if running_count a = 0 \<and> min_instances (config a) = 0 then [AppIdle name] else []))"

section \<open>The handlers\<close>

record server =
  srv_draining :: bool
  srv_apps :: "string \<Rightarrow> app option"
  srv_cold :: cold_start_manager

definition put_app :: "string \<Rightarrow> app \<Rightarrow> server \<Rightarrow> server" where
  "put_app name a s = s\<lparr>srv_apps := (srv_apps s)(name \<mapsto> a)\<rparr>"

definition clear_error :: "string \<Rightarrow> server \<Rightarrow> server" where
  "clear_error name s = (case srv_apps s name of
     None \<Rightarrow> s | Some a \<Rightarrow> put_app name (a\<lparr>last_error := None\<rparr>) s)"

definition handle_instance_event :: "instance_event \<Rightarrow> server \<Rightarrow> server" where
  "handle_instance_event ev s =
     (if srv_draining s then s
      else case ev of
             Inst_Started _ _ \<Rightarrow> s
           | Inst_Ready name i \<Rightarrow> clear_error name (s\<lparr>srv_cold := mark_ready name (srv_cold s)\<rparr>))"

definition handle_idle_event ::
    "bool \<Rightarrow> bool \<Rightarrow> stop_answers \<Rightarrow> 64 word \<Rightarrow> idle_event \<Rightarrow> server \<Rightarrow> server" where
  "handle_idle_event management_free deploy_free ans now ev s =
     (if \<not> management_free \<or> srv_draining s \<or> \<not> deploy_free then s
      else case ev of
        InstanceIdle name i \<Rightarrow>
          (case srv_apps s name of
             None \<Rightarrow> s
           | Some a \<Rightarrow>
               (case get_instance i a of
                  None \<Rightarrow> s
                | Some x \<Rightarrow>
                    if length (healthy_ids a) \<le> unat (min_instances (config a)) \<or> inst_state x \<noteq> Healthy
                       \<or> in_flight x \<noteq> 0 \<or> idle_time now x \<le> idle_timeout_ms (config a)
                    then s
                    else
                      let a1 = remove_instance i (snd (kill_instance ans i a))
                      in if running_count a1 = 0 \<and> min_instances (config a1) = 0
                         then (put_app name (a1\<lparr>app_status := App_Idle\<rparr>) s)\<lparr>srv_cold := reset name (srv_cold s)\<rparr>
                         else put_app name a1 s))
      | AppIdle name \<Rightarrow>
          (case srv_apps s name of
             None \<Rightarrow> s\<lparr>srv_cold := reset name (srv_cold s)\<rparr>
           | Some a \<Rightarrow>
               if min_instances (config a) \<noteq> 0 \<or> running_count a \<noteq> 0 then s
               else (put_app name (a\<lparr>app_status := App_Idle\<rparr>) s)\<lparr>srv_cold := reset name (srv_cold s)\<rparr>))"

text \<open>How many registered instances run a build, cast to \<^verbatim>\<open>u32\<close> as the code does.\<close>

definition build_count :: "string \<Rightarrow> app \<Rightarrow> 32 word" where
  "build_count v a =
     word_of_nat (length (filter (\<lambda>j. map_option build_version (objects a j) = Some v) (instances a)))"

text \<open>The answers of the Compose runtime: the error of setting it up, the reconciliation of a stack with
  its error and the error's text, and the error of stopping the stack.\<close>

record compose_answers =
  runtime_error :: "string option"
  reconcile :: "app \<Rightarrow> (instance_error \<times> string) option \<times> app"
  stop_error :: "string option"

text \<open>Replacing a dead instance: whether the spawn gate and the app's deploy lock are free, the answers to
  the kill and to the spawn, and the id, token and clock of a new instance.\<close>

definition replace_instance_if_needed ::
    "bool \<Rightarrow> bool \<Rightarrow> compose_answers \<Rightarrow> stop_answers \<Rightarrow> spawn_answers \<Rightarrow> string \<times> string \<times> 64 word \<Rightarrow> string \<Rightarrow> string
      \<Rightarrow> server \<Rightarrow> instance_event list \<times> server" where
  "replace_instance_if_needed gate_free deploy_free cps ans sp fresh name i s =
     (if \<not> gate_free \<or> srv_draining s then ([], s)
      else case srv_apps s name of
        None \<Rightarrow> ([], s)
      | Some a \<Rightarrow>
          if compose_stack (config a) \<and> \<not> deploy_free then ([], s)
          else (case get_instance i a of
             None \<Rightarrow> ([], s)
           | Some x \<Rightarrow>
               let current_count = build_count (build_version x) a;
                   min_for_build = (if build_version x = version (config a) then min_instances (config a) else 0);
                   a1 = remove_instance i (snd (kill_instance ans i a))
               in if current_count > min_for_build then ([], put_app name a1 s)
                  else if compose_stack (config a1) then
                    (case reconcile cps a1 of
                       (None, a2) \<Rightarrow> ([], put_app name a2 s)
                     | (Some (_, msg), a2) \<Rightarrow>
                         ([], put_app name (a2\<lparr>last_error := Some (''Compose recovery failed: '' @ msg)\<rparr>) s))
                  else
                    let (n, token, now) = fresh;
                        a2 = allocate_instance n token now a1
                    in (case spawn sp name n a2 of
                         (Inr _, es, a3) \<Rightarrow> (es, put_app name a3 s)
                       | (Inl _, es, a3) \<Rightarrow> (es, put_app name (remove_instance n a3) s))))"

definition handle_health_event ::
    "bool \<Rightarrow> bool \<Rightarrow> compose_answers \<Rightarrow> stop_answers \<Rightarrow> spawn_answers \<Rightarrow> string \<times> string \<times> 64 word \<Rightarrow> health_event
      \<Rightarrow> server \<Rightarrow> instance_event list \<times> server" where
  "handle_health_event gate_free deploy_free cps ans sp fresh ev s =
     (if srv_draining s then ([], s)
      else case ev of
        Ev_Healthy name i \<Rightarrow> ([], clear_error name (s\<lparr>srv_cold := mark_ready name (srv_cold s)\<rparr>))
      | Ev_Unhealthy name i \<Rightarrow> ([], s)
      | Ev_Dead name i \<Rightarrow>
          (case srv_apps s name of
             None \<Rightarrow> ([], s)
           | Some a \<Rightarrow>
               if i \<in> set (routing_suppressed a) \<or> get_instance i a = None then ([], s)
               else replace_instance_if_needed gate_free deploy_free cps ans sp fresh name i
                      (put_app name (a\<lparr>last_error := Some ''Instance marked dead''\<rparr>)
                         (s\<lparr>srv_cold := mark_failed name (srv_cold s)\<rparr>)))
      | Ev_Recovered name i \<Rightarrow> ([], s))"

section \<open>The app manager\<close>

text \<open>Starting spawns the minimum of instances; the answers, new id, token and clock of each are given
  by its number, and the first failed spawn ends it.\<close>

type_synonym spawn_plan = "nat \<Rightarrow> spawn_answers \<times> string \<times> string \<times> 64 word"

fun start_instances ::
    "string \<Rightarrow> spawn_plan \<Rightarrow> nat \<Rightarrow> app \<Rightarrow> (instance_error + unit) \<times> instance_event list \<times> app" where
  "start_instances name plan 0 a = (Inr (), [], a)"
| "start_instances name plan (Suc n) a =
     (let (sp, i, token, now) = plan n
      in case spawn sp name i (allocate_instance i token now a) of
           (Inl e, es, a1) \<Rightarrow> (Inl e, es, a1)
         | (Inr _, es, a1) \<Rightarrow>
             (case start_instances name plan n a1 of (r, es', a2) \<Rightarrow> (r, es @ es', a2)))"

definition start_app ::
    "compose_answers \<Rightarrow> string \<Rightarrow> spawn_plan \<Rightarrow> server \<Rightarrow> (instance_error + unit) \<times> instance_event list \<times> server" where
  "start_app cps name plan s = (case srv_apps s name of
     None \<Rightarrow> (Inl (AppNotFound name), [], s)
   | Some a \<Rightarrow>
       let a1 = a\<lparr>app_status := App_Running\<rparr>
       in if compose_stack (config a) then
            (case reconcile cps a1 of
               (None, a2) \<Rightarrow> (Inr (), [], put_app name a2 s)
             | (Some (e, _), a2) \<Rightarrow> (Inl e, [], put_app name a2 s))
          else
            (case start_instances name plan (unat (min_instances (config a))) a1 of
               (r, es, a') \<Rightarrow> (r, es, put_app name a' s)))"

fun stop_instances :: "stop_answers \<Rightarrow> string list \<Rightarrow> app \<Rightarrow> (instance_error + unit) \<times> app" where
  "stop_instances ans [] a = (Inr (), a)"
| "stop_instances ans (i # is) a =
     (case kill_instance ans i (snd (set_instance_state i Draining a)) of
        (True, a1) \<Rightarrow> stop_instances ans is (remove_instance i a1)
      | (False, a1) \<Rightarrow> (Inl StopError, a1))"

definition stop_app :: "compose_answers \<Rightarrow> stop_answers \<Rightarrow> string \<Rightarrow> server \<Rightarrow> (instance_error + unit) \<times> server" where
  "stop_app cps ans name s = (case srv_apps s name of
     None \<Rightarrow> (Inl (AppNotFound name), s)
   | Some a \<Rightarrow>
       let a1 = a\<lparr>app_status := App_Stopped\<rparr>
       in (case (compose_stack (config a), runtime_error cps) of
             (True, Some e) \<Rightarrow> (Inl (HealthCheckFailed e), put_app name a1 s)
           | _ \<Rightarrow>
               (case stop_instances ans (instances a) a1 of
                  (Inl e, a') \<Rightarrow> (Inl e, put_app name a' s)
                | (Inr _, a') \<Rightarrow>
                    ((case (compose_stack (config a), stop_error cps) of
                        (True, Some e) \<Rightarrow> Inl (HealthCheckFailed e)
                      | _ \<Rightarrow> Inr ()), put_app name a' s))))"

fun shutdown_instances :: "stop_answers \<Rightarrow> string list \<Rightarrow> app \<Rightarrow> app" where
  "shutdown_instances ans [] a = a"
| "shutdown_instances ans (i # is) a =
     shutdown_instances ans is (remove_instance i (snd (kill_instance ans i
       (upd_object i (own_compose_container False) (snd (set_instance_state i Draining a))))))"

definition shutdown_all :: "stop_answers \<Rightarrow> server \<Rightarrow> server" where
  "shutdown_all ans s = s\<lparr>srv_apps := (\<lambda>name. map_option
     (\<lambda>a. shutdown_instances ans (instances a) (a\<lparr>app_status := App_Stopped\<rparr>)) (srv_apps s name))\<rparr>"


section \<open>Evictions\<close>

lemma state_of_cong: "objects a i = objects b i \<Longrightarrow> state_of a i = state_of b i"
  by (simp add: state_of_def)

lemma healthy_ids_evict:
  assumes "distinct (instances a)" "i \<in> set (healthy_ids a)"
  shows "length (healthy_ids (evict ans i a)) = length (healthy_ids a) - 1"
proof -
  have "healthy_ids (evict ans i a) = removeAll i (healthy_ids a)"
  proof -
    have "filter (\<lambda>j. state_of (evict ans i a) j = Healthy) (removeAll i xs)
        = removeAll i (filter (\<lambda>j. state_of a j = Healthy) xs)" for xs
      using state_of_cong [of "evict ans i a" _ a] evict_sel(3) [of _ i ans a] by (induction xs) auto
    then show ?thesis by (simp add: healthy_ids_def evict_sel)
  qed
  moreover have "distinct (healthy_ids a)" using assms(1) by (simp add: healthy_ids_def)
  ultimately show ?thesis using assms(2) by (simp add: distinct_remove1_removeAll [symmetric] length_remove1)
qed

text \<open>What an idle event may do to an app: nothing, mark it idle, or evict one instance that may go.\<close>

definition may_evict :: "64 word \<Rightarrow> app \<Rightarrow> string \<Rightarrow> bool" where
  "may_evict now a i = (\<exists>x. objects a i = Some x \<and> i \<in> set (healthy_ids a) \<and> in_flight x = 0
     \<and> idle_time now x > idle_timeout_ms (config a) \<and> unat (min_instances (config a)) < length (healthy_ids a))"

lemma handle_idle_cases:
  assumes "srv_apps s name = Some a"
  obtains (same) st where "srv_apps (handle_idle_event mf df ans now ev s) name = Some (a\<lparr>app_status := st\<rparr>)"
    | (evicted) i st where "may_evict now a i"
        "srv_apps (handle_idle_event mf df ans now ev s) name = Some ((evict ans i a)\<lparr>app_status := st\<rparr>)"
proof -
  let ?s = "handle_idle_event mf df ans now ev s"
  have id: "a = a\<lparr>app_status := app_status a\<rparr>" "b = b\<lparr>app_status := app_status b\<rparr>" for b :: app
    by simp_all
  consider "srv_apps ?s name = srv_apps s name" | st where "srv_apps ?s name = Some (a\<lparr>app_status := st\<rparr>)"
    | i st where "may_evict now a i" "srv_apps ?s name = Some ((evict ans i a)\<lparr>app_status := st\<rparr>)"
  proof (cases ev)
    case (AppIdle n)
    then have "srv_apps ?s name = srv_apps s name \<or> srv_apps ?s name = Some (a\<lparr>app_status := App_Idle\<rparr>)"
      using assms by (auto simp: handle_idle_event_def put_app_def split: option.splits)
    then show ?thesis using that(1,2) by blast
  next
    case (InstanceIdle n i)
    show ?thesis
    proof (cases "n = name \<and> srv_apps ?s name \<noteq> srv_apps s name")
      case False
      then have "srv_apps ?s name = srv_apps s name" using InstanceIdle
        by (auto simp: handle_idle_event_def put_app_def Let_def split: option.splits)
      then show ?thesis by (rule that(1))
    next
      case True
      then obtain x where x: "get_instance i a = Some x"
        "\<not> (length (healthy_ids a) \<le> unat (min_instances (config a)) \<or> inst_state x \<noteq> Healthy
           \<or> in_flight x \<noteq> 0 \<or> idle_time now x \<le> idle_timeout_ms (config a))"
        using InstanceIdle assms by (auto simp: handle_idle_event_def split: option.splits if_splits)
      then have "may_evict now a i"
        by (auto simp: may_evict_def get_instance_def healthy_ids_def state_of_Some not_le split: if_splits)
      moreover have "srv_apps ?s name = Some (evict ans i a)
          \<or> srv_apps ?s name = Some ((evict ans i a)\<lparr>app_status := App_Idle\<rparr>)"
        using True x InstanceIdle assms
        by (auto simp: handle_idle_event_def put_app_def evict_def Let_def split: if_splits)
      ultimately show ?thesis using that(3) id(2) by metis
    qed
  qed
  then show ?thesis using same evicted assms id(1) by cases metis+
qed


text \<open>A run of idle events, each with the locks it found free, the answers to its kill and its clock.\<close>

type_synonym idle_call = "bool \<times> bool \<times> stop_answers \<times> 64 word \<times> idle_event"

definition idle_call :: "idle_call \<Rightarrow> server \<Rightarrow> server" where
  "idle_call c s = (case c of (mf, df, ans, now, ev) \<Rightarrow> handle_idle_event mf df ans now ev s)"

definition idle_le :: "app \<Rightarrow> app \<Rightarrow> bool" where
  "idle_le a b = (min_instances (config b) = min_instances (config a) \<and> (distinct (instances a) \<longrightarrow> distinct (instances b))
     \<and> min (length (healthy_ids a)) (unat (min_instances (config a))) \<le> length (healthy_ids b)
     \<and> (\<forall>i x. i \<in> set (instances a) \<longrightarrow> objects a i = Some x \<longrightarrow> in_flight x \<noteq> 0 \<longrightarrow>
          i \<in> set (instances b) \<and> objects b i = Some x))"

lemma idle_le_trans: "idle_le a b \<Longrightarrow> idle_le b c \<Longrightarrow> idle_le a c"
  by (auto simp: idle_le_def)

lemma idle_le_status: "idle_le a (b\<lparr>app_status := st\<rparr>) = idle_le a b"
  by (simp add: idle_le_def healthy_ids_def state_of_def cong: filter_cong)

lemma idle_le_evict:
  assumes "may_evict now a i" "distinct (instances a)"
  shows "idle_le a (evict ans i a)"
proof -
  obtain x where x: "objects a i = Some x" "i \<in> set (healthy_ids a)" "in_flight x = 0"
    "unat (min_instances (config a)) < length (healthy_ids a)"
    using assms(1) by (auto simp: may_evict_def)
  have "j \<in> set (instances (evict ans i a)) \<and> objects (evict ans i a) j = Some y"
    if "j \<in> set (instances a)" "objects a j = Some y" "in_flight y \<noteq> 0" for j y
    using that x(1,3) evict_sel(3) [of j i ans a] by (cases "j = i") (simp_all add: evict_sel)
  then show ?thesis using healthy_ids_evict [OF assms(2) x(2), of ans] x(4) assms(2)
    by (simp add: idle_le_def evict_sel distinct_removeAll)
qed

lemma idle_call_le:
  assumes "srv_apps s name = Some a" "distinct (instances a)"
  obtains b where "srv_apps (idle_call c s) name = Some b" "idle_le a b"
proof -
  obtain mf df ans now ev where c: "c = (mf, df, ans, now, ev)" by (cases c)
  have same: "idle_le a a" by (simp add: idle_le_def)
  from assms(1) show ?thesis
    by (cases rule: handle_idle_cases [of s name a mf df ans now ev])
      (auto intro!: that simp: c idle_call_def idle_le_status same idle_le_evict [OF _ assms(2)])
qed

lemma idle_run_le:
  assumes "srv_apps s name = Some a" "distinct (instances a)"
  shows "\<exists>b. srv_apps (fold idle_call cs s) name = Some b \<and> idle_le a b"
  using assms
proof (induction cs arbitrary: s a)
  case Nil
  then show ?case by (auto simp: idle_le_def)
next
  case (Cons c cs)
  obtain b where b: "srv_apps (idle_call c s) name = Some b" "idle_le a b"
    using idle_call_le [OF Cons.prems] by blast
  then have "distinct (instances b)" using Cons.prems(2) by (simp add: idle_le_def)
  then show ?case using Cons.IH [OF b(1)] idle_le_trans [OF b(2)] by auto
qed


text \<open>A dead instance leaves; when its build is at the minimum and the spawn succeeds, one takes its
  place in the registry and in routing.\<close>

lemma replace_effect:
  fixes a :: app
  assumes s: "gate" "\<not> srv_draining s" "srv_apps s name = Some a" "get_instance i a = Some x" "\<not> compose_stack (config a)"
    and n: "objects a n = None" "n \<notin> set (instances a)" "n \<notin> set (routing_suppressed a)" "n \<notin> routed a"
    and need: "needed = (build_count (build_version x) a \<le> (if build_version x = version (config a) then min_instances (config a) else 0))"
    and r: "replace_instance_if_needed gate dfree cps ans sp (n, token, now) name i s = (es, s')"
  obtains a' where "srv_apps s' name = Some a'"
    "instances a' = removeAll i (instances a) @ (if needed \<and> spawn_ok sp (config a) then [n] else [])"
    "routed a' = routed a - {i} \<union> (if needed \<and> spawn_ok sp (config a) then {n} else {})"
    "\<And>j. j \<noteq> i \<Longrightarrow> j \<noteq> n \<Longrightarrow> objects a' j = objects a j"
    "needed \<and> spawn_ok sp (config a) \<Longrightarrow> state_of a' n = Healthy \<and> map_option build_version (objects a' n) = Some (version (config a))"
proof -
  have i: "i \<in> set (instances a)" "n \<noteq> i" using s(4) n(1) by (auto simp: get_instance_def split: if_splits)
  let ?a1 = "evict ans i a"
  let ?a2 = "allocate_instance n token now ?a1"
  have run: "replace_instance_if_needed gate dfree cps ans sp (n, token, now) name i s =
    (if \<not> needed then ([], put_app name ?a1 s)
     else case spawn sp name n ?a2 of (Inr _, es, a3) \<Rightarrow> (es, put_app name a3 s)
       | (Inl _, es, a3) \<Rightarrow> (es, put_app name (remove_instance n a3) s))"
    using s by (simp add: replace_instance_if_needed_def evict_def need Let_def not_le evict_sel kill_instance_sel remove_instance_sel)
  show ?thesis
  proof (cases needed)
    case False
    have s': "srv_apps s' name = Some ?a1" using r False by (auto simp: run put_app_def)
    show ?thesis using that [OF s'] False i(1) by (simp add: evict_sel evict_routed)
  next
    case True
    obtain q fs a3 where sp: "spawn sp name n ?a2 = (q, fs, a3)" by (metis prod.exhaust)
    have cfg: "config ?a2 = config a" by (simp add: allocate_instance_def evict_sel)
    note only = spawn_frame [OF sp, unfolded only_def]
    have a2: "instances ?a2 = removeAll i (instances a) @ [n]" "routed ?a2 = routed a - {i}"
      "j \<noteq> i \<Longrightarrow> j \<noteq> n \<Longrightarrow> objects ?a2 j = objects a j" for j
      using i by (simp_all add: allocate_routed evict_routed(1)) (simp_all add: allocate_instance_def evict_sel)
    show ?thesis
    proof (cases "spawn_ok sp (config a)")
      case True
      have "objects ?a2 n = Some (new_inner n (version (config a)) token now)" "n \<notin> set (routing_suppressed ?a2)"
        using n(3) by (simp_all add: allocate_instance_def evict_sel evict_routed)
      with spawn_success [of sp ?a2 n _ name] True sp cfg
      have ok: "q = Inr ()" "n \<in> routed a3" "state_of a3 n = Healthy"
        "map_option build_version (objects a3 n) = Some (version (config a))"
        by (auto simp: new_inner_def arrived_def)
      have s': "srv_apps s' name = Some a3" using r \<open>needed\<close> ok(1) sp by (auto simp: run put_app_def)
      have "routed a3 = routed a - {i} \<union> {n}" using ok(2) only a2(2) n(4) by blast
      then show ?thesis using that [OF s'] True \<open>needed\<close> ok(3,4) only a2(1,3) by simp
    next
      case False
      obtain e where e: "q = Inl e" using spawn_failure [of sp ?a2 name n] False sp cfg by auto
      have "routed (remove_instance n a3) = routed a - {i}" "instances (remove_instance n a3) = removeAll i (instances a)"
        using only a2(1,2) n(2,4) by (simp_all add: remove_routed remove_instance_sel)
      moreover have s': "srv_apps s' name = Some (remove_instance n a3)"
        using r \<open>needed\<close> e sp by (auto simp: run put_app_def)
      ultimately show ?thesis using that [OF s'] False only a2(3) by (simp add: remove_instance_sel(3))
    qed
  qed
qed


definition replaces :: "spawn_answers \<Rightarrow> app \<Rightarrow> inst \<Rightarrow> bool" where
  "replaces sp a x = (build_count (build_version x) a \<le> (if build_version x = version (config a) then min_instances (config a) else 0)
     \<and> spawn_ok sp (config a))"

section \<open>A server\<close>

definition comes_up :: spawn_answers where
  "comes_up = \<lparr>host_port = None, child_id = Some (Some 8), ready_answer = Ready_port ''p2'', cleanup = all_stop\<rparr>"

definition no_compose :: compose_answers where
  "no_compose = \<lparr>runtime_error = None, reconcile = (\<lambda>a. (None, a)), stop_error = None\<rparr>"

definition ex_min_app :: app where
  "ex_min_app = fold app_exec ex_app_ops (app_new (ex_config 2))"

definition ex_server :: server where
  "ex_server = \<lparr>srv_draining = False, srv_apps = [''web'' \<mapsto> ex_min_app], srv_cold = cold_new\<rparr>"

lemma ex_min_app_ok: "routing_ok ex_min_app"
proof -
  have "all_allowed ex_app_ops (app_new (ex_config 2))" by code_simp
  then show ?thesis unfolding ex_min_app_def by (intro app_run_ok [OF app_run_fold app_new_ok])
qed

section \<open>Properties\<close>


text \<open>C35. A dead instance that is registered, not held back by a rollout, and reported while the server takes
  spawns always leaves the registry and routing.  It is replaced exactly when its build has no more
  instances than the minimum (zero for an old build) and the new process comes up; then the new instance is
  registered last, healthy, routed and of the current build.  Every other instance is untouched, and a
  request waiting for a cold start of the app is told that it failed.\<close>

theorem dead_instance_replaced:
  assumes up: "\<not> srv_draining s" and app: "srv_apps s name = Some a" and ok: "routing_ok a"
    and native: "\<not> compose_stack (config a)"
    and i: "get_instance i a = Some x" "i \<notin> set (routing_suppressed a)"
    and fresh: "objects a n = None" "n \<notin> set (routing_suppressed a)"
  shows "\<exists>b. srv_apps (snd (handle_health_event True dfree cps ans sp (n, token, now) (Ev_Dead name i) s)) name = Some b
    \<and> instances b = removeAll i (instances a) @ (if replaces sp a x then [n] else [])
    \<and> routed b = routed a - {i} \<union> (if replaces sp a x then {n} else {})
    \<and> (\<forall>j. j \<noteq> i \<and> j \<noteq> n \<longrightarrow> objects b j = objects a j)
    \<and> (replaces sp a x \<longrightarrow> state_of b n = Healthy \<and> map_option build_version (objects b n) = Some (version (config a)))
    \<and> srv_cold (snd (handle_health_event True dfree cps ans sp (n, token, now) (Ev_Dead name i) s)) = mark_failed name (srv_cold s)"
proof -
  let ?a = "a\<lparr>last_error := Some ''Instance marked dead''\<rparr>"
  let ?s = "put_app name ?a (s\<lparr>srv_cold := mark_failed name (srv_cold s)\<rparr>)"
  let ?r = "replace_instance_if_needed True dfree cps ans sp (n, token, now) name i ?s"
  have run: "handle_health_event True dfree cps ans sp (n, token, now) (Ev_Dead name i) s = ?r"
    using up app i by (simp add: handle_health_event_def)
  have n: "n \<notin> set (instances a)" "n \<notin> routed a" using ok fresh(1) by (auto simp: routing_ok_def)
  have sel: "routed ?a = routed a" "build_count v ?a = build_count v a" for v
    by (simp_all add: routed_def build_count_def)
  have cold: "srv_cold (snd ?r) = mark_failed name (srv_cold s)"
    by (auto simp: replace_instance_if_needed_def put_app_def Let_def split: option.splits prod.splits sum.splits)
  obtain es s' where r: "?r = (es, s')" by (metis prod.exhaust)
  show ?thesis
    by (rule replace_effect [OF _ _ _ _ _ _ _ _ _ refl r, of ?a x])
      (use up native i fresh n cold r run in \<open>simp_all add: sel put_app_def get_instance_def replaces_def split: if_splits\<close>)
qed


theorem dead_instance_replaced_witness:
  "\<exists>b. srv_apps (snd (handle_health_event True True no_compose all_stop comes_up (''c'', ''tc'', 9) (Ev_Dead ''web'' ''a'') ex_server)) ''web'' = Some b
    \<and> instances b = [''b'', ''c''] \<and> state_of b ''c'' = Healthy"
proof -
  let ?x = "the (objects ex_min_app ''a'')"
  have h: "\<not> srv_draining ex_server" "srv_apps ex_server ''web'' = Some ex_min_app" by (simp_all add: ex_server_def)
  have i: "get_instance ''a'' ex_min_app = Some ?x" "''a'' \<notin> set (routing_suppressed ex_min_app)"
    "objects ex_min_app ''c'' = None" "''c'' \<notin> set (routing_suppressed ex_min_app)"
    and r: "replaces comes_up ex_min_app ?x" "removeAll ''a'' (instances ex_min_app) = [''b'']"
    by code_simp+
  have c: "\<not> compose_stack (config ex_min_app)" by code_simp
  show ?thesis
    using dead_instance_replaced [OF h ex_min_app_ok c i, of True no_compose all_stop comes_up "''tc''" 9] r by auto
qed


end
