(* ===== verification/Rolling.thy ===== *)
theory Rolling
  imports Spawner
begin

text \<open>
  Rolling updates (\<^verbatim>\<open>tako-server/src/instances/rolling.rs\<close>): the new build's instances are
  started in batches, withheld from routing until every batch has stayed healthy, taken into routing
  together, and only then are the old instances drained and stopped; any failure before that removes the new ones.

  An update waits: for an instance to become healthy, for a batch to stay healthy, for requests to end.
  While it waits, health checks and requests go on, so each wait is given the operations others perform
  before the update looks again; the length of that list is the number of looks before the deadline.
  The state others see at each wait is recorded.  Starting and stopping one instance is one step.
\<close>

section \<open>Configuration and result\<close>

record rolling_update_config =
  health_timeout :: nat
  health_stability_window :: nat
  health_stability_check_interval :: nat
  drain_timeout :: nat
  batch_size :: "32 word"

definition rolling_update_config_default :: rolling_update_config where
  "rolling_update_config_default =
     \<lparr>health_timeout = 30000, health_stability_window = 8000, health_stability_check_interval = 100,
      drain_timeout = 30000, batch_size = 1\<rparr>"

record rolling_update_result =
  success :: bool
  new_instances :: "32 word"
  old_instances :: "32 word"
  update_error :: "instance_error option"

definition update_failed :: "instance_error \<Rightarrow> rolling_update_result" where
  "update_failed e = \<lparr>success = False, new_instances = 0, old_instances = 0, update_error = Some e\<rparr>"

definition target_new_instances_for_build :: "32 word \<Rightarrow> nat \<Rightarrow> 32 word" where
  "target_new_instances_for_build requested existing = max requested 1"

fun show_instance_state :: "instance_state \<Rightarrow> string" where
  "show_instance_state Starting = ''starting''"
| "show_instance_state Ready = ''ready''"
| "show_instance_state Healthy = ''healthy''"
| "show_instance_state Unhealthy = ''unhealthy''"
| "show_instance_state Draining = ''draining''"
| "show_instance_state Stopped = ''stopped''"

section \<open>Waiting\<close>

record rollout =
  ro_app :: app
  ro_log :: "app list"

definition act :: "(app \<Rightarrow> app) \<Rightarrow> rollout \<Rightarrow> rollout" where
  "act f s = s\<lparr>ro_app := f (ro_app s)\<rparr>"

definition pause :: "app_op list \<Rightarrow> rollout \<Rightarrow> rollout" where
  "pause ops s = \<lparr>ro_app = fold app_exec ops (ro_app s), ro_log = ro_log s @ [ro_app s]\<rparr>"

text \<open>What the rest of the world does: the answers, id, token and clock of the \<open>k\<close>-th new instance, the
  operations of others during each wait, and the answers when an instance is stopped.\<close>

record world =
  start_plan :: "nat \<Rightarrow> spawn_answers \<times> string \<times> string \<times> 64 word"
  healthy_polls :: "nat \<Rightarrow> app_op list list"
  stable_polls :: "nat \<Rightarrow> app_op list list"
  cutover_ops :: "app_op list"
  drain_polls :: "string \<Rightarrow> app_op list list"
  stop_plan :: "string \<Rightarrow> stop_answers"

section \<open>Starting\<close>

fun wait_for_healthy :: "app_op list list \<Rightarrow> string \<Rightarrow> rollout \<Rightarrow> (instance_error + unit) \<times> rollout" where
  "wait_for_healthy polls i s =
     (let st = state_of (ro_app s) i
      in if st = Healthy then (Inr (), s)
         else if st = Stopped \<or> st = Unhealthy
           then (Inl (HealthCheckFailed ''Instance became unhealthy during startup''), s)
         else case polls of
                [] \<Rightarrow> (Inl StartupTimeout, s)
              | ops # rest \<Rightarrow> wait_for_healthy rest i (pause ops s))"

declare wait_for_healthy.simps [simp del]

definition start_and_wait_healthy ::
    "spawn_answers \<Rightarrow> app_op list list \<Rightarrow> string \<Rightarrow> string \<Rightarrow> rollout \<Rightarrow> (instance_error + unit) \<times> rollout" where
  "start_and_wait_healthy sp polls name i s =
     (case spawn sp name i (ro_app s) of
        (Inl e, _, a) \<Rightarrow> (Inl e, s\<lparr>ro_app := a\<rparr>)
      | (Inr _, _, a) \<Rightarrow> wait_for_healthy polls i (s\<lparr>ro_app := a\<rparr>))"

definition stability_error :: "instance_state \<Rightarrow> instance_error option" where
  "stability_error st =
     (if st = Healthy then None
      else if st = Stopped \<or> st = Unhealthy
        then Some (HealthCheckFailed (''Instance became '' @ show_instance_state st @ '' during rollout stability check''))
      else Some (HealthCheckFailed
        (''Instance left healthy state during rollout stability check: '' @ show_instance_state st)))"

fun first_unstable :: "app \<Rightarrow> string list \<Rightarrow> instance_error option" where
  "first_unstable a [] = None"
| "first_unstable a (i # is) = (case stability_error (state_of a i) of None \<Rightarrow> first_unstable a is | Some e \<Rightarrow> Some e)"

fun stable_loop :: "app_op list list \<Rightarrow> string list \<Rightarrow> rollout \<Rightarrow> (instance_error + unit) \<times> rollout" where
  "stable_loop polls is s =
     (case first_unstable (ro_app s) is of
        Some e \<Rightarrow> (Inl e, s)
      | None \<Rightarrow> (case polls of [] \<Rightarrow> (Inr (), s) | ops # rest \<Rightarrow> stable_loop rest is (pause ops s)))"

declare stable_loop.simps [simp del]

definition wait_for_stable_health ::
    "rolling_update_config \<Rightarrow> app_op list list \<Rightarrow> string list \<Rightarrow> rollout \<Rightarrow> (instance_error + unit) \<times> rollout" where
  "wait_for_stable_health cfg polls is s =
     (if is = [] \<or> health_stability_window cfg = 0 then (Inr (), s) else stable_loop polls is s)"

definition remove_new_instances :: "world \<Rightarrow> string list \<Rightarrow> app \<Rightarrow> app" where
  "remove_new_instances w is a = fold (\<lambda>i a. remove_instance i (snd (kill_instance (stop_plan w i) i a))) is a"

fun start_batch :: "world \<Rightarrow> string \<Rightarrow> nat \<Rightarrow> string list \<Rightarrow> string list \<Rightarrow> rollout
    \<Rightarrow> (instance_error + string list \<times> string list) \<times> rollout" where
  "start_batch w name 0 batch new s = (Inr (batch, new), s)"
| "start_batch w name (Suc n) batch new s =
     (let (sp, i, token, now) = start_plan w (length new);
          s1 = act (\<lambda>a. suppress_instance_routing i (allocate_instance i token now a)) s
      in case start_and_wait_healthy sp (healthy_polls w (length new)) name i s1 of
           (Inr _, s2) \<Rightarrow> start_batch w name n (batch @ [i]) (new @ [i]) s2
         | (Inl e, s2) \<Rightarrow>
             (Inl e, act (\<lambda>a. remove_instance i (snd (kill_instance (stop_plan w i) i (remove_new_instances w new a)))) s2))"

fun start_batches :: "rolling_update_config \<Rightarrow> world \<Rightarrow> string \<Rightarrow> 32 word \<Rightarrow> 32 word list \<Rightarrow> string list \<Rightarrow> rollout
    \<Rightarrow> (instance_error + string list) \<times> rollout" where
  "start_batches cfg w name target [] new s = (Inr new, s)"
| "start_batches cfg w name target (batch_start # starts) new s =
     (let batch_end = min (batch_start + batch_size cfg) target
      in case start_batch w name (unat batch_end - unat batch_start) [] new s of
           (Inl e, s1) \<Rightarrow> (Inl e, s1)
         | (Inr (batch, new1), s1) \<Rightarrow>
             (case wait_for_stable_health cfg (stable_polls w (length new1)) batch s1 of
                (Inl e, s2) \<Rightarrow> (Inl e, act (remove_new_instances w new1) s2)
              | (Inr _, s2) \<Rightarrow> start_batches cfg w name target starts new1 s2))"

text \<open>The starts of the batches, \<^verbatim>\<open>(0..target).step_by(batch_size)\<close>.\<close>

definition batch_starts :: "32 word \<Rightarrow> 32 word \<Rightarrow> 32 word list" where
  "batch_starts target step = map word_of_nat (filter (\<lambda>k. k mod unat step = 0) [0..<unat target])"

section \<open>Draining\<close>

fun drain_loop :: "app_op list list \<Rightarrow> string \<Rightarrow> rollout \<Rightarrow> rollout" where
  "drain_loop [] i s = s"
| "drain_loop (ops # rest) i s =
     (if (case objects (ro_app s) i of Some x \<Rightarrow> in_flight x > 0 | None \<Rightarrow> False)
      then drain_loop rest i (pause ops s) else s)"

definition drain_and_stop :: "world \<Rightarrow> string \<Rightarrow> rollout \<Rightarrow> rollout" where
  "drain_and_stop w i s =
     act (\<lambda>a. remove_instance i (snd (kill_instance (stop_plan w i) i a)))
       (drain_loop (drain_polls w i) i (act (\<lambda>a. snd (set_instance_state i Draining a)) s))"

text \<open>The update of an app; a batch size of zero panics.\<close>

definition update :: "rolling_update_config \<Rightarrow> world \<Rightarrow> string \<Rightarrow> app_config \<Rightarrow> 32 word \<Rightarrow> app
    \<Rightarrow> (rolling_update_result \<times> rollout) option" where
  "update cfg w name new_config target a =
     (if batch_size cfg = 0 then None
      else Some (
        let old = instances a;
            s0 = \<lparr>ro_app = update_config new_config a, ro_log = []\<rparr>
        in case start_batches cfg w name target (batch_starts target (batch_size cfg)) [] s0 of
             (Inl e, s1) \<Rightarrow> (update_failed e, s1)
           | (Inr new, s1) \<Rightarrow>
               let s2 = pause (cutover_ops w) s1
               in (case enable_rollout_routing new (ro_app s2) of
                     (Inl (i, st), a3) \<Rightarrow>
                       (update_failed (HealthCheckFailed (''Instance became '' @ show_instance_state st @ '' before rollout cutover'')),
                        act (remove_new_instances w new) (s2\<lparr>ro_app := a3\<rparr>))
                   | (Inr _, a3) \<Rightarrow>
                       (\<lparr>success = True, new_instances = word_of_nat (length new), old_instances = word_of_nat (length old),
                         update_error = None\<rparr>,
                        fold (drain_and_stop w) old (s2\<lparr>ro_app := a3\<rparr>)))))"

end
