(* ===== verification/Rolling_Update.thy ===== *)
theory Rolling_Update
  imports Rolling
begin

text \<open>
  What a rolling update guarantees while health checks and requests go on: it is all or nothing, the old
  instances keep serving until the new ones are in routing, and it succeeds when every new instance comes up.
\<close>

section \<open>What others do meanwhile\<close>

text \<open>Health checks and requests go on during an update; rollouts and other changes of the registry are
  excluded by the app's deploy lock.\<close>

definition env_op :: "app_op \<Rightarrow> bool" where
  "env_op op = (case op of Set_health _ _ \<Rightarrow> True | Request_started _ \<Rightarrow> True | Request_finished _ _ \<Rightarrow> True
     | Heartbeat _ _ \<Rightarrow> True | _ \<Rightarrow> False)"

definition env_le :: "string set \<Rightarrow> app \<Rightarrow> app \<Rightarrow> bool" where
  "env_le H a b = (instances b = instances a \<and> routing_suppressed b = routing_suppressed a \<and> config b = config a
     \<and> (\<forall>i. map_option build_version (objects b i) = map_option build_version (objects a i))
     \<and> (routing_ok a \<longrightarrow> routing_ok b) \<and> (\<forall>i. retired a i \<longrightarrow> retired b i)
     \<and> (\<forall>i. i \<notin> H \<longrightarrow> state_of b i = state_of a i))"

lemma env_le_refl: "env_le H a a"
  by (simp add: env_le_def)

lemma env_le_trans: "env_le H a b \<Longrightarrow> env_le H b c \<Longrightarrow> env_le H a c"
  by (simp add: env_le_def)

lemma env_le_upd:
  assumes "\<And>x. state_code (f x) = state_code x" "\<And>x. build_version (f x) = build_version x"
  shows "env_le H a (upd_object i f a)"
proof -
  have "map_option build_version (objects (upd_object i f a) j) = map_option build_version (objects a j)" for j
    using assms(2) by (cases "j = i") (simp_all add: upd_object_same upd_object_other option.map_comp comp_def)
  moreover have "state_of (upd_object i f a) j = state_of a j" for j
    using assms(1) by (cases "objects a i") (auto simp: state_of_upd inst_state_def state_of_Some)
  moreover have "config (upd_object i f a) = config a" by (simp add: upd_object_def)
  ultimately show ?thesis using object_op_ok [of a f i] retired_object [of f a _ i] assms(1)
    by (simp add: env_le_def)
qed

lemma env_le_health:
  assumes "i \<in> H"
  shows "env_le H a (snd (set_instance_health_state i st a))"
proof (cases "state_of a i = Draining \<or> state_of a i = Stopped")
  case True
  then show ?thesis by (simp add: set_instance_health_state_def env_le_refl)
next
  case False
  then have obj: "objects a i \<noteq> None" by (cases "objects a i") (simp_all add: state_of_def)
  let ?b = "snd (set_instance_state i st a)"
  have b: "snd (set_instance_health_state i st a) = ?b" using False by (simp add: set_instance_health_state_def)
  have o: "only i a ?b" by (intro only_intros)
  then have bv: "map_option build_version (objects ?b j) = map_option build_version (objects a j)" for j
    by (cases "j = i") (simp_all add: only_def)
  have "retired ?b j" if "retired a j" for j
  proof (cases "j = i")
    case True
    then show ?thesis using that False by (simp add: retired_def)
  qed (use retired_set_state [OF that] in simp)
  moreover have "state_of ?b j = state_of a j" if "j \<notin> H" for j
  proof -
    have "objects ?b j = objects a j" using that assms o by (simp add: only_def) metis
    then show ?thesis by (simp add: state_of_def)
  qed
  moreover have "routing_ok a \<longrightarrow> routing_ok ?b" using set_state_ok [OF _ obj] by simp
  moreover have "instances ?b = instances a" "routing_suppressed ?b = routing_suppressed a" "config ?b = config a"
    using o by (simp_all add: only_def)
  ultimately show ?thesis unfolding b env_le_def using bv by simp
qed

fun health_target :: "app_op \<Rightarrow> string set" where
  "health_target (Set_health i st) = {i}"
| "health_target _ = {}"

lemma build_version_requests:
  "build_version (request_started x) = build_version x" "build_version (request_finished now x) = build_version x"
  "build_version (record_heartbeat now x) = build_version x"
  by (simp_all add: request_started_def request_finished_def record_heartbeat_def Let_def)

lemma env_op_le: "env_op op \<Longrightarrow> health_target op \<subseteq> H \<Longrightarrow> env_le H a (app_exec op a)"
  by (cases op) (simp_all add: env_op_def env_le_health env_le_upd build_version_requests)

definition calm_ops :: "string set \<Rightarrow> app_op list \<Rightarrow> bool" where
  "calm_ops H ops = list_all (\<lambda>op. env_op op \<and> health_target op \<subseteq> H) ops"

lemma calm_fold: "calm_ops H ops \<Longrightarrow> env_le H a (fold app_exec ops a)"
proof (induction ops arbitrary: a)
  case (Cons op ops)
  then have "env_le H a (app_exec op a)" and "env_le H (app_exec op a) (fold app_exec ops (app_exec op a))"
    by (simp_all add: calm_ops_def env_op_le)
  then have "env_le H a (fold app_exec ops (app_exec op a))" by (rule env_le_trans)
  then show ?case by simp
qed (simp add: env_le_refl)


section \<open>The phases of an update\<close>

text \<open>Objects that are no longer registered are retired.\<close>

definition settled :: "app \<Rightarrow> bool" where
  "settled a = (\<forall>i. objects a i \<noteq> None \<longrightarrow> i \<in> set (instances a) \<or> retired a i)"

lemma env_objects:
  assumes "env_le H a b"
  shows "objects b i = None \<longleftrightarrow> objects a i = None"
proof -
  have "map_option build_version (objects b i) = map_option build_version (objects a i)"
    using assms by (simp add: env_le_def)
  then show ?thesis by (cases "objects a i"; cases "objects b i") simp_all
qed

lemma env_settled:
  assumes "env_le H a b" "settled a"
  shows "settled b"
  unfolding settled_def
proof (intro allI impI)
  fix i assume "objects b i \<noteq> None"
  then have "i \<in> set (instances a) \<or> retired a i" using assms(2) env_objects [OF assms(1)] by (simp add: settled_def)
  then show "i \<in> set (instances b) \<or> retired b i" using assms(1) by (auto simp: env_le_def)
qed

abbreviation new_id :: "world \<Rightarrow> nat \<Rightarrow> string" where
  "new_id w k \<equiv> fst (snd (start_plan w k))"

text \<open>While instances are started, for old instances \<open>old\<close>, ids \<open>S\<close> withheld before, \<open>N\<close> planned and
  \<open>m\<close> started instances: the new ones are registered after the old ones and withheld.\<close>

definition starting :: "world \<Rightarrow> nat \<Rightarrow> app_config \<Rightarrow> string list \<Rightarrow> string set \<Rightarrow> nat \<Rightarrow> app \<Rightarrow> bool" where
  "starting w N c old S m a = (m \<le> N \<and> instances a = old @ map (new_id w) [0..<m] \<and> distinct old
     \<and> set (routing_suppressed a) = S \<union> new_id w ` {..<m} \<and> config a = c \<and> routing_ok a \<and> settled a
     \<and> (\<forall>k<m. map_option build_version (objects a (new_id w k)) = Some (version c))
     \<and> (\<forall>k. m \<le> k \<and> k < N \<longrightarrow> objects a (new_id w k) = None)
     \<and> inj_on (new_id w) {..<N} \<and> (\<forall>k<N. new_id w k \<notin> S \<and> new_id w k \<notin> set old))"

definition old_routed :: "string list \<Rightarrow> string set \<Rightarrow> app \<Rightarrow> bool" where
  "old_routed old S a = (routed a = {i \<in> set old. state_of a i = Healthy \<and> i \<notin> S})"

lemma starting_env:
  assumes "starting w N c old S m a" "env_le H a b"
  shows "starting w N c old S m b"
proof -
  have "instances b = instances a" "routing_suppressed b = routing_suppressed a" "config b = config a"
    "routing_ok a \<longrightarrow> routing_ok b" "map_option build_version (objects b i) = map_option build_version (objects a i)" for i
    using assms(2) by (simp_all add: env_le_def)
  moreover have "settled b" using assms env_settled by (auto simp: starting_def)
  ultimately show ?thesis
    using assms(1) env_objects [OF assms(2)] by (simp add: starting_def)
qed

lemma settled_routed:
  assumes "settled a" "routing_ok a" "i \<in> routed a"
  shows "i \<in> set (instances a)"
proof -
  have "objects a i \<noteq> None" "\<not> retired a i" using assms(2,3) by (auto simp: routing_ok_def retired_def)
  then show ?thesis using assms(1) unfolding settled_def by blast
qed

lemma starting_old_routed:
  assumes "starting w N c old S m a"
  shows "old_routed old S a"
proof -
  have st: "instances a = old @ map (new_id w) [0..<m]" "\<forall>k<m. new_id w k \<notin> set old" "routing_ok a" "settled a"
    "set (routing_suppressed a) = S \<union> new_id w ` {..<m}"
    using assms by (simp_all add: starting_def)
  have "i \<in> set old \<and> state_of a i = Healthy \<and> i \<notin> S" if "i \<in> routed a" for i
    using settled_routed [OF st(4,3) that] that st by (auto simp: routing_ok_def)
  moreover have "i \<in> routed a" if "i \<in> set old" "state_of a i = Healthy" "i \<notin> S" for i
  proof -
    have "i \<notin> new_id w ` {..<m}" using that(1) st(1,2) by auto
    then show ?thesis using that st by (simp add: routing_ok_def)
  qed
  ultimately show ?thesis by (auto simp: old_routed_def)
qed

lemma starting_next:
  assumes "starting w N c old S m a" "m < N"
  shows "starting w N c old S (Suc m) (suppress_instance_routing (new_id w m) (allocate_instance (new_id w m) token now a))"
proof -
  let ?i = "new_id w m"
  let ?b = "suppress_instance_routing ?i (allocate_instance ?i token now a)"
  have a: "instances a = old @ map (new_id w) [0..<m]" "\<forall>k<m. new_id w k \<notin> set old" "routing_ok a" "settled a"
    "objects a ?i = None" "set (routing_suppressed a) = S \<union> new_id w ` {..<m}"
    using assms by (simp_all add: starting_def)
  have i: "?i \<notin> set (instances a)" using a(3,5) by (auto simp: routing_ok_def)
  have obj: "objects ?b j = (if j = ?i then Some (new_inner ?i (version (config a)) token now) else objects a j)" for j
    by (simp add: suppress_instance_routing_def allocate_instance_def remove_healthy_instance_def)
  have sel: "instances ?b = instances a @ [?i]" "config ?b = config a" "set (routing_suppressed ?b) = insert ?i (set (routing_suppressed a))"
    by (simp_all add: suppress_instance_routing_def allocate_instance_def remove_healthy_instance_def)
  have "routing_ok ?b" by (intro suppress_ok allocate_ok a)
  moreover have "settled ?b" using a(4,5) by (auto simp: settled_def obj sel retired_def state_of_def)
  moreover have "new_id w k \<noteq> ?i" if "k < N" "k \<noteq> m" for k
    using assms that by (auto simp: starting_def inj_on_def)
  ultimately show ?thesis using assms i a
    by (auto simp: starting_def obj sel new_inner_def lessThan_Suc less_Suc_eq)
qed

lemma starting_only:
  assumes "starting w N c old S m a" "k < m" "only (new_id w k) a b"
  shows "starting w N c old S m b"
proof -
  let ?i = "new_id w k"
  have a: "?i \<in> set (instances a)" "?i \<in> set (routing_suppressed a)" "routing_ok a" "settled a" "m \<le> N" "inj_on (new_id w) {..<N}"
    using assms(1,2) by (auto simp: starting_def)
  have i: "?i \<notin> routed a" "objects a ?i \<noteq> None" using a by (auto simp: routing_ok_def)
  then have b: "?i \<notin> routed b" "objects b ?i \<noteq> None" using assms(3) a(2) by (auto simp: only_def)
  have sel: "instances b = instances a" "routing_suppressed b = routing_suppressed a" "config b = config a"
    using assms(3) by (simp_all add: only_def)
  have "elem_ok b j" if e: "elem_ok a j" for j
  proof (cases "j = ?i")
    case True
    then show ?thesis using a(2) b by (simp add: elem_ok_def sel)
  next
    case False
    then have "objects b j = objects a j" using assms(3) by (simp add: only_def)
    moreover have "j \<in> routed b \<longleftrightarrow> j \<in> routed a" using False assms(3) unfolding only_def by blast
    ultimately show ?thesis using e by (simp add: elem_ok_def sel state_of_def)
  qed
  then have "routing_ok b" using a(3) assms(3) unfolding routing_ok_elem only_def by blast
  moreover have "settled b"
    unfolding settled_def
  proof (intro allI impI)
    fix j assume "objects b j \<noteq> None"
    show "j \<in> set (instances b) \<or> retired b j"
    proof (cases "j = ?i")
      case False
      then have "objects b j = objects a j" using assms(3) by (simp add: only_def)
      then show ?thesis using a(4) \<open>objects b j \<noteq> None\<close> by (simp add: settled_def sel retired_def state_of_def)
    qed (simp add: sel a(1))
  qed
  moreover have "map_option build_version (objects b j) = map_option build_version (objects a j)" for j
    using assms(3) by (cases "j = ?i") (simp_all add: only_def)
  moreover have "objects b (new_id w l) = None" if "m \<le> l" "l < N" for l
    using that assms(1) \<open>\<And>j. map_option build_version (objects b j) = map_option build_version (objects a j)\<close> [of "new_id w l"]
    by (simp add: starting_def)
  ultimately show ?thesis using assms(1) by (simp add: starting_def sel)
qed


section \<open>Rolling back\<close>

definition withdrawing :: "app_config \<Rightarrow> string list \<Rightarrow> string set \<Rightarrow> string list \<Rightarrow> app \<Rightarrow> bool" where
  "withdrawing c old S rest a = (instances a = old @ rest \<and> distinct (old @ rest)
     \<and> set (routing_suppressed a) = S \<union> set rest \<and> S \<inter> set rest = {} \<and> config a = c \<and> routing_ok a \<and> old_routed old S a)"

lemma withdrawing_step:
  assumes "withdrawing c old S (i # rest) a"
  shows "withdrawing c old S rest (evict ans i a)"
proof -
  have a: "instances a = old @ i # rest" "i \<notin> set old" "i \<notin> set rest" "i \<notin> S" "routing_ok a" "old_routed old S a"
    using assms by (auto simp: withdrawing_def)
  have i: "i \<in> set (instances a)" "i \<notin> routed a" using a by (auto simp: old_routed_def)
  have st: "state_of (evict ans i a) j = state_of a j" if "j \<in> set old" for j
  proof -
    have "j \<noteq> i" using that a(2) by auto
    then show ?thesis by (simp add: state_of_def evict_sel)
  qed
  have "routed (evict ans i a) = routed a" using i(2) by (simp add: evict_routed(1) [OF i(1)])
  then have "old_routed old S (evict ans i a)"
    using a(6) by (simp add: old_routed_def st cong: conj_cong)
  moreover have "routing_ok (evict ans i a)" unfolding evict_def by (rule evict_ok [OF a(5) i(1)])
  moreover have "instances (evict ans i a) = old @ rest" using a(1,2,3) by (simp add: evict_sel)
  moreover have "set (routing_suppressed (evict ans i a)) = S \<union> set rest"
    using assms a(3,4) i(1) by (auto simp: withdrawing_def evict_routed(2))
  ultimately show ?thesis using assms by (simp add: withdrawing_def evict_sel)
qed

lemma withdrawing_all:
  assumes "withdrawing c old S rest a"
  shows "withdrawing c old S [] (remove_new_instances w rest a)
    \<and> (\<forall>j. j \<notin> set rest \<longrightarrow> objects (remove_new_instances w rest a) j = objects a j)"
  using assms
proof (induction rest arbitrary: a)
  case (Cons i rest)
  let ?a = "evict (stop_plan w i) i a"
  have "remove_new_instances w (i # rest) a = remove_new_instances w rest ?a"
    by (simp add: remove_new_instances_def evict_def)
  then show ?case
    using Cons.IH [OF withdrawing_step [OF Cons.prems, of "stop_plan w i"]] evict_sel(3) [of _ i "stop_plan w i" a] by simp
qed (simp add: remove_new_instances_def)


section \<open>Starting\<close>

text \<open>The states of an update up to the cutover, and after a rollback; \<open>H\<close> are the instances whose health
  is reported meanwhile, \<open>a0\<close> the app before.\<close>

definition kept :: "string list \<Rightarrow> string set \<Rightarrow> app \<Rightarrow> app \<Rightarrow> bool" where
  "kept old H a0 a = (\<forall>i \<in> set old. i \<notin> H \<longrightarrow> state_of a i = state_of a0 i)"

definition going :: "world \<Rightarrow> nat \<Rightarrow> app_config \<Rightarrow> string list \<Rightarrow> string set \<Rightarrow> string set \<Rightarrow> app \<Rightarrow> nat \<Rightarrow> rollout \<Rightarrow> bool" where
  "going w N c old S H a0 m s = (starting w N c old S m (ro_app s) \<and> kept old H a0 (ro_app s)
     \<and> list_all (old_routed old S) (ro_log s))"

definition gone_back :: "app_config \<Rightarrow> string list \<Rightarrow> string set \<Rightarrow> string set \<Rightarrow> app \<Rightarrow> rollout \<Rightarrow> bool" where
  "gone_back c old S H a0 s = (withdrawing c old S [] (ro_app s) \<and> kept old H a0 (ro_app s)
     \<and> list_all (old_routed old S) (ro_log s))"

lemma kept_env: "kept old H a0 a \<Longrightarrow> env_le H a b \<Longrightarrow> kept old H a0 b"
  by (simp add: kept_def env_le_def)

lemma going_pause:
  assumes "going w N c old S H a0 m s" "calm_ops H ops"
  shows "going w N c old S H a0 m (pause ops s)"
proof -
  have "env_le H (ro_app s) (fold app_exec ops (ro_app s))" by (rule calm_fold [OF assms(2)])
  then show ?thesis
    using assms(1) starting_env kept_env starting_old_routed by (auto simp: going_def pause_def)
qed

lemma going_only:
  assumes "going w N c old S H a0 m s" "k < m" "only (new_id w k) (ro_app s) b"
  shows "going w N c old S H a0 m (s\<lparr>ro_app := b\<rparr>)"
proof -
  have st: "starting w N c old S m b" using assms starting_only by (auto simp: going_def)
  have "kept old H a0 b"
    unfolding kept_def
  proof (intro ballI impI)
    fix i assume i: "i \<in> set old" "i \<notin> H"
    have "i \<noteq> new_id w k" using st i(1) assms(2) by (auto simp: starting_def)
    then have "objects b i = objects (ro_app s) i" using assms(3) by (simp add: only_def)
    then show "state_of b i = state_of a0 i" using assms(1) i by (simp add: going_def kept_def state_of_def)
  qed
  then show ?thesis using st assms(1) by (simp add: going_def)
qed

lemma going_next:
  assumes "going w N c old S H a0 m s" "m < N"
  shows "going w N c old S H a0 (Suc m)
    (act (\<lambda>a. suppress_instance_routing (new_id w m) (allocate_instance (new_id w m) token now a)) s)"
proof -
  let ?b = "suppress_instance_routing (new_id w m) (allocate_instance (new_id w m) token now (ro_app s))"
  have st: "starting w N c old S (Suc m) ?b" using assms starting_next by (auto simp: going_def)
  have "state_of ?b i = state_of (ro_app s) i" if "i \<in> set old" for i
  proof -
    have "i \<noteq> new_id w m" using st that assms(2) by (auto simp: starting_def)
    then show ?thesis
      by (simp add: state_of_def suppress_instance_routing_def allocate_instance_def remove_healthy_instance_def)
  qed
  then show ?thesis using assms(1) st by (simp add: going_def act_def kept_def)
qed

lemma going_healthy:
  assumes "going w N c old S H a0 m s" "list_all (calm_ops H) polls" "wait_for_healthy polls i s = (r, s')"
  shows "going w N c old S H a0 m s'"
  using assms
proof (induction polls arbitrary: s)
  case Nil
  then show ?case by (simp add: wait_for_healthy.simps Let_def split: if_splits)
next
  case (Cons ops polls)
  have "going w N c old S H a0 m (pause ops s)" using Cons.prems by (simp add: going_pause)
  then show ?case
    using Cons.IH [of "pause ops s"] Cons.prems
    by (simp add: wait_for_healthy.simps [of "ops # polls"] Let_def split: if_splits)
qed

lemma going_stable_loop:
  assumes "going w N c old S H a0 m s" "list_all (calm_ops H) polls" "stable_loop polls is s = (r, s')"
  shows "going w N c old S H a0 m s'"
  using assms
proof (induction polls arbitrary: s)
  case Nil
  then show ?case by (simp add: stable_loop.simps split: option.splits)
next
  case (Cons ops polls)
  have "going w N c old S H a0 m (pause ops s)" using Cons.prems by (simp add: going_pause)
  then show ?case
    using Cons.IH [of "pause ops s"] Cons.prems by (simp add: stable_loop.simps [of "ops # polls"] split: option.splits)
qed

lemma going_stable:
  "going w N c old S H a0 m s \<Longrightarrow> list_all (calm_ops H) polls \<Longrightarrow> wait_for_stable_health cfg polls is s = (r, s')
     \<Longrightarrow> going w N c old S H a0 m s'"
  using going_stable_loop by (auto simp: wait_for_stable_health_def split: if_splits)

lemma going_start:
  assumes "going w N c old S H a0 m s" "k < m" "list_all (calm_ops H) polls"
    "start_and_wait_healthy sp polls name (new_id w k) s = (r, s')"
  shows "going w N c old S H a0 m s'"
proof -
  obtain q es a where sp: "spawn sp name (new_id w k) (ro_app s) = (q, es, a)" by (metis prod.exhaust)
  have "going w N c old S H a0 m (s\<lparr>ro_app := a\<rparr>)" using going_only [OF assms(1,2) spawn_frame [OF sp]] .
  then show ?thesis using assms(3,4) going_healthy
    by (auto simp: start_and_wait_healthy_def sp split: sum.splits)
qed

lemma going_rollback:
  assumes "going w N c old S H a0 m s"
  shows "gone_back c old S H a0 (act (remove_new_instances w (map (new_id w) [0..<m])) s)"
proof -
  let ?new = "map (new_id w) [0..<m]"
  have st: "starting w N c old S m (ro_app s)" using assms by (simp add: going_def)
  have inj: "inj_on (new_id w) {0..<m}" using st by (auto simp: starting_def inj_on_def)
  have "withdrawing c old S ?new (ro_app s)"
    using st starting_old_routed [OF st] inj
    by (auto simp: withdrawing_def starting_def distinct_map lessThan_atLeast0)
  from withdrawing_all [OF this, of w]
  have wd: "withdrawing c old S [] (remove_new_instances w ?new (ro_app s))"
    and obj: "\<And>j. j \<notin> set ?new \<Longrightarrow> objects (remove_new_instances w ?new (ro_app s)) j = objects (ro_app s) j" by auto
  have "kept old H a0 (remove_new_instances w ?new (ro_app s))"
    unfolding kept_def
  proof (intro ballI impI)
    fix i assume i: "i \<in> set old" "i \<notin> H"
    have "i \<notin> set ?new" using st i(1) by (auto simp: starting_def)
    then show "state_of (remove_new_instances w ?new (ro_app s)) i = state_of a0 i"
      using assms i obj [of i] by (simp add: going_def kept_def state_of_def)
  qed
  then show ?thesis using wd assms by (simp add: gone_back_def act_def going_def)
qed


definition calm :: "string set \<Rightarrow> world \<Rightarrow> bool" where
  "calm H w = ((\<forall>k. list_all (calm_ops H) (healthy_polls w k) \<and> list_all (calm_ops H) (stable_polls w k))
     \<and> calm_ops H (cutover_ops w) \<and> (\<forall>i. list_all (calm_ops H) (drain_polls w i)))"

abbreviation new_ids :: "world \<Rightarrow> nat \<Rightarrow> string list" where
  "new_ids w m \<equiv> map (new_id w) [0..<m]"

text \<open>A batch either starts all of its instances or leaves everything rolled back.\<close>

lemma start_batch_going:
  assumes "going w N c old S H a0 m s" "calm H w" "m + n \<le> N" "start_batch w name n batch (new_ids w m) s = (r, s')"
  shows "(case r of Inr (_, new) \<Rightarrow> new = new_ids w (m + n) \<and> going w N c old S H a0 (m + n) s'
    | Inl _ \<Rightarrow> gone_back c old S H a0 s')"
  using assms
proof (induction n arbitrary: m batch s)
  case (Suc n)
  obtain sp i token now where p: "start_plan w m = (sp, i, token, now)" by (metis prod.exhaust)
  let ?s1 = "act (\<lambda>a. suppress_instance_routing (new_id w m) (allocate_instance (new_id w m) token now a)) s"
  have g1: "going w N c old S H a0 (Suc m) ?s1" using Suc.prems(1,3) by (intro going_next) simp_all
  obtain q s2 where q: "start_and_wait_healthy sp (healthy_polls w m) name (new_id w m) ?s1 = (q, s2)" by (metis prod.exhaust)
  have g2: "going w N c old S H a0 (Suc m) s2"
    using going_start [OF g1 _ _ q] Suc.prems(2) by (simp add: calm_def)
  show ?case
  proof (cases q)
    case (Inr u)
    then have "start_batch w name n (batch @ [new_id w m]) (new_ids w (Suc m)) s2 = (r, s')"
      using Suc.prems(4) q by (simp add: p Let_def)
    from Suc.IH [OF g2 Suc.prems(2) _ this] show ?thesis using Suc.prems(3) by (simp only: add_Suc add_Suc_right)
  next
    case (Inl e)
    have "remove_new_instances w (new_ids w (Suc m)) a =
        remove_instance (new_id w m) (snd (kill_instance (stop_plan w (new_id w m)) (new_id w m) (remove_new_instances w (new_ids w m) a)))" for a
      by (simp add: remove_new_instances_def)
    then have "r = Inl e" "s' = act (remove_new_instances w (new_ids w (Suc m))) s2"
      using Suc.prems(4) q Inl by (simp_all add: p Let_def act_def)
    then show ?thesis using going_rollback [OF g2] by simp
  qed
qed auto

lemma step_by_Cons:
  assumes "0 < d" "q mod d = 0" "q < t"
  shows "filter (\<lambda>k. k mod d = 0) [q..<t] = q # filter (\<lambda>k. k mod d = 0) [min (q + d) t..<t]"
proof -
  have no: "k mod d \<noteq> 0" if "k \<in> set [Suc q..<min (q + d) t]" for k
  proof
    assume "k mod d = 0"
    then have "(k - q) mod d = 0" using assms(2) by (simp add: mod_eq_0_iff_dvd dvd_diff_nat)
    moreover have "0 < k - q" "k - q < d" using that by auto
    ultimately show False by simp
  qed
  have "[q..<t] = q # [Suc q..<min (q + d) t] @ [min (q + d) t..<t]"
    using assms upt_add_eq_append [of "Suc q" "min (q + d) t" "t - min (q + d) t"] by (simp add: upt_conv_Cons)
  then show ?thesis using assms(2) no by (simp add: filter_empty_conv)
qed


lemma start_batches_going:
  fixes T B :: "32 word"
  assumes B: "0 < unat B" "unat T + unat B < 2 ^ 32" "batch_size cfg = B" and w: "calm H w" and q: "q mod unat B = 0 \<or> q = unat T" "q \<le> unat T"
    and g: "going w (unat T) c old S H a0 q s"
    and r: "start_batches cfg w name T (map word_of_nat (filter (\<lambda>k. k mod unat B = 0) [q..<unat T])) (new_ids w q) s = (r, s')"
  shows "(case r of Inr new \<Rightarrow> new = new_ids w (unat T) \<and> going w (unat T) c old S H a0 (unat T) s'
    | Inl _ \<Rightarrow> gone_back c old S H a0 s')"
  using q g r
proof (induction "unat T - q" arbitrary: q s rule: less_induct)
  case less
  show ?case
  proof (cases "q < unat T")
    case False
    then show ?thesis using less.prems by auto
  next
    case True
    let ?e = "min (q + unat B) (unat T)"
    have qm: "q mod unat B = 0" using less.prems(1) True by auto
    have u: "unat (word_of_nat q :: 32 word) = q" using True B(2) by (simp add: unat_of_nat)
    then have "unat ((word_of_nat q :: 32 word) + B) = q + unat B" using True B(2) by (simp add: unat_word_ariths)
    then have e: "unat (min (word_of_nat q + B) T) = ?e" by (auto simp: min_def word_le_nat_alt)
    obtain r1 s1 where b: "start_batch w name (?e - q) [] (new_ids w q) s = (r1, s1)" by (metis prod.exhaust)
    have eq: "q + (?e - q) = ?e" using True by simp
    have g1: "case r1 of Inr (_, new) \<Rightarrow> new = new_ids w ?e \<and> going w (unat T) c old S H a0 ?e s1
        | Inl _ \<Rightarrow> gone_back c old S H a0 s1"
      by (rule start_batch_going [OF less.prems(3) w _ b, unfolded eq]) simp
    note run = less.prems(4) [unfolded step_by_Cons [OF B(1) qm True]]
    show ?thesis
    proof (cases r1)
      case (Inl x)
      then show ?thesis using run b g1 by (auto simp: Let_def u e B(3))
    next
      case (Inr p)
      obtain batch new where p: "p = (batch, new)" by (metis prod.exhaust)
      have new: "new = new_ids w ?e" and g2: "going w (unat T) c old S H a0 ?e s1" using g1 Inr p by simp_all
      obtain r2 s2 where st: "wait_for_stable_health cfg (stable_polls w ?e) batch s1 = (r2, s2)" by (metis prod.exhaust)
      have g3: "going w (unat T) c old S H a0 ?e s2" using going_stable [OF g2 _ st] w by (simp add: calm_def)
      show ?thesis
      proof (cases r2)
        case (Inl x)
        then show ?thesis using run b Inr p new st going_rollback [OF g3] by (auto simp: Let_def u e B(3))
      next
        case i2: (Inr x)
        have "start_batches cfg w name T (map word_of_nat (filter (\<lambda>k. k mod unat B = 0) [?e..<unat T])) (new_ids w ?e) s2 = (r, s')"
          using run b Inr p new st i2 by (simp add: Let_def u e B(3))
        moreover have "?e mod unat B = 0 \<or> ?e = unat T" using qm by (auto simp: min_def)
        ultimately show ?thesis using less.hyps [of ?e s2] g3 True B(1) by simp
      qed
    qed
  qed
qed


section \<open>Cutover and draining\<close>

definition new_routed :: "string list \<Rightarrow> app \<Rightarrow> bool" where
  "new_routed new a = (\<forall>n \<in> set new. state_of a n = Healthy \<longrightarrow> n \<in> routed a)"

definition serving :: "app_config \<Rightarrow> string list \<Rightarrow> string list \<Rightarrow> app \<Rightarrow> bool" where
  "serving c new rest a = (instances a = rest @ new \<and> distinct (rest @ new) \<and> set (routing_suppressed a) \<inter> set new = {}
     \<and> config a = c \<and> routing_ok a \<and> settled a
     \<and> (\<forall>n \<in> set new. map_option build_version (objects a n) = Some (version c)))"

lemma serving_new_routed:
  assumes "serving c new rest a"
  shows "new_routed new a"
  unfolding new_routed_def
proof (intro ballI impI)
  fix n assume n: "n \<in> set new" "state_of a n = Healthy"
  have "n \<in> set (instances a)" "n \<notin> set (routing_suppressed a)" "routing_ok a" using assms n(1) by (auto simp: serving_def)
  then show "n \<in> routed a" using n(2) by (simp add: routing_ok_def)
qed

lemma serving_routed:
  assumes "serving c new [] a"
  shows "routed a = {n \<in> set (instances a). state_of a n = Healthy}"
proof -
  have a: "settled a" "routing_ok a" "instances a = new" using assms by (simp_all add: serving_def)
  have "state_of a n = Healthy" if "n \<in> routed a" for n using a(2) that by (simp add: routing_ok_def)
  then show ?thesis using settled_routed [OF a(1,2)] serving_new_routed [OF assms] a(3) unfolding new_routed_def by blast
qed

lemma serving_env:
  assumes "serving c new rest a" "env_le H a b"
  shows "serving c new rest b"
proof -
  have "instances b = instances a" "routing_suppressed b = routing_suppressed a" "config b = config a"
    "routing_ok a \<longrightarrow> routing_ok b" "map_option build_version (objects b i) = map_option build_version (objects a i)" for i
    using assms(2) by (simp_all add: env_le_def)
  moreover have "settled b" using assms env_settled by (auto simp: serving_def)
  ultimately show ?thesis using assms(1) by (simp add: serving_def)
qed

definition enable_all :: "string list \<Rightarrow> app \<Rightarrow> app" where
  "enable_all is a = fold (\<lambda>i a. snd (enable_instance_routing i a)) is a"

lemma enable_sel:
  "instances (snd (enable_instance_routing i a)) = instances a" "config (snd (enable_instance_routing i a)) = config a"
  "objects (snd (enable_instance_routing i a)) = objects a"
  "set (routing_suppressed (snd (enable_instance_routing i a))) = set (routing_suppressed a) - {i}"
  by (auto simp: enable_instance_routing_def Let_def add_healthy_instance_def)

lemma enable_all_sel:
  "instances (enable_all is a) = instances a \<and> config (enable_all is a) = config a \<and> objects (enable_all is a) = objects a
     \<and> set (routing_suppressed (enable_all is a)) = set (routing_suppressed a) - set is"
  by (induction "is" arbitrary: a) (auto simp: enable_all_def enable_sel)

lemma settled_cong: "objects b = objects a \<Longrightarrow> instances b = instances a \<Longrightarrow> settled b = settled a"
  by (simp add: settled_def retired_def state_of_def)

lemma cutover_serving:
  assumes st: "starting w N c old S N a" and en: "enable_rollout_routing (new_ids w N) a = (Inr u, b)"
  shows "serving c (new_ids w N) old b"
proof -
  have b: "b = enable_all (new_ids w N) a"
    using en by (simp add: enable_rollout_routing_def enable_all_def split: option.splits)
  have sel: "instances b = instances a" "config b = config a" "objects b = objects a"
    "set (routing_suppressed b) = set (routing_suppressed a) - set (new_ids w N)"
    using enable_all_sel [of "new_ids w N" a] by (simp_all add: b)
  have "inj_on (new_id w) {0..<N}" using st by (auto simp: starting_def inj_on_def)
  then have "distinct (old @ new_ids w N)" using st by (auto simp: starting_def distinct_map)
  moreover have "routing_ok b" using st by (simp add: b enable_all_def enable_fold_ok starting_def)
  moreover have "settled b" using st settled_cong [OF sel(3,1)] by (simp add: starting_def)
  ultimately show ?thesis using st by (auto simp: serving_def sel starting_def)
qed

lemma serving_drain:
  assumes "serving c new (i # rest) a" "state_of a i = Draining \<or> state_of a i = Stopped"
  shows "serving c new rest (evict ans i a)"
proof -
  have a: "instances a = i # rest @ new" "distinct (i # rest @ new)" "routing_ok a" "settled a" using assms(1) by (simp_all add: serving_def)
  have i: "i \<in> set (instances a)" using a(1) by simp
  have "objects a i \<noteq> None" using a(1,3) by (simp add: routing_ok_def)
  then have ret: "retired a i" using assms(2) by (simp add: retired_def)
  have obj: "objects (evict ans i a) j = objects (snd (kill_instance ans i a)) j" for j
    by (simp add: evict_def remove_instance_sel)
  then have st: "state_of (evict ans i a) j = state_of (snd (kill_instance ans i a)) j" for j by (simp add: state_of_def)
  have "settled (evict ans i a)"
    unfolding settled_def
  proof (intro allI impI)
    fix j assume j: "objects (evict ans i a) j \<noteq> None"
    show "j \<in> set (instances (evict ans i a)) \<or> retired (evict ans i a) j"
    proof (cases "j = i")
      case True
      then show ?thesis using retired_kill [OF ret, of ans i] by (simp add: retired_def obj st)
    next
      case False
      then have "objects (evict ans i a) j = objects a j" by (simp add: evict_sel)
      then show ?thesis using j False a(4) by (simp add: settled_def retired_def state_of_def evict_sel)
    qed
  qed
  moreover have "routing_ok (evict ans i a)" unfolding evict_def by (rule evict_ok [OF a(3) i])
  moreover have "instances (evict ans i a) = rest @ new" using a(1,2) by (simp add: evict_sel)
  moreover have "map_option build_version (objects (evict ans i a) n) = Some (version c)" if "n \<in> set new" for n
  proof -
    have "n \<noteq> i" using that a(2) by auto
    then show ?thesis using assms(1) that by (simp add: serving_def evict_sel)
  qed
  moreover have "set (routing_suppressed (evict ans i a)) \<inter> set new = {}"
    using assms(1) i by (auto simp: serving_def evict_routed(2))
  ultimately show ?thesis using assms(1) by (simp add: serving_def evict_sel)
qed


lemma serving_mark:
  assumes "serving c new (i # rest) a"
  shows "serving c new (i # rest) (snd (set_instance_state i Draining a))" "retired (snd (set_instance_state i Draining a)) i"
proof -
  let ?b = "snd (set_instance_state i Draining a)"
  have o: "only i a ?b" by (intro only_intros)
  have a: "i \<in> set (instances a)" "routing_ok a" "settled a" using assms by (auto simp: serving_def)
  have obj: "objects a i \<noteq> None" using a(1,2) by (simp add: routing_ok_def)
  then show "retired ?b i" by (auto simp: retired_def set_instance_state_sel state_of_def)
  have bv: "map_option build_version (objects ?b j) = map_option build_version (objects a j)" for j
    using o by (cases "j = i") (simp_all add: only_def)
  have sel: "instances ?b = instances a" "routing_suppressed ?b = routing_suppressed a" "config ?b = config a"
    using o by (simp_all add: only_def)
  have "settled ?b"
    unfolding settled_def
  proof (intro allI impI)
    fix j assume j: "objects ?b j \<noteq> None"
    show "j \<in> set (instances ?b) \<or> retired ?b j"
    proof (cases "j = i")
      case False
      then have "objects ?b j = objects a j" using o by (simp add: only_def)
      then show ?thesis using j a(3) by (simp add: settled_def sel retired_def state_of_def)
    qed (simp add: sel a(1))
  qed
  then show "serving c new (i # rest) ?b" using assms set_state_ok [OF a(2) obj] by (simp add: serving_def sel bv)
qed

definition moving :: "app_config \<Rightarrow> string list \<Rightarrow> string list \<Rightarrow> string set \<Rightarrow> string list \<Rightarrow> rollout \<Rightarrow> bool" where
  "moving c new old S rest s = (serving c new rest (ro_app s)
     \<and> list_all (\<lambda>b. old_routed old S b \<or> new_routed new b) (ro_log s))"

lemma moving_drain_loop:
  assumes "moving c new old S (i # rest) s" "retired (ro_app s) i" "list_all (calm_ops H) polls"
  shows "moving c new old S (i # rest) (drain_loop polls i s) \<and> retired (ro_app (drain_loop polls i s)) i"
  using assms
proof (induction polls arbitrary: s)
  case (Cons ops polls)
  have e: "env_le H (ro_app s) (ro_app (pause ops s))" using Cons.prems(3) by (simp add: pause_def calm_fold)
  then have "moving c new old S (i # rest) (pause ops s)" "retired (ro_app (pause ops s)) i"
    using Cons.prems serving_env [OF _ e] serving_new_routed by (auto simp: moving_def pause_def env_le_def)
  then show ?case using Cons.IH [of "pause ops s"] Cons.prems by simp
qed simp

lemma moving_drain:
  assumes "moving c new old S (i # rest) s" "calm H w"
  shows "moving c new old S rest (drain_and_stop w i s)"
proof -
  let ?s = "act (\<lambda>a. snd (set_instance_state i Draining a)) s"
  let ?d = "drain_loop (drain_polls w i) i ?s"
  have "moving c new old S (i # rest) ?s" "retired (ro_app ?s) i"
    using assms(1) serving_mark by (auto simp: moving_def act_def)
  then have d: "moving c new old S (i # rest) ?d" "retired (ro_app ?d) i"
    using moving_drain_loop [of c new old S i rest ?s H "drain_polls w i"] assms(2) by (simp_all add: calm_def)
  then have "serving c new rest (evict (stop_plan w i) i (ro_app ?d))"
    by (intro serving_drain) (simp_all add: moving_def retired_def)
  then show ?thesis using d(1) by (simp add: moving_def drain_and_stop_def act_def evict_def)
qed

lemma moving_all:
  assumes "moving c new old S rest s" "calm H w"
  shows "moving c new old S [] (fold (drain_and_stop w) rest s)"
  using assms(1)
proof (induction rest arbitrary: s)
  case (Cons i rest)
  then show ?case using moving_drain [OF Cons.prems assms(2)] by simp
qed simp


section \<open>The whole update\<close>

text \<open>What an update may start from: settled routing, a batch size that is not zero and does not overflow the
  target, and fresh ids for the new instances.\<close>

definition update_ready :: "rolling_update_config \<Rightarrow> world \<Rightarrow> 32 word \<Rightarrow> app \<Rightarrow> bool" where
  "update_ready cfg w target a = (routing_ok a \<and> settled a \<and> distinct (instances a)
     \<and> batch_size cfg \<noteq> 0 \<and> unat target + unat (batch_size cfg) < 2 ^ 32 \<and> inj_on (new_id w) {..<unat target}
     \<and> (\<forall>k<unat target. objects a (new_id w k) = None \<and> new_id w k \<notin> set (routing_suppressed a)))"

lemma update_going:
  assumes "update_ready cfg w target a"
  shows "going w (unat target) (apply_internal_defaults c) (instances a) (set (routing_suppressed a)) H a 0
    \<lparr>ro_app = update_config c a, ro_log = []\<rparr>"
proof -
  have "new_id w k \<notin> set (instances a)" if "k < unat target" for k
    using assms that by (auto simp: update_ready_def routing_ok_def)
  moreover have "settled (update_config c a)" "routing_ok (update_config c a)"
    using assms settled_cong [of "update_config c a" a] config_ok by (simp_all add: update_ready_def) (simp add: update_config_def)
  ultimately show ?thesis using assms
    by (simp add: going_def starting_def kept_def update_ready_def update_config_def state_of_def)
qed

lemma update_outcome:
  assumes ready: "update_ready cfg w target a" and w: "calm H w"
  obtains r s where "update cfg w name c target a = Some (r, s)"
    "success r \<Longrightarrow> moving (apply_internal_defaults c) (new_ids w (unat target)) (instances a) (set (routing_suppressed a)) [] s
      \<and> new_instances r = target \<and> old_instances r = word_of_nat (length (instances a)) \<and> update_error r = None"
    "\<not> success r \<Longrightarrow> gone_back (apply_internal_defaults c) (instances a) (set (routing_suppressed a)) H a s \<and> update_error r \<noteq> None"
proof -
  let ?c = "apply_internal_defaults c" and ?S = "set (routing_suppressed a)" and ?n = "unat target"
  let ?s0 = "\<lparr>ro_app = update_config c a, ro_log = []\<rparr>"
  have B: "0 < unat (batch_size cfg)" "unat target + unat (batch_size cfg) < 2 ^ 32" "batch_size cfg \<noteq> 0"
    using ready by (simp_all add: update_ready_def unat_gt_0)
  obtain r1 s1 where b: "start_batches cfg w name target (batch_starts target (batch_size cfg)) [] ?s0 = (r1, s1)" by (metis prod.exhaust)
  have g: "case r1 of Inr new \<Rightarrow> new = new_ids w ?n \<and> going w ?n ?c (instances a) ?S H a ?n s1
      | Inl _ \<Rightarrow> gone_back ?c (instances a) ?S H a s1"
    using start_batches_going [OF B(1,2) refl w _ _ update_going [OF ready], where name = name and r = r1 and s' = s1 and c1 = c] b by (simp add: batch_starts_def)
  show ?thesis
  proof (cases r1)
    case (Inl e)
    show ?thesis
      by (rule that [of "update_failed e" s1]) (use b B(3) g Inl in \<open>simp_all add: update_def Let_def update_failed_def\<close>)
  next
    case (Inr new)
    then have new: "new = new_ids w ?n" and g1: "going w ?n ?c (instances a) ?S H a ?n s1" using g by simp_all
    let ?s2 = "pause (cutover_ops w) s1"
    have g2: "going w ?n ?c (instances a) ?S H a ?n ?s2" using going_pause [OF g1] w by (simp add: calm_def)
    obtain q a3 where en: "enable_rollout_routing new (ro_app ?s2) = (q, a3)" by (metis prod.exhaust)
    show ?thesis
    proof (cases q)
      case (Inl e)
      obtain i st where e: "e = (i, st)" by (metis prod.exhaust)
      have a3: "?s2\<lparr>ro_app := a3\<rparr> = ?s2" using en Inl by (simp add: enable_rollout_routing_def split: option.splits)
      let ?r = "update_failed (HealthCheckFailed (''Instance became '' @ show_instance_state st @ '' before rollout cutover''))"
      have "update cfg w name c target a = Some (?r, act (remove_new_instances w new) ?s2)"
        using b B(3) Inr en Inl e a3 by (simp add: update_def Let_def)
      then show ?thesis using going_rollback [OF g2] by (intro that [of ?r]) (simp_all add: new update_failed_def)
    next
      case ok: (Inr u)
      have sv: "serving ?c new (instances a) a3"
        using cutover_serving [of w ?n ?c "instances a" ?S "ro_app ?s2" u a3] g2 en ok by (simp add: going_def new)
      have "moving ?c new (instances a) ?S (instances a) (?s2\<lparr>ro_app := a3\<rparr>)"
        using sv g2 by (simp add: moving_def going_def list_all_iff)
      then have mv: "moving ?c new (instances a) ?S [] (fold (drain_and_stop w) (instances a) (?s2\<lparr>ro_app := a3\<rparr>))"
        using w by (rule moving_all)
      show ?thesis
        by (rule that [of "\<lparr>success = True, new_instances = word_of_nat (length new),
              old_instances = word_of_nat (length (instances a)), update_error = None\<rparr>"])
          (use b B(3) Inr en ok mv in \<open>simp_all add: update_def Let_def new\<close>)
    qed
  qed
qed


section \<open>Progress\<close>

definition all_up :: "world \<Rightarrow> nat \<Rightarrow> app \<Rightarrow> bool" where
  "all_up w m a = (\<forall>k<m. state_of a (new_id w k) = Healthy)"

lemma all_up_pause: "all_up w m (ro_app s) \<Longrightarrow> calm_ops H ops \<Longrightarrow> H \<inter> set (new_ids w m) = {} \<Longrightarrow> all_up w m (ro_app (pause ops s))"
proof -
  assume up: "all_up w m (ro_app s)" and H: "calm_ops H ops" "H \<inter> set (new_ids w m) = {}"
  have e: "env_le H (ro_app s) (ro_app (pause ops s))" using calm_fold [OF H(1)] by (simp add: pause_def)
  have "state_of (ro_app (pause ops s)) (new_id w k) = Healthy" if "k < m" for k
  proof -
    have "new_id w k \<notin> H" using H(2) that by auto
    then show ?thesis using e up that by (simp add: env_le_def all_up_def)
  qed
  then show ?thesis by (simp add: all_up_def)
qed

lemma all_up_stable:
  assumes "all_up w m (ro_app s)" "list_all (calm_ops H) polls" "H \<inter> set (new_ids w m) = {}" "set is \<subseteq> set (new_ids w m)"
  shows "\<exists>s'. stable_loop polls is s = (Inr (), s') \<and> all_up w m (ro_app s')"
  using assms(1,2)
proof (induction polls arbitrary: s)
  case Nil
  have "first_unstable (ro_app s) js = None" if "set js \<subseteq> set (new_ids w m)" for js
    using that Nil.prems(1) by (induction js) (auto simp: all_up_def stability_error_def)
  then show ?case using Nil.prems assms(4) by (simp add: stable_loop.simps)
next
  case (Cons ops polls)
  have "first_unstable (ro_app s) js = None" if "set js \<subseteq> set (new_ids w m)" for js
    using that Cons.prems(1) by (induction js) (auto simp: all_up_def stability_error_def)
  moreover have "all_up w m (ro_app (pause ops s))" using all_up_pause [OF Cons.prems(1) _ assms(3)] Cons.prems(2) by simp
  ultimately show ?case using Cons.IH [of "pause ops s"] Cons.prems(2) assms(4)
    by (simp add: stable_loop.simps [of "ops # polls"])
qed

lemma starting_inj:
  assumes "starting w N c old S m a" "k < l" "l < N"
  shows "new_id w k \<noteq> new_id w l"
proof
  assume "new_id w k = new_id w l"
  moreover have "inj_on (new_id w) {..<N}" using assms(1) by (simp add: starting_def)
  ultimately have "k = l" using assms(2,3) by (auto dest: inj_onD)
  then show False using assms(2) by simp
qed

lemma all_up_start:
  assumes "going w N c old S H a0 (Suc m) s" "all_up w m (ro_app s)" "spawn_ok sp c"
  shows "\<exists>s'. start_and_wait_healthy sp polls name (new_id w m) s = (Inr (), s') \<and> all_up w (Suc m) (ro_app s')"
proof -
  have st: "starting w N c old S (Suc m) (ro_app s)" using assms(1) by (simp add: going_def)
  then obtain x where x: "objects (ro_app s) (new_id w m) = Some x" by (auto simp: starting_def)
  obtain es b where sp: "spawn sp name (new_id w m) (ro_app s) = (Inr (), es, b)" and up: "state_of b (new_id w m) = Healthy"
    using spawn_success [OF _ x, of sp name] assms(3) st by (auto simp: arrived_def starting_def)
  have "state_of b (new_id w k) = Healthy" if "k < m" for k
  proof -
    have "m < N" using st by (simp add: starting_def)
    then have "new_id w k \<noteq> new_id w m" by (rule starting_inj [OF st that])
    then have "objects b (new_id w k) = objects (ro_app s) (new_id w k)" using spawn_frame [OF sp] by (simp add: only_def)
    then show ?thesis using assms(2) that by (simp add: all_up_def state_of_def)
  qed
  then show ?thesis using up
    by (auto simp: start_and_wait_healthy_def sp wait_for_healthy.simps all_up_def less_Suc_eq)
qed

lemma all_up_batch:
  assumes "going w N c old S H a0 m s" "all_up w m (ro_app s)" "calm H w" "m + n \<le> N"
    "\<forall>k<N. spawn_ok (fst (start_plan w k)) c" "set batch \<subseteq> set (new_ids w m)"
  shows "\<exists>batch' s'. start_batch w name n batch (new_ids w m) s = (Inr (batch', new_ids w (m + n)), s') \<and> all_up w (m + n) (ro_app s')
    \<and> set batch' \<subseteq> set (new_ids w (m + n))"
  using assms(1,2,4,6)
proof (induction n arbitrary: m batch s)
  case 0
  then show ?case by simp
next
  case (Suc n)
  obtain sp i token now where p: "start_plan w m = (sp, i, token, now)" by (metis prod.exhaust)
  let ?s1 = "act (\<lambda>a. suppress_instance_routing (new_id w m) (allocate_instance (new_id w m) token now a)) s"
  have g1: "going w N c old S H a0 (Suc m) ?s1" using Suc.prems(1,3) by (intro going_next) simp_all
  have "state_of (ro_app ?s1) (new_id w k) = Healthy" if "k < m" for k
  proof -
    have "m < N" using Suc.prems(3) by simp
    then have "new_id w k \<noteq> new_id w m" using Suc.prems(1) starting_inj that by (simp add: going_def) blast
    then show ?thesis using Suc.prems(2) that
      by (simp add: all_up_def act_def state_of_def suppress_instance_routing_def allocate_instance_def remove_healthy_instance_def)
  qed
  then have u1: "all_up w m (ro_app ?s1)" by (simp add: all_up_def)
  have "spawn_ok sp c" using assms(5) [rule_format, of m] Suc.prems(3) p by simp
  from all_up_start [OF g1 u1 this, of "healthy_polls w m" name]
  obtain s2 where q: "start_and_wait_healthy sp (healthy_polls w m) name (new_id w m) ?s1 = (Inr (), s2)"
    and u2: "all_up w (Suc m) (ro_app s2)" by blast
  have g2: "going w N c old S H a0 (Suc m) s2" using going_start [OF g1 _ _ q] assms(3) by (simp add: calm_def)
  have "set (batch @ [new_id w m]) \<subseteq> set (new_ids w (Suc m))" using Suc.prems(4) by auto
  from Suc.IH [OF g2 u2 _ this] obtain batch' s' where
    "start_batch w name n (batch @ [new_id w m]) (new_ids w (Suc m)) s2 = (Inr (batch', new_ids w (Suc m + n)), s')"
    "all_up w (Suc m + n) (ro_app s')" "set batch' \<subseteq> set (new_ids w (Suc m + n))"
    using Suc.prems(3) by auto
  then show ?case using q by (simp add: p Let_def)
qed


lemma all_up_wait:
  assumes "all_up w m (ro_app s)" "list_all (calm_ops H) polls" "H \<inter> set (new_ids w m) = {}" "set is \<subseteq> set (new_ids w m)"
  shows "\<exists>s'. wait_for_stable_health cfg polls is s = (Inr (), s') \<and> all_up w m (ro_app s')"
  using all_up_stable [OF assms] assms(1) by (simp add: wait_for_stable_health_def)

lemma all_up_batches:
  fixes T B :: "32 word"
  assumes B: "0 < unat B" "unat T + unat B < 2 ^ 32" "batch_size cfg = B" and w: "calm H w" "H \<inter> set (new_ids w (unat T)) = {}"
    and sp: "\<forall>k<unat T. spawn_ok (fst (start_plan w k)) c" and q: "q mod unat B = 0 \<or> q = unat T" "q \<le> unat T"
    and g: "going w (unat T) c old S H a0 q s" and up: "all_up w q (ro_app s)"
  shows "\<exists>s'. start_batches cfg w name T (map word_of_nat (filter (\<lambda>k. k mod unat B = 0) [q..<unat T])) (new_ids w q) s
      = (Inr (new_ids w (unat T)), s') \<and> all_up w (unat T) (ro_app s')"
  using q g up
proof (induction "unat T - q" arbitrary: q s rule: less_induct)
  case less
  show ?case
  proof (cases "q < unat T")
    case False
    then show ?thesis using less.prems by auto
  next
    case True
    let ?e = "min (q + unat B) (unat T)"
    have qm: "q mod unat B = 0" using less.prems(1) True by auto
    have u: "unat (word_of_nat q :: 32 word) = q" using True B(2) by (simp add: unat_of_nat)
    then have "unat ((word_of_nat q :: 32 word) + B) = q + unat B" using True B(2) by (simp add: unat_word_ariths)
    then have e: "unat (min (word_of_nat q + B) T) = ?e" by (auto simp: min_def word_le_nat_alt)
    have eq: "q + (?e - q) = ?e" using True by simp
    have "?e \<le> unat T" by simp
    from all_up_batch [OF less.prems(3,4) w(1) _ sp, of "?e - q" "[]" name, unfolded eq, OF this]
    obtain batch s1 where b: "start_batch w name (?e - q) [] (new_ids w q) s = (Inr (batch, new_ids w ?e), s1)"
      and u1: "all_up w ?e (ro_app s1)" "set batch \<subseteq> set (new_ids w ?e)" by auto
    have g1: "going w (unat T) c old S H a0 ?e s1"
      using start_batch_going [OF less.prems(3) w(1) _ b, unfolded eq] by simp
    have H: "H \<inter> set (new_ids w ?e) = {}" using w(2) by auto
    obtain s2 where st: "wait_for_stable_health cfg (stable_polls w ?e) batch s1 = (Inr (), s2)" and u2: "all_up w ?e (ro_app s2)"
      using all_up_wait [OF u1(1) _ H u1(2), of "stable_polls w ?e" cfg] w(1) by (auto simp: calm_def)
    have g2: "going w (unat T) c old S H a0 ?e s2" using going_stable [OF g1 _ st] w(1) by (simp add: calm_def)
    have "?e mod unat B = 0 \<or> ?e = unat T" using qm by (auto simp: min_def)
    moreover have "unat T - ?e < unat T - q" using True B(1) by arith
    ultimately obtain s' where "start_batches cfg w name T (map word_of_nat (filter (\<lambda>k. k mod unat B = 0) [?e..<unat T])) (new_ids w ?e) s2
        = (Inr (new_ids w (unat T)), s')" "all_up w (unat T) (ro_app s')"
      using less.hyps [of ?e s2] g2 u2 by auto
    then show ?thesis using b st by (simp add: step_by_Cons [OF B(1) qm True] Let_def u e B(3))
  qed
qed

section \<open>An update\<close>

definition quiet_world :: world where
  "quiet_world = \<lparr>start_plan = (\<lambda>k. (\<lparr>host_port = None, child_id = Some (Some 9), ready_answer = Ready_port ''p9'', cleanup = all_stop\<rparr>,
       CHR ''n'' # replicate k CHR ''x'', ''t'', 5)),
     healthy_polls = (\<lambda>k. []), stable_polls = (\<lambda>k. [[Set_health ''a'' Unhealthy]]), cutover_ops = [],
     drain_polls = (\<lambda>i. []), stop_plan = (\<lambda>i. all_stop)\<rparr>"

definition ex_roll_app :: app where
  "ex_roll_app = fold app_exec (take 5 ex_app_ops) (app_new (ex_config 1))"

lemma ex_roll_app_ready: "update_ready rolling_update_config_default quiet_world 2 ex_roll_app"
proof -
  have "all_allowed (take 5 ex_app_ops) (app_new (ex_config 1))" by code_simp
  then have "routing_ok ex_roll_app" unfolding ex_roll_app_def by (intro app_run_ok [OF app_run_fold app_new_ok])
  moreover have dom: "objects ex_roll_app i = None" if "i \<noteq> ''a''" for i
    using that by (simp add: ex_roll_app_def ex_app_ops_def app_new_def allocate_instance_def upd_object_def
        set_instance_state_def set_instance_health_state_def add_healthy_instance_def Let_def)
  moreover have ids: "instances ex_roll_app = [''a'']" "routing_suppressed ex_roll_app = []" by code_simp+
  moreover have "settled ex_roll_app" unfolding settled_def ids
  proof (intro allI impI)
    fix i assume "objects ex_roll_app i \<noteq> None"
    then have "i = ''a''" using dom [of i] by (cases "i = ''a''") simp_all
    then show "i \<in> set [''a''] \<or> retired ex_roll_app i" by simp
  qed
  moreover have "inj_on (new_id quiet_world) {..<unat (2 :: 32 word)}" by (auto simp: inj_on_def quiet_world_def)
  moreover have "new_id quiet_world k \<noteq> ''a''" for k by (simp add: quiet_world_def)
  ultimately show ?thesis by (simp add: update_ready_def rolling_update_config_default_def)
qed

lemma quiet_world_calm: "calm {''a''} quiet_world"
  by (simp add: calm_def quiet_world_def calm_ops_def env_op_def)


section \<open>Properties\<close>





text \<open>C17. A rolling update succeeds when it can: if every new process comes up and no health check reports on the
  new instances while the update runs, the update returns success, whatever happens to the old ones.\<close>

theorem rollout_succeeds:
  assumes ready: "update_ready cfg w target a" and w: "calm H w" "H \<inter> set (new_ids w (unat target)) = {}"
    and sp: "\<forall>k<unat target. spawn_ok (fst (start_plan w k)) (apply_internal_defaults c)"
  shows "\<exists>r s. update cfg w name c target a = Some (r, s) \<and> success r"
proof -
  let ?s0 = "\<lparr>ro_app = update_config c a, ro_log = []\<rparr>"
  have B: "0 < unat (batch_size cfg)" "unat target + unat (batch_size cfg) < 2 ^ 32" "batch_size cfg \<noteq> 0"
    using ready by (simp_all add: update_ready_def unat_gt_0)
  have "\<exists>s'. start_batches cfg w name target (map word_of_nat (filter (\<lambda>k. k mod unat (batch_size cfg) = 0) [0..<unat target])) (new_ids w 0) ?s0
      = (Inr (new_ids w (unat target)), s') \<and> all_up w (unat target) (ro_app s')"
    by (rule all_up_batches [OF B(1,2) refl w sp _ _ update_going [OF ready]]) (simp_all add: all_up_def)
  then obtain s1 where s1: "start_batches cfg w name target (batch_starts target (batch_size cfg)) [] ?s0 = (Inr (new_ids w (unat target)), s1)"
    and up: "all_up w (unat target) (ro_app s1)" by (auto simp: batch_starts_def)
  have "all_up w (unat target) (ro_app (pause (cutover_ops w) s1))" using all_up_pause [OF up _ w(2)] w(1) by (simp add: calm_def)
  then have "find (\<lambda>i. state_of (ro_app (pause (cutover_ops w) s1)) i \<noteq> Healthy) (new_ids w (unat target)) = None"
    by (auto simp: find_None_iff all_up_def)
  then show ?thesis using s1 B(3) by (simp add: update_def Let_def enable_rollout_routing_def)
qed


theorem rollout_succeeds_witness:
  "\<exists>r s. update rolling_update_config_default quiet_world ''web'' (ex_config 2) 2 ex_roll_app = Some (r, s) \<and> success r"
proof -
  have H: "{''a''} \<inter> set (new_ids quiet_world (unat (2 :: 32 word))) = {}" by (auto simp: quiet_world_def)
  have "spawn_ok (fst (start_plan quiet_world k)) (apply_internal_defaults (ex_config 2))" for k
    by (simp add: quiet_world_def spawn_ok_def apply_internal_defaults_def ex_config_def app_config_default_def)
  then have "\<forall>k<unat (2 :: 32 word). spawn_ok (fst (start_plan quiet_world k)) (apply_internal_defaults (ex_config 2))" by blast
  then show ?thesis by (rule rollout_succeeds [OF ex_roll_app_ready quiet_world_calm H])
qed

end
