(* ===== verification/Channel_Cursor.thy ===== *)
theory Channel_Cursor
  imports Decimal Sql_Table
begin

text \<open>
  Data of the channel library (\<^verbatim>\<open>tako-channels/src/types.rs\<close>, \<^verbatim>\<open>mesh.rs\<close>), replay cursors
  (\<^verbatim>\<open>cursor.rs\<close>) and where requests carry them (\<^verbatim>\<open>routing.rs\<close>).

  The packages \<^verbatim>\<open>base64\<close>, \<^verbatim>\<open>openssl\<close>, \<^verbatim>\<open>serde_json\<close> and \<^verbatim>\<open>percent_encoding\<close> are the parameter
  \<open>channel_lib\<close>.  What the code relies on is \<open>lib_ok\<close>: decoding gives back what was encoded,
  the encoded alphabet has no dot, a digest has 32 bytes, and a JSON value is read back from
  its text.
\<close>

section \<open>Parameters\<close>

type_synonym bytes = "8 word list"

record 'v channel_lib =
  b64_encode :: "bytes \<Rightarrow> string"
  b64_decode :: "string \<Rightarrow> bytes option"
  sha256 :: "string \<Rightarrow> bytes"
  json_text :: "'v \<Rightarrow> string"
  json_value :: "string \<Rightarrow> 'v option"
  percent_decode_utf8 :: "string \<Rightarrow> string option"

definition lib_ok :: "'v channel_lib \<Rightarrow> bool" where
  "lib_ok lib =
     ((\<forall>b. b64_decode lib (b64_encode lib b) = Some b) \<and> (\<forall>b. CHR ''.'' \<notin> set (b64_encode lib b))
      \<and> (\<forall>s. length (sha256 lib s) = 32) \<and> (\<forall>v. json_value lib (json_text lib v) = Some v))"

section \<open>Messages, events and errors\<close>

datatype channel_error =
    InvalidPath
  | Unsupported
  | Unauthorized
  | Forbidden
  | NotDefined
  | StaleCursor
  | BadRequest string
  | AuthUnavailable
  | Storage string

record 'v publish_payload =
  pl_type :: string
  pl_data :: 'v

record event_id =
  ei_origin :: string
  ei_sequence :: int

record 'v channel_message =
  m_id :: string
  m_event_id :: "event_id option"
  m_channel :: string
  m_type :: string
  m_data :: 'v

record 'v channel_event =
  ev_id :: event_id
  ev_channel :: string
  ev_payload :: "'v publish_payload"
  ev_ephemeral :: bool

text \<open>The answer of the app's authorisation, with the lifecycle of the channel.\<close>

datatype channel_transport = Ws

record auth_response =
  au_ok :: bool
  au_subject :: "string option"
  au_transport :: "channel_transport option"
  au_ephemeral :: bool
  au_replay_window_ms :: "64 word"
  au_inactivity_ttl_ms :: "64 word"
  au_keepalive_interval_ms :: "64 word"
  au_max_connection_lifetime_ms :: "64 word"

section \<open>Replay cursors\<close>

record replay_cursor =
  c_scope :: "(bytes \<times> bytes) option"
  c_position :: int

definition cursor_sqlite :: "'v channel_lib \<Rightarrow> bytes \<Rightarrow> string \<Rightarrow> int \<Rightarrow> replay_cursor" where
  "cursor_sqlite lib epoch channel position =
     \<lparr>c_scope = Some (epoch, take 16 (sha256 lib channel)), c_position = position\<rparr>"

definition cursor_postgres :: "int \<Rightarrow> replay_cursor" where
  "cursor_postgres position = \<lparr>c_scope = None, c_position = position\<rparr>"

definition pg_position :: "replay_cursor \<Rightarrow> channel_error + int" where
  "pg_position c = (if c_scope c \<noteq> None then Inl StaleCursor else Inr (c_position c))"

definition cursor_to_string :: "'v channel_lib \<Rightarrow> replay_cursor \<Rightarrow> string" where
  "cursor_to_string lib c = (case c_scope c of
     Some (epoch, stream) \<Rightarrow>
       ''s1.'' @ b64_encode lib epoch @ ''.'' @ b64_encode lib stream @ ''.'' @ show_i64 (c_position c)
   | None \<Rightarrow> show_i64 (c_position c))"

text \<open>\<^verbatim>\<open>str::split\<close> on a character.\<close>

fun str_split :: "char \<Rightarrow> string \<Rightarrow> string list" where
  "str_split c [] = [[]]"
| "str_split c (x # xs) =
     (if x = c then [] # str_split c xs
      else case str_split c xs of [] \<Rightarrow> [[x]] | y # ys \<Rightarrow> (x # y) # ys)"

definition invalid_cursor :: channel_error where
  "invalid_cursor = BadRequest ''invalid replay cursor''"

text \<open>One dot-separated component: sixteen bytes.\<close>

definition cursor_component :: "'v channel_lib \<Rightarrow> string \<Rightarrow> bytes option" where
  "cursor_component lib part = (case b64_decode lib part of
     Some b \<Rightarrow> if length b = 16 then Some b else None
   | None \<Rightarrow> None)"

definition cursor_from_str :: "'v channel_lib \<Rightarrow> string \<Rightarrow> channel_error + replay_cursor" where
  "cursor_from_str lib value = (case strip_prefix value ''s1.'' of
     Some rest \<Rightarrow> (case str_split CHR ''.'' rest of
         e # st # p # others \<Rightarrow>
           (case (cursor_component lib e, cursor_component lib st, parse_i64 p) of
              (Some epoch, Some stream, Some position) \<Rightarrow>
                if position < 0 \<or> others \<noteq> [] then Inl invalid_cursor
                else Inr \<lparr>c_scope = Some (epoch, stream), c_position = position\<rparr>
            | _ \<Rightarrow> Inl invalid_cursor)
       | _ \<Rightarrow> Inl invalid_cursor)
   | None \<Rightarrow> (case parse_i64 value of
         Some position \<Rightarrow>
           if position < 0 then Inl invalid_cursor else Inr (cursor_postgres position)
       | None \<Rightarrow> Inl invalid_cursor))"

text \<open>The cursors the Rust type can hold and a store hands out: arrays of sixteen bytes and a
  position that is a message id or zero.\<close>

definition cursor_ok :: "replay_cursor \<Rightarrow> bool" where
  "cursor_ok c =
     (0 \<le> c_position c \<and> c_position c \<le> i64_max
      \<and> (case c_scope c of None \<Rightarrow> True | Some (e, s) \<Rightarrow> length e = 16 \<and> length s = 16))"

section \<open>Printing and parsing cursors\<close>

lemma str_split_none: "c \<notin> set a \<Longrightarrow> str_split c a = [a]"
  by (induction a) auto

lemma str_split_append: "c \<notin> set a \<Longrightarrow> str_split c (a @ c # b) = a # str_split c b"
  by (induction a) auto

lemma show_i64_no_dot: "0 \<le> i \<Longrightarrow> CHR ''.'' \<notin> set (show_i64 i)"
  using show_i64_digits [of i] by (auto simp: list.pred_set is_digit_def)

lemma show_i64_no_prefix:
  assumes "0 \<le> i"
  shows "strip_prefix (show_i64 i) ''s1.'' = None"
proof -
  have "CHR ''s'' \<notin> set (show_i64 i)"
    using show_i64_digits [OF assms] by (auto simp: list.pred_set is_digit_def)
  then show ?thesis by (auto simp: strip_prefix_None)
qed

lemma parse_show_position:
  "0 \<le> i \<Longrightarrow> i \<le> i64_max \<Longrightarrow> parse_i64 (show_i64 i) = Some i"
  by (rule parse_show_i64) (auto simp: i64_min_def)

lemma cursor_parse_show:
  assumes lib: "lib_ok lib" and c: "cursor_ok c"
  shows "cursor_from_str lib (cursor_to_string lib c) = Inr c"
proof (cases "c_scope c")
  case None
  then show ?thesis
    using c by (simp add: cursor_ok_def cursor_to_string_def cursor_from_str_def
        show_i64_no_prefix parse_show_position cursor_postgres_def)
next
  case (Some sc)
  obtain e s where sc: "sc = (e, s)" by (cases sc)
  let ?rest = "b64_encode lib e @ ''.'' @ b64_encode lib s @ ''.'' @ show_i64 (c_position c)"
  have "strip_prefix (''s1.'' @ ?rest) ''s1.'' = Some ?rest" by (simp only: strip_prefix_Some)
  moreover have "str_split CHR ''.'' ?rest = [b64_encode lib e, b64_encode lib s, show_i64 (c_position c)]"
    using lib c by (simp add: lib_ok_def cursor_ok_def str_split_append str_split_none show_i64_no_dot)
  ultimately have "cursor_from_str lib (cursor_to_string lib c) =
      Inr \<lparr>c_scope = c_scope c, c_position = c_position c\<rparr>"
    using lib c by (simp add: Some sc cursor_to_string_def cursor_from_str_def cursor_component_def
        lib_ok_def cursor_ok_def parse_show_position)
  then show ?thesis by simp
qed

lemma parse_i64_range: "parse_i64 s = Some v \<Longrightarrow> i64_min \<le> v \<and> v \<le> i64_max"
  by (auto simp: parse_i64_def Let_def split: option.splits if_splits)

text \<open>Whatever text a client sends, an accepted cursor is one the type can hold.\<close>

lemma cursor_from_str_ok:
  assumes "cursor_from_str lib v = Inr c"
  shows "cursor_ok c"
  using assms
  by (auto simp: cursor_from_str_def cursor_component_def cursor_postgres_def cursor_ok_def
      dest: parse_i64_range split: option.splits list.splits if_splits)

end
