(* ===== verification/Channel_Sqlite.thy ===== *)
theory Channel_Sqlite
  imports Channel_Cursor "HOL-Library.Char_ord" "HOL-Library.List_Lexorder"
begin

text \<open>
  The SQLite store of channel messages (\<^verbatim>\<open>tako-channels/src/store/sqlite.rs\<close>, with the
  presence table of \<^verbatim>\<open>store/presence.rs\<close>).  A database is a record of its tables; the
  triggers the schema declares on inserting and deleting messages are functions the
  statements apply to every row they touch.  One transaction is one function: an error is the
  left value and leaves the database as it was.  The clock \<open>now\<close> and the bytes \<open>random\<close>
  of the generator are arguments, and so is \<open>self_epoch\<close>, the epoch a handle has read when
  it was opened.  \<^verbatim>\<open>event_json\<close> and \<^verbatim>\<open>limits_json\<close> hold the values the code serialises
  into them.  Vacuuming and checkpoints do not change rows.
\<close>

section \<open>Results\<close>

definition and_then :: "'e + 'a \<Rightarrow> ('a \<Rightarrow> 'e + 'b) \<Rightarrow> 'e + 'b" where
  "and_then r f = (case r of Inl e \<Rightarrow> Inl e | Inr a \<Rightarrow> f a)"

fun collect_results :: "('e + 'a) list \<Rightarrow> 'e + 'a list" where
  "collect_results [] = Inr []"
| "collect_results (r # rs) = and_then r (\<lambda>a. and_then (collect_results rs) (\<lambda>as. Inr (a # as)))"

section \<open>Limits\<close>

record replay_limits =
  max_messages_per_stream :: "64 word"
  max_bytes_per_stream :: "64 word"
  max_messages :: "64 word"
  max_bytes :: "64 word"
  max_age_ms :: "64 word"

definition default_limits :: replay_limits where
  "default_limits = \<lparr>max_messages_per_stream = 10000, max_bytes_per_stream = 16 * 1024 * 1024,
     max_messages = 100000, max_bytes = 64 * 1024 * 1024, max_age_ms = 24 * 60 * 60 * 1000\<rparr>"

definition validate_limits :: "replay_limits \<Rightarrow> channel_error + replay_limits" where
  "validate_limits l =
     (if list_ex (\<lambda>v. v = 0 \<or> uint v > i64_max)
           [max_messages_per_stream l, max_bytes_per_stream l, max_messages l, max_bytes l]
         \<or> uint (max_age_ms l) > i64_max
      then Inl (BadRequest ''replay count/byte limits must be positive SQLite integers'')
      else Inr l)"

section \<open>Tables\<close>

record message_row =
  mr_id :: int
  mr_channel :: string
  mr_type :: string
  mr_data_json :: string
  mr_created_at :: int

record metadata_row =
  md_channel :: string
  md_replay_window_ms :: int
  md_inactivity_ttl_ms :: int
  md_keepalive_interval_ms :: int
  md_max_connection_lifetime_ms :: int
  md_last_activity :: int
  md_latest_message_id :: int
  md_message_count :: int
  md_message_bytes :: int

record presence_row =
  pr_channel :: string
  pr_connection_id :: string
  pr_member_json :: string
  pr_expires_at :: int

text \<open>\<open>cd_last_rowid\<close> is the largest id the \<^verbatim>\<open>AUTOINCREMENT\<close> column has given out.\<close>

record channel_db =
  cd_messages :: "message_row list"
  cd_last_rowid :: int
  cd_metadata :: "metadata_row list"
  cd_epoch :: bytes
  cd_limits :: replay_limits
  cd_message_count :: int
  cd_message_bytes :: int
  cd_event_sequence :: int
  cd_message_events :: "(int \<times> event_id) list"
  cd_remote_origins :: "(string \<times> int) list"
  cd_replay_floor :: "(string \<times> int) list"
  cd_replay_epoch :: bytes
  cd_presence :: "presence_row list"

definition row_bytes :: "message_row \<Rightarrow> int" where
  "row_bytes r = int (length (mr_channel r) + length (mr_type r) + length (mr_data_json r))"

section \<open>Triggers\<close>

definition count_stream :: "string \<Rightarrow> int \<Rightarrow> int \<Rightarrow> metadata_row list \<Rightarrow> metadata_row list" where
  "count_stream channel n b = sql_update (\<lambda>md. md_channel md = channel)
     (\<lambda>md. md\<lparr>md_message_count := md_message_count md + n, md_message_bytes := md_message_bytes md + b\<rparr>)"

definition message_counted :: "message_row \<Rightarrow> channel_db \<Rightarrow> channel_db" where
  "message_counted r s = s\<lparr>
     cd_message_count := cd_message_count s + 1,
     cd_message_bytes := cd_message_bytes s + row_bytes r,
     cd_metadata := count_stream (mr_channel r) 1 (row_bytes r) (cd_metadata s)\<rparr>"

definition message_uncounted :: "message_row \<Rightarrow> channel_db \<Rightarrow> channel_db" where
  "message_uncounted r s = s\<lparr>
     cd_message_count := cd_message_count s - 1,
     cd_message_bytes := cd_message_bytes s - row_bytes r,
     cd_metadata := count_stream (mr_channel r) (- 1) (- row_bytes r) (cd_metadata s)\<rparr>"

definition event_deleted :: "message_row \<Rightarrow> channel_db \<Rightarrow> channel_db" where
  "event_deleted r s = s\<lparr>cd_message_events := sql_delete (\<lambda>e. fst e = mr_id r) (cd_message_events s)\<rparr>"

definition replay_deleted :: "message_row \<Rightarrow> channel_db \<Rightarrow> channel_db" where
  "replay_deleted r s = s\<lparr>cd_replay_floor :=
     sql_upsert fst (\<lambda>(c, f). (c, max f (mr_id r))) (mr_channel r, mr_id r) (cd_replay_floor s)\<rparr>"

definition after_delete :: "message_row \<Rightarrow> channel_db \<Rightarrow> channel_db" where
  "after_delete r s = message_uncounted r (replay_deleted r (event_deleted r s))"

text \<open>\<^verbatim>\<open>DELETE FROM channel_messages WHERE ..\<close> with the number of rows it deleted.\<close>

definition delete_messages :: "(message_row \<Rightarrow> bool) \<Rightarrow> channel_db \<Rightarrow> nat \<times> channel_db" where
  "delete_messages P s =
     (length (filter P (cd_messages s)),
      fold after_delete (filter P (cd_messages s)) (s\<lparr>cd_messages := sql_delete P (cd_messages s)\<rparr>))"

section \<open>Age\<close>

datatype age_cutoff = Everything | Before int

definition age_cutoff_of :: "replay_limits \<Rightarrow> (int \<times> int \<times> int) option \<Rightarrow> int \<Rightarrow> age_cutoff option" where
  "age_cutoff_of limits lifecycle now =
     (let cutoff = (if max_age_ms limits > 0 then Some (now - sint (max_age_ms limits)) else None)
      in case lifecycle of
           None \<Rightarrow> map_option Before cutoff
         | Some (replay_window_ms, inactivity_ttl_ms, last_activity) \<Rightarrow>
             if inactivity_ttl_ms > 0 \<and> last_activity < now - inactivity_ttl_ms then Some Everything
             else if replay_window_ms > 0
             then (let window = now - replay_window_ms
                   in Some (Before (case cutoff of None \<Rightarrow> window | Some c \<Rightarrow> max c window)))
             else map_option Before cutoff)"

definition lifecycle_of :: "metadata_row \<Rightarrow> int \<times> int \<times> int" where
  "lifecycle_of md = (md_replay_window_ms md, md_inactivity_ttl_ms md, md_last_activity md)"

definition stream_lifecycle :: "channel_db \<Rightarrow> string \<Rightarrow> (int \<times> int \<times> int) option" where
  "stream_lifecycle s channel = map_option lifecycle_of (sql_lookup md_channel channel (cd_metadata s))"

definition load_limits :: "channel_db \<Rightarrow> channel_error + replay_limits" where
  "load_limits s = validate_limits (cd_limits s)"

definition expired_floor :: "channel_db \<Rightarrow> replay_limits \<Rightarrow> string \<Rightarrow> int \<Rightarrow> int" where
  "expired_floor s limits channel now =
     (case age_cutoff_of limits (stream_lifecycle s channel) now of
        None \<Rightarrow> 0
      | Some Everything \<Rightarrow>
          max_or_zero (map mr_id (filter (\<lambda>r. mr_channel r = channel) (cd_messages s)))
      | Some (Before created) \<Rightarrow>
          max_or_zero (map mr_id
            (filter (\<lambda>r. mr_channel r = channel \<and> mr_created_at r < created) (cd_messages s))))"

definition prune_stream :: "replay_limits \<Rightarrow> int \<Rightarrow> metadata_row \<Rightarrow> nat \<times> channel_db \<Rightarrow> nat \<times> channel_db" where
  "prune_stream limits now md acc =
     (case age_cutoff_of limits (Some (lifecycle_of md)) now of
        None \<Rightarrow> acc
      | Some Everything \<Rightarrow>
          (let (n, s) = delete_messages (\<lambda>r. mr_channel r = md_channel md) (snd acc) in (fst acc + n, s))
      | Some (Before created) \<Rightarrow>
          (let (n, s) = delete_messages (\<lambda>r. mr_channel r = md_channel md \<and> mr_created_at r < created) (snd acc)
           in (fst acc + n, s)))"

definition prune_age :: "replay_limits \<Rightarrow> int \<Rightarrow> channel_db \<Rightarrow> nat \<times> channel_db" where
  "prune_age limits now s =
     fold (prune_stream limits now) (filter (\<lambda>md. md_message_count md > 0) (cd_metadata s)) (0, s)"

section \<open>Budgets\<close>

text \<open>The rows \<^verbatim>\<open>SELECT id .. ORDER BY id LIMIT n\<close> picks.\<close>

definition oldest_ids :: "(message_row \<Rightarrow> bool) \<Rightarrow> int \<Rightarrow> channel_db \<Rightarrow> int list" where
  "oldest_ids P n s = map mr_id (take (nat n) (sort_key mr_id (filter P (cd_messages s))))"

lemma length_fold_after_delete: "cd_messages (fold after_delete rs s) = cd_messages s"
  by (induction rs arbitrary: s)
     (simp_all add: after_delete_def message_uncounted_def replay_deleted_def event_deleted_def)

lemma delete_messages_messages [simp]:
  "cd_messages (snd (delete_messages P s)) = sql_delete P (cd_messages s)"
  by (simp add: delete_messages_def length_fold_after_delete)

lemma delete_messages_length:
  assumes "fst (delete_messages P s) \<noteq> 0"
  shows "length (cd_messages (snd (delete_messages P s))) < length (cd_messages s)"
proof -
  have "0 < length (filter P (cd_messages s))" using assms by (simp add: delete_messages_def)
  then show ?thesis
    using sum_length_filter_compl [of P "cd_messages s"] unfolding delete_messages_messages sql_delete_def
    by linarith
qed

function enforce_stream_budget :: "replay_limits \<Rightarrow> string \<Rightarrow> nat \<Rightarrow> channel_db \<Rightarrow> nat \<times> channel_db" where
  "enforce_stream_budget limits channel deleted s =
     (case sql_lookup md_channel channel (cd_metadata s) of
        None \<Rightarrow> (deleted, s)
      | Some md \<Rightarrow>
          (let excess = md_message_count md - sint (max_messages_per_stream limits)
           in if excess \<le> 0 \<and> md_message_bytes md \<le> sint (max_bytes_per_stream limits) then (deleted, s)
              else let ids = oldest_ids (\<lambda>r. mr_channel r = channel) (max excess 1) s;
                       res = delete_messages (\<lambda>r. mr_id r \<in> set ids) s
                   in if fst res = 0 then (deleted, snd res)
                      else enforce_stream_budget limits channel (deleted + fst res) (snd res)))"
  by pat_completeness auto
termination
  by (relation "measure (\<lambda>(_, _, _, s). length (cd_messages s))") (auto intro!: delete_messages_length simp del: delete_messages_messages)

function enforce_store_budget :: "replay_limits \<Rightarrow> nat \<Rightarrow> channel_db \<Rightarrow> nat \<times> channel_db" where
  "enforce_store_budget limits deleted s =
     (let excess = cd_message_count s - sint (max_messages limits)
      in if excess \<le> 0 \<and> cd_message_bytes s \<le> sint (max_bytes limits) then (deleted, s)
         else let ids = oldest_ids (\<lambda>r. True) (max excess 1) s;
                  res = delete_messages (\<lambda>r. mr_id r \<in> set ids) s
              in if fst res = 0 then (deleted, snd res)
                 else enforce_store_budget limits (deleted + fst res) (snd res))"
  by pat_completeness auto
termination
  by (relation "measure (\<lambda>(_, _, s). length (cd_messages s))") (auto intro!: delete_messages_length simp del: delete_messages_messages)

declare enforce_stream_budget.simps [simp del] enforce_store_budget.simps [simp del]

definition over_budget :: "replay_limits \<Rightarrow> metadata_row \<Rightarrow> bool" where
  "over_budget limits md =
     (md_message_count md > sint (max_messages_per_stream limits)
      \<or> md_message_bytes md > sint (max_bytes_per_stream limits))"

definition prune_replay :: "replay_limits \<Rightarrow> int \<Rightarrow> channel_db \<Rightarrow> nat \<times> channel_db" where
  "prune_replay limits now s =
     (let (deleted, s) = prune_age limits now s;
          (deleted, s) = fold (\<lambda>channel acc. enforce_stream_budget limits channel (fst acc) (snd acc))
            (map md_channel (filter (over_budget limits) (cd_metadata s))) (deleted, s)
      in enforce_store_budget limits deleted s)"

definition prune :: "int \<Rightarrow> channel_db \<Rightarrow> channel_error + channel_db" where
  "prune now s =
     (let s = s\<lparr>cd_presence := sql_delete (\<lambda>p. pr_expires_at p \<le> now) (cd_presence s)\<rparr>
      in and_then (load_limits s) (\<lambda>limits. Inr (snd (prune_replay limits now s))))"

section \<open>Appending\<close>

definition new_metadata :: "string \<Rightarrow> int \<Rightarrow> metadata_row" where
  "new_metadata channel now = \<lparr>md_channel = channel, md_replay_window_ms = 600000,
     md_inactivity_ttl_ms = 0, md_keepalive_interval_ms = 25000, md_max_connection_lifetime_ms = 7200000,
     md_last_activity = now, md_latest_message_id = 0, md_message_count = 0, md_message_bytes = 0\<rparr>"

definition insert_message :: "string \<Rightarrow> string \<Rightarrow> string \<Rightarrow> int \<Rightarrow> channel_db \<Rightarrow> channel_error + (int \<times> channel_db)" where
  "insert_message channel ty data_json now s =
     (if cd_last_rowid s = i64_max then Inl (Storage ''database or disk is full'')
      else let i = cd_last_rowid s + 1;
               r = \<lparr>mr_id = i, mr_channel = channel, mr_type = ty, mr_data_json = data_json, mr_created_at = now\<rparr>
           in Inr (i, message_counted r (s\<lparr>cd_messages := cd_messages s @ [r], cd_last_rowid := i\<rparr>)))"

definition append_event ::
  "'v channel_lib \<Rightarrow> bytes \<Rightarrow> int \<Rightarrow> 'v channel_event \<Rightarrow> channel_db \<Rightarrow> channel_error + ('v channel_message \<times> channel_db)" where
  "append_event lib epoch now event s =
     (let message = \<lparr>m_id = '''', m_event_id = Some (ev_id event), m_channel = ev_channel event,
                     m_type = pl_type (ev_payload event), m_data = pl_data (ev_payload event)\<rparr>
      in if ev_ephemeral event then Inr (message, s)
         else
           let data_json = json_text lib (pl_data (ev_payload event));
               nbytes = int (length (ev_channel event) + length (pl_type (ev_payload event)) + length data_json)
           in and_then (load_limits s) (\<lambda>limits.
                if nbytes > uint (max_bytes limits) \<or> nbytes > uint (max_bytes_per_stream limits)
                then Inl (BadRequest ''message exceeds SQLite replay byte budget'')
                else
                  let s = s\<lparr>cd_metadata := sql_upsert md_channel (\<lambda>md. md\<lparr>md_last_activity := now\<rparr>)
                              (new_metadata (ev_channel event) now) (cd_metadata s)\<rparr>
                  in and_then (insert_message (ev_channel event) (pl_type (ev_payload event)) data_json now s)
                     (\<lambda>(i, s).
                       let s = s\<lparr>cd_message_events := cd_message_events s @ [(i, ev_id event)]\<rparr>;
                           s = s\<lparr>cd_metadata := sql_update (\<lambda>md. md_channel md = ev_channel event)
                                  (\<lambda>md. md\<lparr>md_latest_message_id := i\<rparr>) (cd_metadata s)\<rparr>;
                           s = snd (enforce_stream_budget limits (ev_channel event) 0 s);
                           s = snd (enforce_store_budget limits 0 s)
                       in Inr (message\<lparr>m_id := cursor_to_string lib (cursor_sqlite lib epoch (ev_channel event) i)\<rparr>, s))))"

definition publish ::
  "'v channel_lib \<Rightarrow> bytes \<Rightarrow> int \<Rightarrow> string \<Rightarrow> 'v publish_payload \<Rightarrow> bool \<Rightarrow> channel_db
     \<Rightarrow> channel_error + (('v channel_message \<times> 'v channel_event) \<times> channel_db)" where
  "publish lib self_epoch now channel payload ephemeral s =
     (if \<not> cd_event_sequence s < i64_max then Inl (Storage ''Query returned no rows'')
      else
        let sequence = cd_event_sequence s + 1;
            s = s\<lparr>cd_event_sequence := sequence\<rparr>;
            event = \<lparr>ev_id = \<lparr>ei_origin = b64_encode lib self_epoch, ei_sequence = sequence\<rparr>,
                     ev_channel = channel, ev_payload = payload, ev_ephemeral = ephemeral\<rparr>
        in and_then (append_event lib (cd_replay_epoch s) now event s)
           (\<lambda>(message, s). Inr ((message, event), s)))"

section \<open>Events of other servers\<close>

definition origin_char :: "char \<Rightarrow> bool" where
  "origin_char ch =
     (let n = of_char ch :: nat
      in 48 \<le> n \<and> n \<le> 57 \<or> 65 \<le> n \<and> n \<le> 90 \<or> 97 \<le> n \<and> n \<le> 122 \<or> ch = CHR ''-'' \<or> ch = CHR ''_'')"

definition valid_identity :: "event_id \<Rightarrow> bool" where
  "valid_identity e =
     (\<not> (ei_sequence e = 0 \<or> ei_sequence e > i64_max \<or> ei_origin e = [] \<or> length (ei_origin e) > 128
         \<or> \<not> list_all origin_char (ei_origin e)))"

definition rotate_replay_epoch :: "bytes \<Rightarrow> channel_db \<Rightarrow> channel_db" where
  "rotate_replay_epoch random s = s\<lparr>cd_replay_epoch := random\<rparr>"

text \<open>The result carries whether the gap signal was given, and the message if the event is new.\<close>

definition ingest_remote ::
  "'v channel_lib \<Rightarrow> bytes \<Rightarrow> int \<Rightarrow> bytes \<Rightarrow> 'v channel_event \<Rightarrow> channel_db
     \<Rightarrow> channel_error + (('v channel_message option \<times> bool) \<times> channel_db)" where
  "ingest_remote lib self_epoch now random event s =
     (if \<not> valid_identity (ev_id event) then Inl (BadRequest ''invalid channel event identity'')
      else if ei_origin (ev_id event) = b64_encode lib self_epoch then Inr ((None, False), s)
      else
        let previous = value_or_zero (cd_remote_origins s) (ei_origin (ev_id event));
            sequence = ei_sequence (ev_id event)
        in if sequence \<le> previous then Inr ((None, False), s)
           else
             let gap = (sequence > previous + 1);
                 s = (if gap then rotate_replay_epoch random s else s)
             in and_then (append_event lib (cd_replay_epoch s) now event s)
                (\<lambda>(message, s).
                  Inr ((Some message, gap),
                       s\<lparr>cd_remote_origins := sql_upsert fst (\<lambda>(c, _). (c, sequence))
                           (ei_origin (ev_id event), sequence) (cd_remote_origins s)\<rparr>)))"

definition invalidate_replay :: "bytes \<Rightarrow> channel_db \<Rightarrow> channel_db" where
  "invalidate_replay random s = rotate_replay_epoch random s"

section \<open>Reading\<close>

definition stream_head :: "channel_db \<Rightarrow> string \<Rightarrow> int" where
  "stream_head s channel = (case sql_lookup md_channel channel (cd_metadata s) of
     None \<Rightarrow> 0 | Some md \<Rightarrow> md_latest_message_id md)"

definition validate_cursor ::
  "'v channel_lib \<Rightarrow> channel_db \<Rightarrow> bytes \<Rightarrow> string \<Rightarrow> replay_cursor \<Rightarrow> channel_error + unit" where
  "validate_cursor lib s epoch channel cursor =
     (if c_scope cursor \<noteq> c_scope (cursor_sqlite lib epoch channel 0) then Inl StaleCursor
      else let floor = value_or_zero (cd_replay_floor s) channel
           in if c_position cursor < floor \<or> c_position cursor > stream_head s channel
              then Inl StaleCursor else Inr ())"

text \<open>The check both reads apply to a cursor the client gave.\<close>

definition check_cursor ::
  "'v channel_lib \<Rightarrow> channel_db \<Rightarrow> string \<Rightarrow> int \<Rightarrow> replay_cursor \<Rightarrow> channel_error + unit" where
  "check_cursor lib s channel floor cursor =
     and_then (validate_cursor lib s (cd_replay_epoch s) channel cursor)
       (\<lambda>_. if c_position cursor < floor then Inl StaleCursor else Inr ())"

definition message_of_row ::
  "'v channel_lib \<Rightarrow> channel_db \<Rightarrow> string \<Rightarrow> message_row \<Rightarrow> channel_error + 'v channel_message" where
  "message_of_row lib s channel r = (case json_value lib (mr_data_json r) of
     None \<Rightarrow> Inl (Storage ''invalid JSON'')
   | Some v \<Rightarrow> Inr \<lparr>m_id = cursor_to_string lib (cursor_sqlite lib (cd_replay_epoch s) channel (mr_id r)),
                   m_event_id = map_of (cd_message_events s) (mr_id r),
                   m_channel = mr_channel r, m_type = mr_type r, m_data = v\<rparr>)"

definition read_after ::
  "'v channel_lib \<Rightarrow> int \<Rightarrow> string \<Rightarrow> replay_cursor option \<Rightarrow> 32 word \<Rightarrow> channel_db
     \<Rightarrow> channel_error + 'v channel_message list" where
  "read_after lib now channel after limit s =
     and_then (load_limits s) (\<lambda>limits.
       let floor = expired_floor s limits channel now
       in and_then (case after of None \<Rightarrow> Inr () | Some cursor \<Rightarrow> check_cursor lib s channel floor cursor)
          (\<lambda>_.
            let from_id = max (case after of None \<Rightarrow> 0 | Some cursor \<Rightarrow> c_position cursor) floor;
                rows = take (unat limit)
                  (sort_key mr_id (filter (\<lambda>r. mr_channel r = channel \<and> from_id < mr_id r) (cd_messages s)))
            in collect_results (map (message_of_row lib s channel) rows)))"

definition replay_cursor_for ::
  "'v channel_lib \<Rightarrow> int \<Rightarrow> string \<Rightarrow> replay_cursor option \<Rightarrow> channel_db \<Rightarrow> channel_error + replay_cursor option" where
  "replay_cursor_for lib now channel requested s =
     and_then (load_limits s) (\<lambda>limits.
       let floor = expired_floor s limits channel now
       in case requested of
            Some cursor \<Rightarrow> and_then (check_cursor lib s channel floor cursor) (\<lambda>_. Inr (Some cursor))
          | None \<Rightarrow> Inr (Some (cursor_sqlite lib (cd_replay_epoch s) channel (stream_head s channel))))"

definition latest_ids :: "string list \<Rightarrow> channel_db \<Rightarrow> (string \<times> int) list" where
  "latest_ids channels s = map (\<lambda>md. (md_channel md, md_latest_message_id md))
     (filter (\<lambda>md. md_channel md \<in> set channels \<and> md_latest_message_id md > 0) (cd_metadata s))"

section \<open>Metadata, presence and opening\<close>

definition sync_channel :: "int \<Rightarrow> string \<Rightarrow> auth_response \<Rightarrow> channel_db \<Rightarrow> channel_db" where
  "sync_channel now channel auth s = s\<lparr>cd_metadata := sql_upsert md_channel
     (\<lambda>md. md\<lparr>md_replay_window_ms := sint (au_replay_window_ms auth),
              md_inactivity_ttl_ms := sint (au_inactivity_ttl_ms auth),
              md_keepalive_interval_ms := sint (au_keepalive_interval_ms auth),
              md_max_connection_lifetime_ms := sint (au_max_connection_lifetime_ms auth),
              md_last_activity := now\<rparr>)
     \<lparr>md_channel = channel, md_replay_window_ms = sint (au_replay_window_ms auth),
      md_inactivity_ttl_ms = sint (au_inactivity_ttl_ms auth),
      md_keepalive_interval_ms = sint (au_keepalive_interval_ms auth),
      md_max_connection_lifetime_ms = sint (au_max_connection_lifetime_ms auth), md_last_activity = now,
      md_latest_message_id = 0, md_message_count = 0, md_message_bytes = 0\<rparr>
     (cd_metadata s)\<rparr>"

definition stream_rows :: "channel_db \<Rightarrow> string \<Rightarrow> message_row list" where
  "stream_rows s channel = filter (\<lambda>r. mr_channel r = channel) (cd_messages s)"

definition ensure_budget_counters :: "channel_db \<Rightarrow> channel_db" where
  "ensure_budget_counters s = s\<lparr>
     cd_metadata := map (\<lambda>md. md\<lparr>md_message_count := int (length (stream_rows s (md_channel md))),
                                 md_message_bytes := sum_list (map row_bytes (stream_rows s (md_channel md)))\<rparr>)
                      (cd_metadata s),
     cd_message_count := int (length (cd_messages s)),
     cd_message_bytes := sum_list (map row_bytes (cd_messages s))\<rparr>"

definition new_database :: "bytes \<Rightarrow> channel_db" where
  "new_database random = \<lparr>cd_messages = [], cd_last_rowid = 0, cd_metadata = [], cd_epoch = random,
     cd_limits = default_limits, cd_message_count = 0, cd_message_bytes = 0, cd_event_sequence = 0,
     cd_message_events = [], cd_remote_origins = [], cd_replay_floor = [], cd_replay_epoch = random,
     cd_presence = []\<rparr>"

definition init_connection ::
  "replay_limits option \<Rightarrow> bytes \<Rightarrow> int \<Rightarrow> channel_db option \<Rightarrow> channel_error + (bytes \<times> channel_db)" where
  "init_connection limits random now file =
     (let s = (case file of None \<Rightarrow> new_database random
        | Some s \<Rightarrow> s\<lparr>cd_metadata := map (\<lambda>md. md\<lparr>md_latest_message_id := max (md_latest_message_id md)
                       (max_or_zero (map mr_id (stream_rows s (md_channel md))))\<rparr>) (cd_metadata s)\<rparr>);
          s = ensure_budget_counters s;
          s = (case limits of None \<Rightarrow> s | Some l \<Rightarrow> s\<lparr>cd_limits := l\<rparr>)
      in and_then (load_limits s) (\<lambda>l.
           let s = snd (prune_replay l now s) in Inr (cd_epoch s, s)))"

definition open_store ::
  "replay_limits option \<Rightarrow> bytes \<Rightarrow> int \<Rightarrow> channel_db option \<Rightarrow> channel_error + (bytes \<times> channel_db)" where
  "open_store limits random now file =
     (case limits of
        None \<Rightarrow> init_connection None random now file
      | Some l \<Rightarrow> and_then (validate_limits l) (\<lambda>l. init_connection (Some l) random now file))"

definition LEASE_MS :: int where
  "LEASE_MS = 45000"

text \<open>\<open>data\<close> is the serialised data of a member, \<open>encoded\<close> the serialised member.\<close>

definition update_presence :: "string \<Rightarrow> string \<Rightarrow> string \<Rightarrow> string \<Rightarrow> int \<Rightarrow> channel_db \<Rightarrow> channel_error + channel_db" where
  "update_presence channel connection_id data encoded now s =
     (if length data > 16384 then Inl (BadRequest ''Presence data must be at most 16 KiB'')
      else Inr (s\<lparr>cd_presence := sql_upsert (\<lambda>p. (pr_channel p, pr_connection_id p))
             (\<lambda>p. p\<lparr>pr_member_json := encoded, pr_expires_at := now + LEASE_MS\<rparr>)
             \<lparr>pr_channel = channel, pr_connection_id = connection_id, pr_member_json = encoded,
              pr_expires_at = now + LEASE_MS\<rparr> (cd_presence s)\<rparr>))"

definition presence_members :: "string \<Rightarrow> int \<Rightarrow> channel_db \<Rightarrow> presence_row list" where
  "presence_members channel now s =
     sort_key pr_connection_id
       (filter (\<lambda>p. pr_channel p = channel \<and> pr_expires_at p > now) (cd_presence s))"

definition remove_presence :: "string \<Rightarrow> string \<Rightarrow> channel_db \<Rightarrow> channel_db" where
  "remove_presence channel connection_id s = s\<lparr>cd_presence :=
     sql_delete (\<lambda>p. pr_channel p = channel \<and> pr_connection_id p = connection_id) (cd_presence s)\<rparr>"

section \<open>Sequencing\<close>

lemma and_then_simps [simp]: "and_then (Inl e) f = Inl e" "and_then (Inr a) f = f a"
  by (simp_all add: and_then_def)

lemma and_then_Inr: "and_then r f = Inr b \<longleftrightarrow> (\<exists>a. r = Inr a \<and> f a = Inr b)"
  by (cases r) (simp_all add: and_then_def)

lemma collect_results_Inr: "collect_results (map (\<lambda>x. Inr (f x)) xs) = Inr (map f xs)"
  by (induction xs) simp_all

end
