(* ===== verification/Channel_Replay.thy ===== *)
theory Channel_Replay
  imports Channel_Cursor
begin

text \<open>
  The contract of a channel store.  A log is everything ever published, with the position
  each message was given.  A store keeps some of it: \<open>replay_ok\<close> relates the positions it
  still has, the floor it keeps per channel and the head it reports to the log.  From the
  floor on nothing is missing, so a client whose cursor is not below it can be sent exactly
  what it has not seen.  Both stores are shown to keep \<open>replay_ok\<close>.
\<close>

type_synonym 'v log = "(int \<times> 'v channel_message) list"

definition in_stream :: "string \<Rightarrow> int \<times> 'v channel_message \<Rightarrow> bool" where
  "in_stream channel x = (m_channel (snd x) = channel)"

definition log_after :: "'v log \<Rightarrow> string \<Rightarrow> int \<Rightarrow> 'v log" where
  "log_after log channel pos = filter (\<lambda>x. in_stream channel x \<and> pos < fst x) log"

definition log_head :: "'v log \<Rightarrow> string \<Rightarrow> int" where
  "log_head log channel = max_or_zero (map fst (filter (in_stream channel) log))"

definition replay_ok :: "'v log \<Rightarrow> int set \<Rightarrow> (string \<Rightarrow> int) \<Rightarrow> (string \<Rightarrow> int) \<Rightarrow> bool" where
  "replay_ok log kept floor head =
     (sorted_wrt (<) (map fst log) \<and> (\<forall>x\<in>set log. 0 < fst x) \<and> kept \<subseteq> fst ` set log
      \<and> (\<forall>x\<in>set log. fst x \<in> kept \<or> fst x \<le> floor (m_channel (snd x)))
      \<and> (\<forall>c. floor c = 0 \<or> (\<exists>x\<in>set log. fst x = floor c \<and> in_stream c x \<and> fst x \<notin> kept))
      \<and> (\<forall>c. head c = log_head log c))"

lemma replay_ok_positions:
  assumes "replay_ok log kept floor head"
  shows "sorted_wrt (<) (map fst log)" "\<And>x. x \<in> set log \<Longrightarrow> 0 < fst x" "kept \<subseteq> fst ` set log"
    "\<And>c. head c = log_head log c" "\<And>x. x \<in> set log \<Longrightarrow> fst x \<notin> kept \<Longrightarrow> fst x \<le> floor (m_channel (snd x))"
    "\<And>c. floor c = 0 \<or> (\<exists>x\<in>set log. fst x = floor c \<and> in_stream c x \<and> fst x \<notin> kept)"
  using assms unfolding replay_ok_def by blast+

lemma replay_ok_Nil: "replay_ok [] {} (\<lambda>_. 0) (\<lambda>_. 0)"
  by (simp add: replay_ok_def log_head_def max_or_zero_def)

lemma replay_ok_floor_nonneg:
  assumes "replay_ok log kept floor head"
  shows "0 \<le> floor c"
  using replay_ok_positions(2,6) [OF assms] by (metis less_imp_le order_refl)

lemma log_unique:
  fixes log :: "'v log"
  assumes "sorted_wrt (<) (map fst log)" "x \<in> set log" "y \<in> set log" "fst x = fst y"
  shows "x = y"
  using sorted_lt_inj [OF assms(1)] assms(2-4) by (auto dest: inj_onD)

lemma log_head_nonneg: "(\<And>x. x \<in> set log \<Longrightarrow> 0 < fst x) \<Longrightarrow> 0 \<le> log_head log c"
  using max_or_zero_in [of "map fst (filter (in_stream c) log)"] by (fastforce simp: log_head_def)

text \<open>A message published: the new position is above all others.\<close>

lemma replay_ok_append:
  assumes ok: "replay_ok log kept floor head"
    and above: "\<And>x. x \<in> set log \<Longrightarrow> fst x < p" and p: "0 < p"
    and head': "\<And>c. head' c = (if c = m_channel m then p else head c)"
  shows "replay_ok (log @ [(p, m)]) (insert p kept) floor head'"
proof -
  note ok = replay_ok_positions [OF ok]
  have "log_head (log @ [(p, m)]) c = (if c = m_channel m then p else log_head log c)" for c
    using above p by (auto simp: log_head_def in_stream_def intro!: max_or_zero_snoc less_imp_le)
  moreover have "floor c = 0 \<or> (\<exists>x\<in>set log. fst x = floor c \<and> in_stream c x \<and> fst x \<notin> insert p kept)" for c
    using ok(6) [of c] above by blast
  moreover have "fst x \<in> insert p kept \<or> fst x \<le> floor (m_channel (snd x))" if "x \<in> set log" for x
    using ok(5) [OF that] by blast
  ultimately show ?thesis
    unfolding replay_ok_def using ok(1-4) above p by (auto simp: sorted_wrt_append head')
qed

text \<open>Messages retired: the floor rises to the greatest of them in each channel.\<close>

lemma replay_ok_delete:
  assumes ok: "replay_ok log kept floor head" and gone: "gone \<subseteq> kept"
    and up: "\<And>c. floor c \<le> floor' c"
    and over: "\<And>x. x \<in> set log \<Longrightarrow> fst x \<in> gone \<Longrightarrow> fst x \<le> floor' (m_channel (snd x))"
    and at: "\<And>c. floor' c = floor c \<or> (\<exists>x\<in>set log. fst x = floor' c \<and> in_stream c x \<and> fst x \<in> gone)"
  shows "replay_ok log (kept - gone) floor' head"
proof -
  note ok = replay_ok_positions [OF ok]
  have "fst x \<le> floor' (m_channel (snd x))" if "x \<in> set log" "fst x \<notin> kept - gone" for x
    using that ok(5) [of x] over [of x] up [of "m_channel (snd x)"] by fastforce
  moreover have "floor' c = 0 \<or> (\<exists>x\<in>set log. fst x = floor' c \<and> in_stream c x \<and> fst x \<notin> kept - gone)" for c
    using at [of c] ok(6) [of c] by fastforce
  ultimately show ?thesis
    unfolding replay_ok_def using ok(1-4) by blast
qed

text \<open>The floor is exact: a position is at or above it iff nothing published later is missing.\<close>

lemma replay_ok_window:
  assumes ok: "replay_ok log kept floor head" and pos: "0 \<le> pos"
  shows "floor c \<le> pos \<longleftrightarrow> (\<forall>x\<in>set (log_after log c pos). fst x \<in> kept)"
proof
  assume "floor c \<le> pos"
  then show "\<forall>x\<in>set (log_after log c pos). fst x \<in> kept"
    using replay_ok_positions(5) [OF ok] by (fastforce simp: log_after_def in_stream_def)
next
  assume all: "\<forall>x\<in>set (log_after log c pos). fst x \<in> kept"
  show "floor c \<le> pos"
  proof (rule ccontr)
    assume "\<not> floor c \<le> pos"
    then obtain x where "x \<in> set log" "fst x = floor c" "in_stream c x" "fst x \<notin> kept" "pos < fst x"
      using replay_ok_positions(6) [OF ok, of c] pos by auto
    then have "x \<in> set (log_after log c pos)" by (simp add: log_after_def)
    then show False using all \<open>fst x \<notin> kept\<close> by blast
  qed
qed

lemma log_after_unique:
  assumes "sorted_wrt (<) (map fst log)"
  shows "sorted_wrt (<) (map fst (log_after log c pos))"
  unfolding log_after_def by (rule sorted_lt_filter [OF assms])

text \<open>Reading on from the last message of a page gives the rest.\<close>

lemma log_after_take:
  assumes "sorted_wrt (<) (map fst log)" "take n (log_after log c pos) = page @ [x]"
  shows "log_after log c (fst x) = drop n (log_after log c pos)"
proof -
  define L where "L = log_after log c pos"
  have sorted: "sorted_wrt (<) (map fst L)" unfolding L_def by (rule log_after_unique [OF assms(1)])
  have split: "L = page @ [x] @ drop n L" using assms(2) L_def by (metis append_assoc append_take_drop_id)
  have "x \<in> set L" by (subst split) simp
  then have "pos < fst x" by (simp add: L_def log_after_def)
  have "log_after log c (fst x) = filter (\<lambda>y. fst x < fst y) L"
    unfolding L_def log_after_def filter_filter
    by (rule filter_cong) (use \<open>pos < fst x\<close> in auto)
  also have "\<dots> = drop n L"
  proof -
    have "sorted_wrt (<) (map fst (page @ [x] @ drop n L))" using sorted split by simp
    then have "\<forall>y\<in>set (page @ [x]). \<not> fst x < fst y" "\<forall>y\<in>set (drop n L). fst x < fst y"
      by (auto simp: sorted_wrt_append)
    then have "filter (\<lambda>y. fst x < fst y) (page @ [x] @ drop n L) = drop n L"
      by (auto simp: filter_empty_conv filter_id_conv)
    then show ?thesis by (metis split)
  qed
  finally show ?thesis by (simp add: L_def)
qed

text \<open>Two lists with the same keys.\<close>

lemma map_cong2:
  assumes "map f xs = map g ys" "\<And>x y. x \<in> set xs \<Longrightarrow> y \<in> set ys \<Longrightarrow> f x = g y \<Longrightarrow> F x = G y"
  shows "map F xs = map G ys"
  using assms
proof (induction xs arbitrary: ys)
  case (Cons x xs)
  then obtain y ys' where "ys = y # ys'" "f x = g y" "map f xs = map g ys'" by (cases ys) auto
  then show ?case using Cons.IH [of ys'] Cons.prems(2) by simp
qed simp

end
