(* ===== verification/Channel_Sqlite_Inv.thy ===== *)
theory Channel_Sqlite_Inv
  imports Channel_Sqlite Channel_Replay
begin

text \<open>
  What every state of the SQLite channel store satisfies.  All rows leave the message table
  through \<open>delete_messages\<close>: the relation \<open>deletes\<close> closes it under repetition, and the
  pruning and budget loops are instances of it.  \<open>db_ok\<close> says that ids ascend, that the
  counters are exact and that every message has its metadata and its event.
\<close>

section \<open>Limits\<close>

definition limits_ok :: "replay_limits \<Rightarrow> bool" where
  "limits_ok l = (validate_limits l = Inr l)"

lemma limits_okI: "validate_limits l = Inr l' \<Longrightarrow> l' = l \<and> limits_ok l"
  by (auto simp: limits_ok_def validate_limits_def split: if_splits)

lemma sint_i64:
  fixes v :: "64 word"
  assumes "uint v \<le> i64_max"
  shows "sint v = uint v"
  using assms order_trans [OF _ uint_ge_0 [of v], of "- (2 ^ 63)"]
  by (simp add: sint_uint signed_take_bit_int_eq_self i64_max_def)

lemma limits_ok_bounds:
  assumes "limits_ok l"
  shows "1 \<le> uint (max_messages_per_stream l)" "1 \<le> uint (max_bytes_per_stream l)"
    "1 \<le> uint (max_messages l)" "1 \<le> uint (max_bytes l)"
    "sint (max_messages_per_stream l) = uint (max_messages_per_stream l)"
    "sint (max_bytes_per_stream l) = uint (max_bytes_per_stream l)"
    "sint (max_messages l) = uint (max_messages l)" "sint (max_bytes l) = uint (max_bytes l)"
    "sint (max_age_ms l) = uint (max_age_ms l)"
proof -
  have pos: "1 \<le> uint v" if "v \<noteq> 0" for v :: "64 word"
    using that uint_ge_0 [of v] uint_0_iff [of v] by linarith
  show "1 \<le> uint (max_messages_per_stream l)" "1 \<le> uint (max_bytes_per_stream l)"
    "1 \<le> uint (max_messages l)" "1 \<le> uint (max_bytes l)"
    "sint (max_messages_per_stream l) = uint (max_messages_per_stream l)"
    "sint (max_bytes_per_stream l) = uint (max_bytes_per_stream l)"
    "sint (max_messages l) = uint (max_messages l)" "sint (max_bytes l) = uint (max_bytes l)"
    "sint (max_age_ms l) = uint (max_age_ms l)"
    using assms by (auto simp: limits_ok_def validate_limits_def not_less intro!: pos sint_i64 split: if_splits)
qed

section \<open>What deleting rows does\<close>

lemmas trigger_defs = after_delete_def message_uncounted_def replay_deleted_def event_deleted_def

definition channel_rows :: "string \<Rightarrow> message_row list \<Rightarrow> message_row list" where
  "channel_rows channel rs = filter (\<lambda>r. mr_channel r = channel) rs"

definition total_bytes :: "message_row list \<Rightarrow> int" where
  "total_bytes rs = sum_list (map row_bytes rs)"

lemma total_bytes_simps [simp]:
  "total_bytes [] = 0" "total_bytes (r # rs) = row_bytes r + total_bytes rs"
  "total_bytes (rs @ rs') = total_bytes rs + total_bytes rs'"
  by (simp_all add: total_bytes_def)

lemma row_bytes_nonneg: "0 \<le> row_bytes r"
  by (simp add: row_bytes_def)

lemma total_bytes_nonneg: "0 \<le> total_bytes rs"
  by (induction rs) (simp_all add: row_bytes_nonneg add_nonneg_nonneg)

lemma total_bytes_filter_split: "total_bytes (filter P rs) + total_bytes (filter (\<lambda>r. \<not> P r) rs) = total_bytes rs"
  by (induction rs) auto

lemma total_bytes_filter_le: "total_bytes (filter P rs) \<le> total_bytes rs"
  using total_bytes_filter_split [of P rs] total_bytes_nonneg [of "filter (\<lambda>r. \<not> P r) rs"] by linarith

lemma channel_rows_simps [simp]:
  "channel_rows channel [] = []"
  "channel_rows channel (r # rs) = (if mr_channel r = channel then r # channel_rows channel rs else channel_rows channel rs)"
  "channel_rows channel (rs @ rs') = channel_rows channel rs @ channel_rows channel rs'"
  by (simp_all add: channel_rows_def)

lemma channel_rows_filter: "channel_rows channel (filter P rs) = filter P (channel_rows channel rs)"
  by (simp add: channel_rows_def conj_commute)

lemma set_channel_rows [simp]: "set (channel_rows channel rs) = {r \<in> set rs. mr_channel r = channel}"
  by (auto simp: channel_rows_def)

lemma stream_rows_channel_rows: "stream_rows s channel = channel_rows channel (cd_messages s)"
  by (simp add: stream_rows_def channel_rows_def)

definition uncount :: "message_row list \<Rightarrow> metadata_row \<Rightarrow> metadata_row" where
  "uncount rs md = md\<lparr>
     md_message_count := md_message_count md - int (length (channel_rows (md_channel md) rs)),
     md_message_bytes := md_message_bytes md - total_bytes (channel_rows (md_channel md) rs)\<rparr>"

lemma uncount_simps [simp]:
  "md_channel (uncount rs md) = md_channel md"
  "md_replay_window_ms (uncount rs md) = md_replay_window_ms md"
  "md_inactivity_ttl_ms (uncount rs md) = md_inactivity_ttl_ms md"
  "md_last_activity (uncount rs md) = md_last_activity md"
  "md_latest_message_id (uncount rs md) = md_latest_message_id md"
  "md_message_count (uncount rs md) = md_message_count md - int (length (channel_rows (md_channel md) rs))"
  "md_message_bytes (uncount rs md) = md_message_bytes md - total_bytes (channel_rows (md_channel md) rs)"
  by (simp_all add: uncount_def)

lemma fold_after_delete_metadata:
  "cd_metadata (fold after_delete rs s) = map (uncount rs) (cd_metadata s)"
proof (induction rs arbitrary: s)
  case (Cons r rs)
  show ?case unfolding fold_Cons o_apply Cons
    by (auto simp: trigger_defs count_stream_def sql_update_def uncount_def)
qed (simp add: uncount_def map_idI)

lemma fold_after_delete_counts:
  "cd_message_count (fold after_delete rs s) = cd_message_count s - int (length rs)"
  "cd_message_bytes (fold after_delete rs s) = cd_message_bytes s - total_bytes rs"
  by (induction rs arbitrary: s) (simp_all add: trigger_defs)

lemma fold_after_delete_events:
  "cd_message_events (fold after_delete rs s) = filter (\<lambda>e. fst e \<notin> mr_id ` set rs) (cd_message_events s)"
proof (induction rs arbitrary: s)
  case (Cons r rs)
  show ?case unfolding fold_Cons o_apply Cons
    by (simp add: trigger_defs sql_delete_def conj_commute)
qed simp

lemma fold_after_delete_frame [simp]:
  "cd_last_rowid (fold after_delete rs s) = cd_last_rowid s"
  "cd_epoch (fold after_delete rs s) = cd_epoch s"
  "cd_limits (fold after_delete rs s) = cd_limits s"
  "cd_event_sequence (fold after_delete rs s) = cd_event_sequence s"
  "cd_remote_origins (fold after_delete rs s) = cd_remote_origins s"
  "cd_replay_epoch (fold after_delete rs s) = cd_replay_epoch s"
  "cd_presence (fold after_delete rs s) = cd_presence s"
  by (induction rs arbitrary: s) (simp_all add: trigger_defs)

lemma unique_floor_upsert:
  "unique_key fst t \<Longrightarrow> unique_key fst (sql_upsert fst (\<lambda>(c, f). (c, g c f)) e t)"
  by (rule unique_upsert) auto

lemma fold_after_delete_floor_unique:
  "unique_key fst (cd_replay_floor s) \<Longrightarrow> unique_key fst (cd_replay_floor (fold after_delete rs s))"
  by (induction rs arbitrary: s) (simp_all add: trigger_defs unique_floor_upsert)

lemma floor_step:
  "0 \<le> value_or_zero t c \<Longrightarrow> 0 < i \<Longrightarrow>
   value_or_zero (sql_upsert fst (\<lambda>(c, f). (c, max f i)) (k, i) t) c =
     (if c = k then max (value_or_zero t c) i else value_or_zero t c)"
  by (subst value_or_zero_upsert) (auto simp: value_or_zero_def split: option.splits)

lemma fold_after_delete_floor:
  assumes "0 \<le> value_or_zero (cd_replay_floor s) c" "\<And>r. r \<in> set rs \<Longrightarrow> 0 < mr_id r"
  shows "value_or_zero (cd_replay_floor (fold after_delete rs s)) c =
    max (value_or_zero (cd_replay_floor s) c) (max_or_zero (map mr_id (channel_rows c rs)))"
  using assms
proof (induction rs arbitrary: s)
  case (Cons r rs)
  have f: "value_or_zero (cd_replay_floor (after_delete r s)) c =
      (if c = mr_channel r then max (value_or_zero (cd_replay_floor s) c) (mr_id r)
       else value_or_zero (cd_replay_floor s) c)"
    using Cons.prems by (simp add: trigger_defs floor_step)
  have "value_or_zero (cd_replay_floor (fold after_delete rs (after_delete r s))) c =
      max (value_or_zero (cd_replay_floor (after_delete r s)) c) (max_or_zero (map mr_id (channel_rows c rs)))"
    by (rule Cons.IH) (use Cons.prems f in \<open>auto simp: max.coboundedI1\<close>)
  moreover have "0 < mr_id r" using Cons.prems by simp
  ultimately show ?case
    using f by (simp add: max_or_zero_Cons max.assoc max.left_commute)
qed (simp add: max_or_zero_def)

lemma delete_messages_fields [simp]:
  "cd_last_rowid (snd (delete_messages P s)) = cd_last_rowid s"
  "cd_epoch (snd (delete_messages P s)) = cd_epoch s"
  "cd_limits (snd (delete_messages P s)) = cd_limits s"
  "cd_event_sequence (snd (delete_messages P s)) = cd_event_sequence s"
  "cd_remote_origins (snd (delete_messages P s)) = cd_remote_origins s"
  "cd_replay_epoch (snd (delete_messages P s)) = cd_replay_epoch s"
  "cd_presence (snd (delete_messages P s)) = cd_presence s"
  "cd_metadata (snd (delete_messages P s)) = map (uncount (filter P (cd_messages s))) (cd_metadata s)"
  "cd_message_count (snd (delete_messages P s)) = cd_message_count s - int (length (filter P (cd_messages s)))"
  "cd_message_bytes (snd (delete_messages P s)) = cd_message_bytes s - total_bytes (filter P (cd_messages s))"
  "cd_message_events (snd (delete_messages P s)) =
     filter (\<lambda>e. fst e \<notin> mr_id ` set (filter P (cd_messages s))) (cd_message_events s)"
  by (simp_all add: delete_messages_def fold_after_delete_metadata fold_after_delete_counts fold_after_delete_events)

lemma lookup_map_uncount:
  "sql_lookup md_channel c (map (uncount rs) mds) = map_option (uncount rs) (sql_lookup md_channel c mds)"
  by (induction mds) auto

lemma stream_head_delete [simp]: "stream_head (snd (delete_messages P s)) = stream_head s"
  by (rule ext) (auto simp: stream_head_def lookup_map_uncount split: option.splits)

section \<open>The invariant\<close>

definition counters_exact :: "channel_db \<Rightarrow> bool" where
  "counters_exact s =
     ((\<forall>md\<in>set (cd_metadata s).
         md_message_count md = int (length (channel_rows (md_channel md) (cd_messages s)))
         \<and> md_message_bytes md = total_bytes (channel_rows (md_channel md) (cd_messages s)))
      \<and> cd_message_count s = int (length (cd_messages s))
      \<and> cd_message_bytes s = total_bytes (cd_messages s))"

definition db_ok :: "channel_db \<Rightarrow> bool" where
  "db_ok s =
     (sorted_wrt (<) (map mr_id (cd_messages s))
      \<and> (\<forall>r\<in>set (cd_messages s). 0 < mr_id r \<and> mr_id r \<le> cd_last_rowid s)
      \<and> 0 \<le> cd_last_rowid s \<and> cd_last_rowid s \<le> i64_max
      \<and> unique_key md_channel (cd_metadata s)
      \<and> (\<forall>r\<in>set (cd_messages s). mr_channel r \<in> md_channel ` set (cd_metadata s))
      \<and> counters_exact s
      \<and> map fst (cd_message_events s) = map mr_id (cd_messages s)
      \<and> limits_ok (cd_limits s))"

definition row_holds :: "'v channel_lib \<Rightarrow> channel_db \<Rightarrow> message_row \<Rightarrow> 'v channel_message \<Rightarrow> bool" where
  "row_holds lib s r m =
     (m_channel m = mr_channel r \<and> m_type m = mr_type r \<and> json_text lib (m_data m) = mr_data_json r
      \<and> map_of (cd_message_events s) (mr_id r) = m_event_id m)"

definition sqlite_log_ok :: "'v channel_lib \<Rightarrow> channel_db \<Rightarrow> 'v log \<Rightarrow> bool" where
  "sqlite_log_ok lib s log =
     (replay_ok log (mr_id ` set (cd_messages s)) (value_or_zero (cd_replay_floor s)) (stream_head s)
      \<and> (\<forall>x\<in>set log. fst x \<le> cd_last_rowid s)
      \<and> (\<forall>r\<in>set (cd_messages s). \<exists>m. (mr_id r, m) \<in> set log \<and> row_holds lib s r m))"

lemma length_filter_split: "int (length (filter P xs)) + int (length (filter (\<lambda>x. \<not> P x) xs)) = int (length xs)"
  using sum_length_filter_compl [of P xs] by (metis of_nat_add)

lemma counters_delete:
  assumes "counters_exact s"
  shows "counters_exact (snd (delete_messages P s))"
  using assms length_filter_split [of P "cd_messages s"] total_bytes_filter_split [of P "cd_messages s"]
    length_filter_split [of P "channel_rows _ (cd_messages s)"] total_bytes_filter_split [of P "channel_rows _ (cd_messages s)"]
  by (auto simp: counters_exact_def sql_delete_def channel_rows_filter algebra_simps)

lemma map_filter_pairs:
  assumes "map fst es = map f rs" "inj_on f (set rs)"
  shows "map fst (filter (\<lambda>e. fst e \<notin> f ` set (filter P rs)) es) = map f (filter (\<lambda>r. \<not> P r) rs)"
proof -
  have "map fst (filter (\<lambda>e. fst e \<notin> f ` set (filter P rs)) es) = filter (\<lambda>i. i \<notin> f ` set (filter P rs)) (map fst es)"
    by (simp add: filter_map o_def)
  also have "\<dots> = map f (filter (\<lambda>r. f r \<notin> f ` set (filter P rs)) rs)"
    by (simp add: assms(1) filter_map o_def)
  also have "filter (\<lambda>r. f r \<notin> f ` set (filter P rs)) rs = filter (\<lambda>r. \<not> P r) rs"
    by (rule filter_cong) (use assms(2) in \<open>auto simp: inj_on_def\<close>)
  finally show ?thesis .
qed

lemma db_ok_delete:
  assumes "db_ok s"
  shows "db_ok (snd (delete_messages P s))"
proof -
  have inj: "inj_on mr_id (set (cd_messages s))"
    using assms unfolding db_ok_def by (blast intro: sorted_lt_inj)
  have "map md_channel (map (uncount (filter P (cd_messages s))) (cd_metadata s)) = map md_channel (cd_metadata s)"
    by simp
  then have "unique_key md_channel (cd_metadata (snd (delete_messages P s)))"
    "md_channel ` set (cd_metadata (snd (delete_messages P s))) = md_channel ` set (cd_metadata s)"
    using assms unfolding db_ok_def unique_key_def delete_messages_fields by (metis list.set_map)+
  moreover have "map fst (cd_message_events (snd (delete_messages P s))) = map mr_id (sql_delete P (cd_messages s))"
    unfolding delete_messages_fields sql_delete_def
    by (rule map_filter_pairs) (use assms inj in \<open>simp_all add: db_ok_def\<close>)
  ultimately show ?thesis
    using assms counters_delete [of s P] sorted_lt_filter [of mr_id "cd_messages s" "\<lambda>r. \<not> P r"]
    unfolding db_ok_def delete_messages_messages by (simp add: sql_delete_def)
qed

lemma map_of_filter_fst: "k \<notin> K \<Longrightarrow> map_of (filter (\<lambda>e. fst e \<notin> K) es) k = map_of es k"
  by (induction es) auto

lemma log_ok_delete:
  assumes db: "db_ok s" and log: "sqlite_log_ok lib s log"
  shows "sqlite_log_ok lib (snd (delete_messages P s)) log"
proof -
  let ?t = "snd (delete_messages P s)" and ?gone = "filter P (cd_messages s)"
  let ?fl = "value_or_zero (cd_replay_floor s)" and ?fl' = "value_or_zero (cd_replay_floor ?t)"
  have inj: "inj_on mr_id (set (cd_messages s))"
    using db unfolding db_ok_def by (blast intro: sorted_lt_inj)
  have rep: "replay_ok log (mr_id ` set (cd_messages s)) ?fl (stream_head s)"
    and rows: "\<And>r. r \<in> set (cd_messages s) \<Longrightarrow> \<exists>m. (mr_id r, m) \<in> set log \<and> row_holds lib s r m"
    using log by (auto simp: sqlite_log_ok_def)
  have pos: "0 < mr_id r" if "r \<in> set ?gone" for r using db that by (auto simp: db_ok_def)
  have fl: "?fl' c = max (?fl c) (max_or_zero (map mr_id (channel_rows c ?gone)))" for c
    using fold_after_delete_floor [of "s\<lparr>cd_messages := sql_delete P (cd_messages s)\<rparr>" c ?gone]
      replay_ok_floor_nonneg [OF rep, of c] pos by (simp add: delete_messages_def)
  have chan: "m_channel (snd x) = mr_channel r" if "x \<in> set log" "r \<in> set (cd_messages s)" "fst x = mr_id r" for x r
    using rows [OF that(2)] log_unique [OF replay_ok_positions(1) [OF rep] that(1)] that(3)
    by (auto simp: row_holds_def)
  have "replay_ok log (mr_id ` set (cd_messages s) - mr_id ` set ?gone) ?fl' (stream_head s)"
  proof (rule replay_ok_delete [OF rep])
    show "fst x \<le> ?fl' (m_channel (snd x))" if "x \<in> set log" "fst x \<in> mr_id ` set ?gone" for x
    proof -
      obtain r where r: "r \<in> set ?gone" "fst x = mr_id r" using \<open>fst x \<in> mr_id ` set ?gone\<close> by auto
      then have "mr_id r \<in> set (map mr_id (channel_rows (m_channel (snd x)) ?gone))" using chan [OF that(1)] by auto
      then show ?thesis using max_or_zero_ge fl r(2) by (metis max.coboundedI2)
    qed
    show "?fl' c = ?fl c \<or> (\<exists>x\<in>set log. fst x = ?fl' c \<and> in_stream c x \<and> fst x \<in> mr_id ` set ?gone)" for c
    proof (cases "?fl' c = ?fl c")
      case False
      then have eq: "?fl' c = max_or_zero (map mr_id (channel_rows c ?gone))" and "max_or_zero (map mr_id (channel_rows c ?gone)) \<noteq> 0"
        using fl [of c] replay_ok_floor_nonneg [OF rep, of c] by linarith+
      then obtain r where r: "r \<in> set (channel_rows c ?gone)" "?fl' c = mr_id r"
        using max_or_zero_in [of "map mr_id (channel_rows c ?gone)"] by auto
      then obtain m where "(mr_id r, m) \<in> set log" "row_holds lib s r m" using rows [of r] by auto
      then show ?thesis using r by (intro disjI2 bexI [of _ "(mr_id r, m)"]) (auto simp: in_stream_def row_holds_def)
    qed simp
  qed (auto simp: fl)
  moreover have "mr_id ` set (cd_messages s) - mr_id ` set ?gone = mr_id ` set (cd_messages ?t)"
    using inj by (auto simp: inj_on_def)
  moreover have "\<exists>m. (mr_id r, m) \<in> set log \<and> row_holds lib ?t r m" if "r \<in> set (cd_messages ?t)" for r
  proof -
    have "r \<in> set (cd_messages s)" "mr_id r \<notin> mr_id ` set ?gone" using that inj by (auto simp: inj_on_def)
    then show ?thesis
      using rows [of r] map_of_filter_fst [of "mr_id r" "mr_id ` set ?gone" "cd_message_events s"]
      unfolding row_holds_def delete_messages_fields by auto
  qed
  ultimately show ?thesis
    using log unfolding sqlite_log_ok_def by (simp add: stream_head_delete)
qed

section \<open>Repeated deletion\<close>

inductive deletes :: "channel_db \<Rightarrow> channel_db \<Rightarrow> bool" where
  deletes_refl [intro]: "deletes s s"
| deletes_step [intro]: "deletes s t \<Longrightarrow> deletes s (snd (delete_messages P t))"

lemma deletes_trans: "deletes t u \<Longrightarrow> deletes s t \<Longrightarrow> deletes s u"
  by (induction rule: deletes.induct) auto

lemma deletes_db_ok: "deletes s t \<Longrightarrow> db_ok s \<Longrightarrow> db_ok t"
  by (induction rule: deletes.induct) (auto intro: db_ok_delete)

lemma deletes_log_ok: "deletes s t \<Longrightarrow> db_ok s \<Longrightarrow> sqlite_log_ok lib s log \<Longrightarrow> sqlite_log_ok lib t log"
  by (induction rule: deletes.induct) (auto intro: log_ok_delete dest: deletes_db_ok)

lemma deletes_fields:
  assumes "deletes s t"
  shows "cd_last_rowid t = cd_last_rowid s" "cd_epoch t = cd_epoch s" "cd_limits t = cd_limits s"
    "cd_event_sequence t = cd_event_sequence s" "cd_remote_origins t = cd_remote_origins s"
    "cd_replay_epoch t = cd_replay_epoch s" "cd_presence t = cd_presence s" "stream_head t = stream_head s"
  using assms by (induction rule: deletes.induct) simp_all

lemma deletes_rows:
  assumes "deletes s t"
  obtains Q where "cd_messages t = filter Q (cd_messages s)"
proof -
  have "\<exists>Q. cd_messages t = filter Q (cd_messages s)"
    using assms
  proof (induction rule: deletes.induct)
    case (deletes_refl s)
    show ?case by (rule exI [of _ "\<lambda>_. True"]) simp
  next
    case (deletes_step s t P)
    then obtain Q where "cd_messages t = filter Q (cd_messages s)" by blast
    then show ?case by (auto simp: sql_delete_def)
  qed
  then show thesis using that by blast
qed

text \<open>Rules for the two loops: \<open>Q\<close> holds whenever the counters are read, and \<open>R\<close> follows where the
  loop ends.\<close>

definition stream_fits :: "replay_limits \<Rightarrow> metadata_row \<Rightarrow> bool" where
  "stream_fits l md =
     (md_message_count md - sint (max_messages_per_stream l) \<le> 0
      \<and> md_message_bytes md \<le> sint (max_bytes_per_stream l))"

definition stream_victims :: "replay_limits \<Rightarrow> string \<Rightarrow> metadata_row \<Rightarrow> channel_db \<Rightarrow> message_row \<Rightarrow> bool" where
  "stream_victims l c md s r =
     (mr_id r \<in> set (oldest_ids (\<lambda>r. mr_channel r = c)
        (max (md_message_count md - sint (max_messages_per_stream l)) 1) s))"

definition store_fits :: "replay_limits \<Rightarrow> channel_db \<Rightarrow> bool" where
  "store_fits l s =
     (cd_message_count s - sint (max_messages l) \<le> 0 \<and> cd_message_bytes s \<le> sint (max_bytes l))"

definition store_victims :: "replay_limits \<Rightarrow> channel_db \<Rightarrow> message_row \<Rightarrow> bool" where
  "store_victims l s r =
     (mr_id r \<in> set (oldest_ids (\<lambda>r. True) (max (cd_message_count s - sint (max_messages l)) 1) s))"

lemma enforce_stream_eq:
  "enforce_stream_budget l c n s =
     (case sql_lookup md_channel c (cd_metadata s) of
        None \<Rightarrow> (n, s)
      | Some md \<Rightarrow> if stream_fits l md then (n, s)
          else let res = delete_messages (stream_victims l c md s) s
               in if fst res = 0 then (n, snd res) else enforce_stream_budget l c (n + fst res) (snd res))"
  by (subst enforce_stream_budget.simps)
     (simp add: Let_def stream_fits_def stream_victims_def [abs_def] split: option.split)

lemma enforce_store_eq:
  "enforce_store_budget l n s =
     (if store_fits l s then (n, s)
      else let res = delete_messages (store_victims l s) s
           in if fst res = 0 then (n, snd res) else enforce_store_budget l (n + fst res) (snd res))"
  by (subst enforce_store_budget.simps) (simp add: Let_def store_fits_def store_victims_def [abs_def])

lemma enforce_stream_rule:
  assumes "Q s"
    and round: "\<And>s md. Q s \<Longrightarrow> sql_lookup md_channel c (cd_metadata s) = Some md \<Longrightarrow> \<not> stream_fits l md
      \<Longrightarrow> Q (snd (delete_messages (stream_victims l c md s) s))"
    and none: "\<And>s. Q s \<Longrightarrow> sql_lookup md_channel c (cd_metadata s) = None \<Longrightarrow> R s"
    and fits: "\<And>s md. Q s \<Longrightarrow> sql_lookup md_channel c (cd_metadata s) = Some md \<Longrightarrow> stream_fits l md \<Longrightarrow> R s"
    and stuck: "\<And>s md. Q s \<Longrightarrow> sql_lookup md_channel c (cd_metadata s) = Some md \<Longrightarrow> \<not> stream_fits l md
      \<Longrightarrow> fst (delete_messages (stream_victims l c md s) s) = 0 \<Longrightarrow> R (snd (delete_messages (stream_victims l c md s) s))"
  shows "R (snd (enforce_stream_budget l c n s))"
  using assms(1)
proof (induction "length (cd_messages s)" arbitrary: n s rule: less_induct)
  case less
  show ?case
  proof (cases "sql_lookup md_channel c (cd_metadata s)")
    case None
    then show ?thesis by (subst enforce_stream_eq) (simp add: none less.prems)
  next
    case (Some md)
    let ?res = "delete_messages (stream_victims l c md s) s"
    show ?thesis
    proof (cases "stream_fits l md \<or> fst ?res = 0")
      case True
      then show ?thesis
        by (subst enforce_stream_eq) (auto simp: Some Let_def intro: fits [OF less.prems Some] stuck [OF less.prems Some] simp del: delete_messages_messages)
    next
      case False
      have "R (snd (enforce_stream_budget l c (n + fst ?res) (snd ?res)))"
        using False by (intro less.hyps delete_messages_length round [OF less.prems Some]) simp_all
      then show ?thesis using False by (subst enforce_stream_eq) (simp add: Some Let_def)
    qed
  qed
qed

lemma enforce_store_rule:
  assumes "Q s"
    and round: "\<And>s. Q s \<Longrightarrow> \<not> store_fits l s \<Longrightarrow> Q (snd (delete_messages (store_victims l s) s))"
    and fits: "\<And>s. Q s \<Longrightarrow> store_fits l s \<Longrightarrow> R s"
    and stuck: "\<And>s. Q s \<Longrightarrow> \<not> store_fits l s \<Longrightarrow> fst (delete_messages (store_victims l s) s) = 0
      \<Longrightarrow> R (snd (delete_messages (store_victims l s) s))"
  shows "R (snd (enforce_store_budget l n s))"
  using assms(1)
proof (induction "length (cd_messages s)" arbitrary: n s rule: less_induct)
  case less
  let ?res = "delete_messages (store_victims l s) s"
  show ?case
  proof (cases "store_fits l s \<or> fst ?res = 0")
    case True
    then show ?thesis
      by (subst enforce_store_eq) (auto simp: Let_def intro: fits [OF less.prems] stuck [OF less.prems] simp del: delete_messages_messages)
  next
    case False
    have "R (snd (enforce_store_budget l (n + fst ?res) (snd ?res)))"
      using False by (intro less.hyps delete_messages_length round [OF less.prems]) simp_all
    then show ?thesis using False by (subst enforce_store_eq) (simp add: Let_def)
  qed
qed

lemma deletes_stream: "deletes s (snd (enforce_stream_budget limits channel n s))"
  by (rule enforce_stream_rule [where Q = "deletes s"]) auto

lemma deletes_store: "deletes s (snd (enforce_store_budget limits n s))"
  by (rule enforce_store_rule [where Q = "deletes s"]) auto

lemma deletes_fold:
  assumes "\<And>x acc. deletes (snd acc) (snd (f x acc))"
  shows "deletes (snd acc) (snd (fold f xs acc))"
proof (induction xs arbitrary: acc)
  case (Cons x xs)
  show ?case unfolding fold_Cons o_apply by (rule deletes_trans [OF Cons assms])
qed auto

lemma deletes_prune_stream: "deletes (snd acc) (snd (prune_stream limits now md acc))"
  by (auto simp: prune_stream_def split: option.splits age_cutoff.splits prod.splits)
     (metis deletes_refl deletes_step snd_conv)+

lemma deletes_prune_age: "deletes s (snd (prune_age limits now s))"
  using deletes_fold [OF deletes_prune_stream, of "(0, s)"] by (simp add: prune_age_def)

definition enforce_streams :: "replay_limits \<Rightarrow> string list \<Rightarrow> nat \<times> channel_db \<Rightarrow> nat \<times> channel_db" where
  "enforce_streams limits = fold (\<lambda>channel acc. enforce_stream_budget limits channel (fst acc) (snd acc))"

lemma deletes_enforce_streams: "deletes (snd acc) (snd (enforce_streams limits cs acc))"
  unfolding enforce_streams_def by (rule deletes_fold) (rule deletes_stream)

lemma prune_replay_alt:
  "prune_replay limits now s =
     (let a = prune_age limits now s;
          b = enforce_streams limits (map md_channel (filter (over_budget limits) (cd_metadata (snd a)))) a
      in enforce_store_budget limits (fst b) (snd b))"
  by (simp add: prune_replay_def enforce_streams_def Let_def split: prod.splits)

lemma deletes_prune_replay: "deletes s (snd (prune_replay limits now s))"
  unfolding prune_replay_alt Let_def
  by (rule deletes_trans [OF deletes_store], rule deletes_trans [OF deletes_enforce_streams], rule deletes_prune_age)

section \<open>Budgets\<close>

definition stream_within :: "replay_limits \<Rightarrow> string \<Rightarrow> channel_db \<Rightarrow> bool" where
  "stream_within l c s =
     (int (length (channel_rows c (cd_messages s))) \<le> uint (max_messages_per_stream l)
      \<and> total_bytes (channel_rows c (cd_messages s)) \<le> uint (max_bytes_per_stream l))"

definition store_within :: "replay_limits \<Rightarrow> channel_db \<Rightarrow> bool" where
  "store_within l s =
     (int (length (cd_messages s)) \<le> uint (max_messages l) \<and> total_bytes (cd_messages s) \<le> uint (max_bytes l))"

lemma within_deletes:
  assumes "deletes s t"
  shows "stream_within l c s \<Longrightarrow> stream_within l c t" and "store_within l s \<Longrightarrow> store_within l t"
proof -
  obtain Q where "cd_messages t = filter Q (cd_messages s)" using deletes_rows [OF assms] .
  then show "stream_within l c s \<Longrightarrow> stream_within l c t" and "store_within l s \<Longrightarrow> store_within l t"
    using length_filter_le [of Q "channel_rows c (cd_messages s)"] total_bytes_filter_le [of Q "channel_rows c (cd_messages s)"]
      length_filter_le [of Q "cd_messages s"] total_bytes_filter_le [of Q "cd_messages s"]
    by (auto simp: stream_within_def store_within_def channel_rows_filter simp del: length_filter_le)
qed

lemma oldest_ids_eq:
  assumes "db_ok s"
  shows "oldest_ids P n s = map mr_id (take (nat n) (filter P (cd_messages s)))"
proof -
  have "sort_key mr_id (filter P (cd_messages s)) = filter P (cd_messages s)"
    using assms unfolding db_ok_def by (blast intro: sorted_lt_sort_key sorted_lt_filter)
  then show ?thesis by (simp add: oldest_ids_def)
qed

lemma oldest_removed_none:
  assumes db: "db_ok s" and n: "1 \<le> n"
    and none: "fst (delete_messages (\<lambda>r. mr_id r \<in> set (oldest_ids P n s)) s) = 0"
  shows "filter P (cd_messages s) = []"
proof (rule ccontr)
  assume "filter P (cd_messages s) \<noteq> []"
  then obtain r rs where r: "filter P (cd_messages s) = r # rs" by (cases "filter P (cd_messages s)") auto
  obtain k where "nat n = Suc k" using n by (cases "nat n") auto
  then have "mr_id r \<in> set (oldest_ids P n s)" using r by (simp add: oldest_ids_eq [OF db])
  moreover have "r \<in> set (cd_messages s)" using r by (metis filter_is_subset list.set_intros(1) subsetD)
  ultimately show False using none by (auto simp: delete_messages_def filter_empty_conv)
qed

text \<open>The newest row is never among the oldest that one round retires.\<close>

lemma newest_not_oldest:
  assumes db: "db_ok s" and r: "r \<in> set (filter P (cd_messages s))"
    and newest: "\<And>r'. r' \<in> set (filter P (cd_messages s)) \<Longrightarrow> mr_id r' \<le> mr_id r"
    and n: "nat n < length (filter P (cd_messages s))"
  shows "mr_id r \<notin> set (oldest_ids P n s)"
proof
  let ?L = "filter P (cd_messages s)"
  have sorted: "sorted_wrt (<) (map mr_id ?L)"
    using db unfolding db_ok_def by (blast intro: sorted_lt_filter)
  assume "mr_id r \<in> set (oldest_ids P n s)"
  then obtain i where i: "i < nat n" "i < length ?L" "mr_id (?L ! i) = mr_id r"
    using n by (auto simp: oldest_ids_eq [OF db] in_set_conv_nth)
  have "mr_id (?L ! i) < mr_id (?L ! j)" if "i < j" "j < length ?L" for i j
    using sorted that by (simp add: sorted_wrt_iff_nth_less)
  from this [OF i(1) n] show False
    using newest [OF nth_mem [OF n]] i(3) by simp
qed

lemma oldest_round:
  assumes db: "db_ok s" and r: "r \<in> set (filter P (cd_messages s))"
    and newest: "\<And>r'. r' \<in> set (filter P (cd_messages s)) \<Longrightarrow> mr_id r' \<le> mr_id r"
    and over: "\<not> (int (length (filter P (cd_messages s))) - m \<le> 0 \<and> total_bytes (filter P (cd_messages s)) \<le> b)"
    and m: "1 \<le> m" and b: "row_bytes r \<le> b"
  shows "r \<in> set (cd_messages (snd (delete_messages
    (\<lambda>r. mr_id r \<in> set (oldest_ids P (max (int (length (filter P (cd_messages s))) - m) 1) s)) s)))"
proof -
  let ?L = "filter P (cd_messages s)"
  have "nat (max (int (length ?L) - m) 1) < length ?L"
  proof (cases "int (length ?L) - m \<le> 0")
    case True
    then have "b < total_bytes ?L" using over by simp
    then have "?L \<noteq> [r]" using b by auto
    then have "1 < length ?L" using r by (cases ?L; cases "tl ?L") auto
    then show ?thesis using True by simp
  next
    case False
    then show ?thesis using m by simp
  qed
  then have "mr_id r \<notin> set (oldest_ids P (max (int (length ?L) - m) 1) s)"
    using newest_not_oldest [OF db r newest] by blast
  then show ?thesis using r by simp
qed

lemma no_rows:
  assumes "db_ok s" "sql_lookup md_channel c (cd_metadata s) = None"
  shows "channel_rows c (cd_messages s) = []"
proof -
  have "mr_channel r \<noteq> c" if "r \<in> set (cd_messages s)" for r
    using assms that unfolding db_ok_def sql_lookup_None by blast
  then show ?thesis by (simp add: channel_rows_def filter_empty_conv)
qed

lemma stream_counters:
  assumes "db_ok s" "sql_lookup md_channel c (cd_metadata s) = Some md"
  shows "md_message_count md = int (length (filter (\<lambda>r. mr_channel r = c) (cd_messages s)))"
    "md_message_bytes md = total_bytes (filter (\<lambda>r. mr_channel r = c) (cd_messages s))"
  using assms sql_lookup_SomeD [OF assms(2)] by (auto simp: db_ok_def counters_exact_def channel_rows_def)

lemma stream_fits_within:
  "db_ok s \<Longrightarrow> limits_ok l \<Longrightarrow> sql_lookup md_channel c (cd_metadata s) = Some md \<Longrightarrow> stream_fits l md
    \<Longrightarrow> stream_within l c s"
  by (simp add: stream_fits_def stream_within_def stream_counters limits_ok_bounds channel_rows_def)

lemma store_fits_within: "db_ok s \<Longrightarrow> limits_ok l \<Longrightarrow> store_fits l s \<longleftrightarrow> store_within l s"
  by (simp add: store_fits_def store_within_def db_ok_def counters_exact_def limits_ok_bounds)

lemma enforce_stream_within:
  assumes "db_ok s" and l: "limits_ok l"
  shows "stream_within l c (snd (enforce_stream_budget l c n s))"
proof (rule enforce_stream_rule [where Q = db_ok])
  fix s md
  assume s: "db_ok s" and md: "sql_lookup md_channel c (cd_metadata s) = Some md"
  show "stream_within l c s" if "stream_fits l md" by (rule stream_fits_within [OF s l md that])
  show "stream_within l c (snd (delete_messages (stream_victims l c md s) s))"
    if "fst (delete_messages (stream_victims l c md s) s) = 0"
  proof -
    have "filter (\<lambda>r. mr_channel r = c) (cd_messages s) = []"
      by (rule oldest_removed_none [OF s _ that [unfolded stream_victims_def [abs_def]]]) simp
    then show ?thesis
      using l by (simp add: stream_within_def channel_rows_filter sql_delete_def limits_ok_bounds flip: channel_rows_def)
  qed
next
  fix s
  assume "db_ok s" "sql_lookup md_channel c (cd_metadata s) = None"
  then have "channel_rows c (cd_messages s) = []" by (rule no_rows)
  then show "stream_within l c s" by (simp add: stream_within_def)
qed (use assms in \<open>auto intro: db_ok_delete\<close>)

lemma enforce_store_within:
  assumes "db_ok s" and l: "limits_ok l"
  shows "store_within l (snd (enforce_store_budget l n s))"
proof (rule enforce_store_rule [where Q = db_ok])
  fix s
  assume s: "db_ok s"
  show "store_within l s" if "store_fits l s" using that s l by (simp add: store_fits_within)
  show "store_within l (snd (delete_messages (store_victims l s) s))"
    if "fst (delete_messages (store_victims l s) s) = 0"
  proof -
    have "filter (\<lambda>r. True) (cd_messages s) = []"
      by (rule oldest_removed_none [OF s _ that [unfolded store_victims_def [abs_def]]]) simp
    then show ?thesis using l by (simp add: store_within_def sql_delete_def limits_ok_bounds)
  qed
qed (use assms in \<open>auto intro: db_ok_delete\<close>)

text \<open>Neither loop retires the newest row of what it looks at, if that row alone fits.\<close>

lemma enforce_stream_keeps:
  assumes s: "db_ok s" and l: "limits_ok l"
    and r: "r \<in> set (cd_messages s)" "\<And>r'. r' \<in> set (cd_messages s) \<Longrightarrow> mr_id r' \<le> mr_id r"
    and b: "row_bytes r \<le> uint (max_bytes_per_stream l)"
  shows "r \<in> set (cd_messages (snd (enforce_stream_budget l (mr_channel r) n s)))"
proof (rule enforce_stream_rule [where Q = "\<lambda>s. db_ok s \<and> r \<in> set (cd_messages s)
      \<and> (\<forall>r'\<in>set (cd_messages s). mr_id r' \<le> mr_id r)"])
  fix s md
  assume q: "db_ok s \<and> r \<in> set (cd_messages s) \<and> (\<forall>r'\<in>set (cd_messages s). mr_id r' \<le> mr_id r)"
    and md: "sql_lookup md_channel (mr_channel r) (cd_metadata s) = Some md" and over: "\<not> stream_fits l md"
  let ?P = "\<lambda>r'. mr_channel r' = mr_channel r"
  note cnt = stream_counters [OF conjunct1 [OF q] md]
  have over': "\<not> (int (length (filter ?P (cd_messages s))) - uint (max_messages_per_stream l) \<le> 0
      \<and> total_bytes (filter ?P (cd_messages s)) \<le> uint (max_bytes_per_stream l))"
    using over unfolding stream_fits_def cnt limits_ok_bounds [OF l] .
  have "stream_victims l (mr_channel r) md s = (\<lambda>r'. mr_id r' \<in> set (oldest_ids ?P
      (max (int (length (filter ?P (cd_messages s))) - uint (max_messages_per_stream l)) 1) s))"
    unfolding stream_victims_def [abs_def] cnt limits_ok_bounds [OF l] ..
  then have keep: "r \<in> set (cd_messages (snd (delete_messages (stream_victims l (mr_channel r) md s) s)))"
    using oldest_round [OF conjunct1 [OF q] _ _ over' _ b] q limits_ok_bounds(1) [OF l] by simp
  then show "db_ok (snd (delete_messages (stream_victims l (mr_channel r) md s) s))
      \<and> r \<in> set (cd_messages (snd (delete_messages (stream_victims l (mr_channel r) md s) s)))
      \<and> (\<forall>r'\<in>set (cd_messages (snd (delete_messages (stream_victims l (mr_channel r) md s) s))). mr_id r' \<le> mr_id r)"
    and "r \<in> set (cd_messages (snd (delete_messages (stream_victims l (mr_channel r) md s) s)))"
    using q by (simp_all add: db_ok_delete)
qed (use assms in auto)

lemma enforce_store_keeps:
  assumes s: "db_ok s" and l: "limits_ok l"
    and r: "r \<in> set (cd_messages s)" "\<And>r'. r' \<in> set (cd_messages s) \<Longrightarrow> mr_id r' \<le> mr_id r"
    and b: "row_bytes r \<le> uint (max_bytes l)"
  shows "r \<in> set (cd_messages (snd (enforce_store_budget l n s)))"
proof (rule enforce_store_rule [where Q = "\<lambda>s. db_ok s \<and> r \<in> set (cd_messages s)
      \<and> (\<forall>r'\<in>set (cd_messages s). mr_id r' \<le> mr_id r)"])
  fix s
  assume q: "db_ok s \<and> r \<in> set (cd_messages s) \<and> (\<forall>r'\<in>set (cd_messages s). mr_id r' \<le> mr_id r)"
    and over: "\<not> store_fits l s"
  let ?P = "\<lambda>r' :: message_row. True"
  have cnt: "cd_message_count s = int (length (filter ?P (cd_messages s)))"
    "cd_message_bytes s = total_bytes (filter ?P (cd_messages s))"
    using q by (simp_all add: db_ok_def counters_exact_def)
  have over': "\<not> (int (length (filter ?P (cd_messages s))) - uint (max_messages l) \<le> 0
      \<and> total_bytes (filter ?P (cd_messages s)) \<le> uint (max_bytes l))"
    using over unfolding store_fits_def cnt limits_ok_bounds [OF l] .
  have "store_victims l s = (\<lambda>r'. mr_id r' \<in> set (oldest_ids ?P
      (max (int (length (filter ?P (cd_messages s))) - uint (max_messages l)) 1) s))"
    unfolding store_victims_def [abs_def] cnt limits_ok_bounds [OF l] ..
  then have keep: "r \<in> set (cd_messages (snd (delete_messages (store_victims l s) s)))"
    using oldest_round [OF conjunct1 [OF q] _ _ over' _ b] q limits_ok_bounds(3) [OF l] by simp
  then show "db_ok (snd (delete_messages (store_victims l s) s))
      \<and> r \<in> set (cd_messages (snd (delete_messages (store_victims l s) s)))
      \<and> (\<forall>r'\<in>set (cd_messages (snd (delete_messages (store_victims l s) s))). mr_id r' \<le> mr_id r)"
    and "r \<in> set (cd_messages (snd (delete_messages (store_victims l s) s)))"
    using q by (simp_all add: db_ok_delete)
qed (use assms in auto)

section \<open>Pruning\<close>

definition budget_ok :: "channel_db \<Rightarrow> bool" where
  "budget_ok s = ((\<forall>c. stream_within (cd_limits s) c s) \<and> store_within (cd_limits s) s)"

lemma budget_ok_deletes: "deletes s t \<Longrightarrow> budget_ok s \<Longrightarrow> budget_ok t"
  unfolding budget_ok_def by (metis deletes_fields(3) within_deletes)

lemma enforce_streams_within:
  assumes "db_ok (snd acc)" "limits_ok l" "c \<in> set cs \<or> stream_within l c (snd acc)"
  shows "stream_within l c (snd (enforce_streams l cs acc))"
  using assms
proof (induction cs arbitrary: acc)
  case (Cons k cs)
  let ?acc = "enforce_stream_budget l k (fst acc) (snd acc)"
  have step: "enforce_streams l (k # cs) acc = enforce_streams l cs ?acc" by (simp add: enforce_streams_def)
  have "stream_within l c (snd ?acc)" if "c = k \<or> stream_within l c (snd acc)"
    using that Cons.prems enforce_stream_within [of "snd acc" l k "fst acc"] within_deletes(1) [OF deletes_stream] by blast
  then show ?case
    unfolding step using Cons.prems by (intro Cons.IH) (auto intro: deletes_db_ok [OF deletes_stream])
qed (simp add: enforce_streams_def)

lemma not_over_budget_within:
  assumes s: "db_ok s" and l: "limits_ok l" and c: "c \<notin> md_channel ` set (filter (over_budget l) (cd_metadata s))"
  shows "stream_within l c s"
proof (cases "sql_lookup md_channel c (cd_metadata s)")
  case None
  then have "channel_rows c (cd_messages s) = []" by (rule no_rows [OF s])
  then show ?thesis by (simp add: stream_within_def)
next
  case (Some md)
  then have "\<not> over_budget l md" using c sql_lookup_SomeD [OF Some] by auto
  then show ?thesis
    by (intro stream_fits_within [OF s l Some]) (auto simp: over_budget_def stream_fits_def)
qed

lemma prune_replay_budget:
  assumes s: "db_ok s" and l: "cd_limits s = l"
  shows "budget_ok (snd (prune_replay l now s))"
proof -
  define a where "a = prune_age l now s"
  define b where "b = enforce_streams l (map md_channel (filter (over_budget l) (cd_metadata (snd a)))) a"
  define u where "u = snd (enforce_store_budget l (fst b) (snd b))"
  have lok: "limits_ok l" using s l by (simp add: db_ok_def)
  have a: "db_ok (snd a)" unfolding a_def by (rule deletes_db_ok [OF deletes_prune_age s])
  then have b: "db_ok (snd b)" unfolding b_def by (rule deletes_db_ok [OF deletes_enforce_streams])
  have "stream_within l c (snd b)" for c
    unfolding b_def using not_over_budget_within [OF a lok, of c]
    by (intro enforce_streams_within [OF a lok]) auto
  then have "stream_within l c u" for c
    unfolding u_def using within_deletes(1) [OF deletes_store] by blast
  moreover have "store_within l u" unfolding u_def by (rule enforce_store_within [OF b lok])
  moreover have "u = snd (prune_replay l now s)" by (simp add: u_def b_def a_def prune_replay_alt Let_def)
  moreover have "cd_limits (snd (prune_replay l now s)) = l"
    using deletes_fields(3) [OF deletes_prune_replay] l by metis
  ultimately show ?thesis by (simp add: budget_ok_def)
qed

section \<open>Appending\<close>

definition event_row :: "'v channel_lib \<Rightarrow> int \<Rightarrow> int \<Rightarrow> 'v channel_event \<Rightarrow> message_row" where
  "event_row lib i now event = \<lparr>mr_id = i, mr_channel = ev_channel event, mr_type = pl_type (ev_payload event),
     mr_data_json = json_text lib (pl_data (ev_payload event)), mr_created_at = now\<rparr>"

definition touched :: "int \<Rightarrow> string \<Rightarrow> metadata_row list \<Rightarrow> metadata_row list" where
  "touched now c mds = sql_upsert md_channel (\<lambda>md. md\<lparr>md_last_activity := now\<rparr>) (new_metadata c now) mds"

definition inserted :: "'v channel_lib \<Rightarrow> int \<Rightarrow> 'v channel_event \<Rightarrow> channel_db \<Rightarrow> channel_db" where
  "inserted lib now event s =
     (let i = cd_last_rowid s + 1; r = event_row lib i now event
      in s\<lparr>cd_messages := cd_messages s @ [r], cd_last_rowid := i,
           cd_message_count := cd_message_count s + 1, cd_message_bytes := cd_message_bytes s + row_bytes r,
           cd_message_events := cd_message_events s @ [(i, ev_id event)],
           cd_metadata := sql_update (\<lambda>md. md_channel md = ev_channel event) (\<lambda>md. md\<lparr>md_latest_message_id := i\<rparr>)
             (count_stream (ev_channel event) 1 (row_bytes r) (touched now (ev_channel event) (cd_metadata s)))\<rparr>)"

definition event_message :: "'v channel_event \<Rightarrow> 'v channel_message" where
  "event_message event = \<lparr>m_id = [], m_event_id = Some (ev_id event), m_channel = ev_channel event,
     m_type = pl_type (ev_payload event), m_data = pl_data (ev_payload event)\<rparr>"

definition settled_db :: "channel_db \<Rightarrow> string \<Rightarrow> channel_db" where
  "settled_db s c = snd (enforce_store_budget (cd_limits s) 0 (snd (enforce_stream_budget (cd_limits s) c 0 s)))"

lemma append_event_ephemeral:
  "ev_ephemeral event \<Longrightarrow> append_event lib epoch now event s = Inr (event_message event, s)"
  by (simp add: append_event_def event_message_def)

lemma append_event_durable:
  assumes "\<not> ev_ephemeral event" "limits_ok (cd_limits s)"
  shows "append_event lib epoch now event s =
    (if row_bytes (event_row lib 0 now event) > uint (max_bytes (cd_limits s))
        \<or> row_bytes (event_row lib 0 now event) > uint (max_bytes_per_stream (cd_limits s))
     then Inl (BadRequest ''message exceeds SQLite replay byte budget'')
     else if cd_last_rowid s = i64_max then Inl (Storage ''database or disk is full'')
     else Inr ((event_message event)\<lparr>m_id := cursor_to_string lib
                 (cursor_sqlite lib epoch (ev_channel event) (cd_last_rowid s + 1))\<rparr>,
               settled_db (inserted lib now event s) (ev_channel event)))"
  using assms
  by (simp add: append_event_def event_message_def limits_ok_def load_limits_def settled_db_def inserted_def touched_def
      insert_message_def message_counted_def event_row_def row_bytes_def Let_def)

lemma event_row_simps [simp]:
  "mr_id (event_row lib i now event) = i" "mr_channel (event_row lib i now event) = ev_channel event"
  by (simp_all add: event_row_def)

lemma event_row_bytes: "row_bytes (event_row lib i now event) = row_bytes (event_row lib 0 now event)"
  by (simp add: event_row_def row_bytes_def)

lemma inserted_fields [simp]:
  "cd_messages (inserted lib now event s) = cd_messages s @ [event_row lib (cd_last_rowid s + 1) now event]"
  "cd_last_rowid (inserted lib now event s) = cd_last_rowid s + 1"
  "cd_epoch (inserted lib now event s) = cd_epoch s"
  "cd_limits (inserted lib now event s) = cd_limits s"
  "cd_event_sequence (inserted lib now event s) = cd_event_sequence s"
  "cd_message_events (inserted lib now event s) = cd_message_events s @ [(cd_last_rowid s + 1, ev_id event)]"
  "cd_remote_origins (inserted lib now event s) = cd_remote_origins s"
  "cd_replay_floor (inserted lib now event s) = cd_replay_floor s"
  "cd_replay_epoch (inserted lib now event s) = cd_replay_epoch s"
  "cd_presence (inserted lib now event s) = cd_presence s"
  by (simp_all add: inserted_def Let_def)

end
