(* ===== verification/Channel_Sqlite_Replay.thy ===== *)
theory Channel_Sqlite_Replay
  imports Channel_Sqlite_Inv
begin

text \<open>
  Histories of the SQLite channel store.  A history pairs the database with the log of what
  was published; the operations of all writers of the file are executed one after the other,
  as the database serialises them.  Replay is shown to be exact with respect to the log.
\<close>

section \<open>One message more\<close>

lemma lookup_inserted:
  "sql_lookup md_channel c (cd_metadata (inserted lib now event s)) =
     (if c = ev_channel event
      then Some ((case sql_lookup md_channel c (cd_metadata s) of
             None \<Rightarrow> new_metadata c now | Some md \<Rightarrow> md\<lparr>md_last_activity := now\<rparr>)
           \<lparr>md_message_count := (case sql_lookup md_channel c (cd_metadata s) of None \<Rightarrow> 0 | Some md \<Rightarrow> md_message_count md) + 1,
            md_message_bytes := (case sql_lookup md_channel c (cd_metadata s) of None \<Rightarrow> 0 | Some md \<Rightarrow> md_message_bytes md)
               + row_bytes (event_row lib (cd_last_rowid s + 1) now event),
            md_latest_message_id := cd_last_rowid s + 1\<rparr>)
      else sql_lookup md_channel c (cd_metadata s))"
proof -
  have nm: "md_channel (new_metadata c now) = c" for c by (simp add: new_metadata_def)
  have t: "sql_lookup md_channel c (touched now (ev_channel event) (cd_metadata s)) =
      (if c = ev_channel event then Some (case sql_lookup md_channel c (cd_metadata s) of
         None \<Rightarrow> new_metadata c now | Some md \<Rightarrow> md\<lparr>md_last_activity := now\<rparr>)
       else sql_lookup md_channel c (cd_metadata s))"
    unfolding touched_def by (subst lookup_upsert) (auto simp: nm)
  have "cd_metadata (inserted lib now event s) =
      sql_update (\<lambda>md. md_channel md = ev_channel event) (\<lambda>md. md\<lparr>md_latest_message_id := cd_last_rowid s + 1\<rparr>)
        (sql_update (\<lambda>md. md_channel md = ev_channel event)
          (\<lambda>md. md\<lparr>md_message_count := md_message_count md + 1,
                  md_message_bytes := md_message_bytes md + row_bytes (event_row lib (cd_last_rowid s + 1) now event)\<rparr>)
          (touched now (ev_channel event) (cd_metadata s)))"
    by (simp add: inserted_def count_stream_def Let_def)
  then have "sql_lookup md_channel c (cd_metadata (inserted lib now event s)) =
      map_option (\<lambda>md. if md_channel md = ev_channel event then md\<lparr>md_latest_message_id := cd_last_rowid s + 1\<rparr> else md)
        (map_option (\<lambda>md. if md_channel md = ev_channel event
          then md\<lparr>md_message_count := md_message_count md + 1,
                  md_message_bytes := md_message_bytes md + row_bytes (event_row lib (cd_last_rowid s + 1) now event)\<rparr>
          else md) (sql_lookup md_channel c (touched now (ev_channel event) (cd_metadata s))))"
    by (simp add: lookup_update)
  then show ?thesis
    unfolding t by (cases "sql_lookup md_channel c (cd_metadata s)")
      (auto simp: nm new_metadata_def dest: sql_lookup_key)
qed

lemma unique_inserted:
  "unique_key md_channel (cd_metadata s) \<Longrightarrow> unique_key md_channel (cd_metadata (inserted lib now event s))"
  by (simp add: inserted_def count_stream_def touched_def Let_def unique_update unique_upsert)

lemma db_ok_inserted:
  assumes s: "db_ok s" and i: "cd_last_rowid s \<noteq> i64_max"
  shows "db_ok (inserted lib now event s)"
proof -
  let ?t = "inserted lib now event s" and ?r = "event_row lib (cd_last_rowid s + 1) now event"
  have u: "unique_key md_channel (cd_metadata s)" and u': "unique_key md_channel (cd_metadata ?t)"
    using s unique_inserted by (auto simp: db_ok_def)
  have cnt: "md_message_count md = int (length (channel_rows (md_channel md) (cd_messages ?t)))
      \<and> md_message_bytes md = total_bytes (channel_rows (md_channel md) (cd_messages ?t))"
    if "md \<in> set (cd_metadata ?t)" for md
  proof -
    have look: "sql_lookup md_channel (md_channel md) (cd_metadata ?t) = Some md"
      by (rule sql_lookup_unique [OF u' that])
    show ?thesis
    proof (cases "sql_lookup md_channel (md_channel md) (cd_metadata s)")
      case None
      then show ?thesis using look no_rows [OF s None] by (auto simp: lookup_inserted split: if_splits)
    next
      case (Some md0)
      then show ?thesis
        using look stream_counters [OF s Some]
        by (auto simp: lookup_inserted channel_rows_def split: if_splits)
    qed
  qed
  have "counters_exact ?t"
    using s cnt unfolding counters_exact_def
    by (auto simp: db_ok_def counters_exact_def inserted_def Let_def)
  moreover have "mr_channel r \<in> md_channel ` set (cd_metadata ?t)" if "r \<in> set (cd_messages ?t)" for r
  proof -
    have "sql_lookup md_channel (mr_channel r) (cd_metadata s) \<noteq> None" if "r \<in> set (cd_messages s)"
      using that s by (auto simp: db_ok_def sql_lookup_None simp del: not_None_eq)
    then have "sql_lookup md_channel (mr_channel r) (cd_metadata ?t) \<noteq> None"
      using that by (auto simp: lookup_inserted)
    then show ?thesis by (auto simp: sql_lookup_None)
  qed
  ultimately show ?thesis
    using s i u' unfolding db_ok_def by (fastforce simp: sorted_wrt_append)
qed

lemma stream_head_inserted:
  "stream_head (inserted lib now event s) c = (if c = ev_channel event then cd_last_rowid s + 1 else stream_head s c)"
  by (simp add: stream_head_def lookup_inserted)

lemma map_of_snoc_old: "k \<in> fst ` set xs \<Longrightarrow> map_of (xs @ [e]) k = map_of xs k"
  by (induction xs) (auto simp del: map_of_append)

lemma map_of_snoc_new: "k \<notin> fst ` set xs \<Longrightarrow> map_of (xs @ [(k, v)]) k = Some v"
  by (induction xs) (auto simp del: map_of_append)

lemma log_ok_inserted:
  assumes s: "db_ok s" and log: "sqlite_log_ok lib s log"
    and m: "m_channel m = ev_channel event" "m_type m = pl_type (ev_payload event)"
      "m_data m = pl_data (ev_payload event)" "m_event_id m = Some (ev_id event)"
  shows "sqlite_log_ok lib (inserted lib now event s) (log @ [(cd_last_rowid s + 1, m)])"
proof -
  let ?i = "cd_last_rowid s + 1" and ?t = "inserted lib now event s"
  have rep: "replay_ok log (mr_id ` set (cd_messages s)) (value_or_zero (cd_replay_floor s)) (stream_head s)"
    and le: "\<And>x. x \<in> set log \<Longrightarrow> fst x \<le> cd_last_rowid s"
    and rows: "\<And>r. r \<in> set (cd_messages s) \<Longrightarrow> \<exists>m. (mr_id r, m) \<in> set log \<and> row_holds lib s r m"
    using log by (auto simp: sqlite_log_ok_def)
  have evs: "map fst (cd_message_events s) = map mr_id (cd_messages s)" using s by (simp add: db_ok_def)
  have fresh: "?i \<notin> fst ` set (cd_message_events s)"
  proof
    assume "?i \<in> fst ` set (cd_message_events s)"
    then have "?i \<in> mr_id ` set (cd_messages s)" using evs by (metis list.set_map)
    then show False using s by (fastforce simp: db_ok_def)
  qed
  have "replay_ok (log @ [(?i, m)]) (insert ?i (mr_id ` set (cd_messages s))) (value_or_zero (cd_replay_floor s)) (stream_head ?t)"
  proof (rule replay_ok_append [OF rep])
    show "0 < ?i" using s by (simp add: db_ok_def)
  qed (use le m in \<open>auto simp: stream_head_inserted dest: le\<close>)
  moreover have "\<exists>m'. (mr_id r, m') \<in> set (log @ [(?i, m)]) \<and> row_holds lib ?t r m'" if "r \<in> set (cd_messages ?t)" for r
  proof (cases "r \<in> set (cd_messages s)")
    case True
    then obtain m' where m': "(mr_id r, m') \<in> set log" "row_holds lib s r m'" using rows by blast
    have "mr_id r \<in> fst ` set (cd_message_events s)" using True evs by (metis image_eqI list.set_map)
    then have "map_of (cd_message_events ?t) (mr_id r) = map_of (cd_message_events s) (mr_id r)"
      unfolding inserted_fields by (rule map_of_snoc_old)
    then show ?thesis using m' unfolding row_holds_def by auto
  next
    case False
    then have "r = event_row lib ?i now event" using that by simp
    moreover have "map_of (cd_message_events ?t) ?i = Some (ev_id event)"
      unfolding inserted_fields by (rule map_of_snoc_new [OF fresh])
    ultimately show ?thesis using m
      by (intro exI [of _ m]) (simp add: row_holds_def event_row_def del: inserted_fields)
  qed
  ultimately show ?thesis
    using le unfolding sqlite_log_ok_def by (fastforce dest: le)
qed

lemma deletes_settled: "deletes s (settled_db s c)"
  unfolding settled_db_def by (rule deletes_trans [OF deletes_store deletes_stream])

lemma settled_budget:
  assumes s: "db_ok s" and others: "\<And>c'. c' \<noteq> c \<Longrightarrow> stream_within (cd_limits s) c' s"
  shows "budget_ok (settled_db s c)"
proof -
  let ?l = "cd_limits s" and ?u = "snd (enforce_stream_budget (cd_limits s) c 0 s)"
  have l: "limits_ok ?l" using s by (simp add: db_ok_def)
  have "stream_within ?l c' ?u" for c'
    using others [of c'] enforce_stream_within [OF s l] within_deletes(1) [OF deletes_stream] by (cases "c' = c") blast+
  then have "stream_within ?l c' (settled_db s c)" for c'
    unfolding settled_db_def using within_deletes(1) [OF deletes_store] by blast
  moreover have "store_within ?l (settled_db s c)"
    unfolding settled_db_def by (rule enforce_store_within [OF deletes_db_ok [OF deletes_stream s] l])
  moreover have "cd_limits (settled_db s c) = ?l" using deletes_fields(3) [OF deletes_settled] .
  ultimately show ?thesis by (simp add: budget_ok_def)
qed

lemma settled_keeps:
  assumes s: "db_ok s" and r: "r \<in> set (cd_messages s)" "\<And>r'. r' \<in> set (cd_messages s) \<Longrightarrow> mr_id r' \<le> mr_id r"
    and b: "row_bytes r \<le> uint (max_bytes_per_stream (cd_limits s))" "row_bytes r \<le> uint (max_bytes (cd_limits s))"
  shows "r \<in> set (cd_messages (settled_db s (mr_channel r)))"
proof -
  let ?u = "snd (enforce_stream_budget (cd_limits s) (mr_channel r) 0 s)"
  have l: "limits_ok (cd_limits s)" using s by (simp add: db_ok_def)
  obtain Q where Q: "cd_messages ?u = filter Q (cd_messages s)" using deletes_rows [OF deletes_stream] .
  have "r \<in> set (cd_messages ?u)" by (rule enforce_stream_keeps [OF s l r b(1)])
  then show ?thesis
    unfolding settled_db_def using r Q
    by (intro enforce_store_keeps [OF deletes_db_ok [OF deletes_stream s] l _ _ b(2)]) auto
qed

section \<open>Fields the messages do not depend on\<close>

lemma db_ok_frame [simp]:
  "db_ok (s\<lparr>cd_event_sequence := x\<rparr>) = db_ok s" "db_ok (s\<lparr>cd_replay_epoch := e\<rparr>) = db_ok s"
  "db_ok (s\<lparr>cd_remote_origins := ro\<rparr>) = db_ok s" "db_ok (s\<lparr>cd_presence := pr\<rparr>) = db_ok s"
  by (simp_all add: db_ok_def counters_exact_def)

lemma stream_head_frame [simp]:
  "stream_head (s\<lparr>cd_event_sequence := x\<rparr>) = stream_head s" "stream_head (s\<lparr>cd_replay_epoch := e\<rparr>) = stream_head s"
  "stream_head (s\<lparr>cd_remote_origins := ro\<rparr>) = stream_head s" "stream_head (s\<lparr>cd_presence := pr\<rparr>) = stream_head s"
  by (simp_all add: fun_eq_iff stream_head_def)

lemma log_ok_frame [simp]:
  "sqlite_log_ok lib (s\<lparr>cd_event_sequence := x\<rparr>) log = sqlite_log_ok lib s log"
  "sqlite_log_ok lib (s\<lparr>cd_replay_epoch := e\<rparr>) log = sqlite_log_ok lib s log"
  "sqlite_log_ok lib (s\<lparr>cd_remote_origins := ro\<rparr>) log = sqlite_log_ok lib s log"
  "sqlite_log_ok lib (s\<lparr>cd_presence := pr\<rparr>) log = sqlite_log_ok lib s log"
  by (simp_all add: sqlite_log_ok_def row_holds_def)

lemma budget_ok_frame [simp]:
  "budget_ok (s\<lparr>cd_event_sequence := x\<rparr>) = budget_ok s" "budget_ok (s\<lparr>cd_replay_epoch := e\<rparr>) = budget_ok s"
  "budget_ok (s\<lparr>cd_remote_origins := ro\<rparr>) = budget_ok s" "budget_ok (s\<lparr>cd_presence := pr\<rparr>) = budget_ok s"
  by (simp_all add: budget_ok_def stream_within_def store_within_def)

section \<open>Appending keeps the invariants and the message\<close>

lemma append_event_ok:
  assumes s: "db_ok s" "sqlite_log_ok lib s log" "budget_ok s"
    and app: "append_event lib epoch now event s = Inr (m, s')" and durable: "\<not> ev_ephemeral event"
  shows "db_ok s'" "sqlite_log_ok lib s' (log @ [(cd_last_rowid s + 1, m)])" "budget_ok s'"
    and "cd_last_rowid s + 1 \<in> mr_id ` set (cd_messages s')" "cd_last_rowid s + 1 \<le> i64_max"
    and "m = (event_message event)\<lparr>m_id := cursor_to_string lib
           (cursor_sqlite lib epoch (ev_channel event) (cd_last_rowid s + 1))\<rparr>"
    and "deletes (inserted lib now event s) s'"
proof -
  let ?t = "inserted lib now event s" and ?c = "ev_channel event"
  let ?r = "event_row lib (cd_last_rowid s + 1) now event"
  have l: "limits_ok (cd_limits s)" using s(1) by (simp add: db_ok_def)
  have full: "cd_last_rowid s \<noteq> i64_max" and s': "s' = settled_db ?t ?c"
    and m: "m = (event_message event)\<lparr>m_id := cursor_to_string lib (cursor_sqlite lib epoch ?c (cd_last_rowid s + 1))\<rparr>"
    and b: "row_bytes ?r \<le> uint (max_bytes_per_stream (cd_limits s))" "row_bytes ?r \<le> uint (max_bytes (cd_limits s))"
    using app unfolding append_event_durable [OF durable l] by (auto simp: event_row_bytes [of lib "cd_last_rowid s + 1"] split: if_splits)
  have t: "db_ok ?t" by (rule db_ok_inserted [OF s(1) full])
  have tl: "sqlite_log_ok lib ?t (log @ [(cd_last_rowid s + 1, m)])"
    by (rule log_ok_inserted [OF s(1,2)]) (simp_all add: m event_message_def)
  have del: "deletes ?t s'" unfolding s' by (rule deletes_settled)
  then show "deletes ?t s'" .
  show "db_ok s'" by (rule deletes_db_ok [OF del t])
  show "sqlite_log_ok lib s' (log @ [(cd_last_rowid s + 1, m)])" by (rule deletes_log_ok [OF del t tl])
  have "stream_within (cd_limits s) c' ?t" if "c' \<noteq> ?c" for c'
    using s(3) that by (simp add: budget_ok_def stream_within_def)
  then show "budget_ok s'" unfolding s' by (intro settled_budget [OF t]) simp
  have "?r \<in> set (cd_messages (settled_db ?t (mr_channel ?r)))"
    using b s(1) by (intro settled_keeps [OF t]) (auto simp: db_ok_def)
  then show "cd_last_rowid s + 1 \<in> mr_id ` set (cd_messages s')" unfolding s' by force
  show "cd_last_rowid s + 1 \<le> i64_max" using full s(1) by (auto simp: db_ok_def)
  show "m = (event_message event)\<lparr>m_id := cursor_to_string lib (cursor_sqlite lib epoch ?c (cd_last_rowid s + 1))\<rparr>"
    by (rule m)
qed

lemma append_event_fields:
  assumes "limits_ok (cd_limits s)" "append_event lib epoch now event s = Inr (m, s')"
  shows "cd_epoch s' = cd_epoch s" "cd_limits s' = cd_limits s" "cd_event_sequence s' = cd_event_sequence s"
    "cd_remote_origins s' = cd_remote_origins s" "cd_replay_epoch s' = cd_replay_epoch s" "cd_presence s' = cd_presence s"
    "m_event_id m = Some (ev_id event)" "m_channel m = ev_channel event"
proof -
  have "cd_epoch s' = cd_epoch s \<and> cd_limits s' = cd_limits s \<and> cd_event_sequence s' = cd_event_sequence s
    \<and> cd_remote_origins s' = cd_remote_origins s \<and> cd_replay_epoch s' = cd_replay_epoch s \<and> cd_presence s' = cd_presence s
    \<and> m_event_id m = Some (ev_id event) \<and> m_channel m = ev_channel event"
  proof (cases "ev_ephemeral event")
    case True
    then show ?thesis using assms(2) by (auto simp: append_event_ephemeral event_message_def)
  next
    case False
    then show ?thesis
      using assms(2) unfolding append_event_durable [OF False assms(1)]
      by (auto simp: deletes_fields [OF deletes_settled] event_message_def split: if_splits)
  qed
  then show "cd_epoch s' = cd_epoch s" "cd_limits s' = cd_limits s" "cd_event_sequence s' = cd_event_sequence s"
    "cd_remote_origins s' = cd_remote_origins s" "cd_replay_epoch s' = cd_replay_epoch s" "cd_presence s' = cd_presence s"
    "m_event_id m = Some (ev_id event)" "m_channel m = ev_channel event" by auto
qed

section \<open>Lifecycle and opening\<close>

lemma lookup_sync:
  "sql_lookup md_channel c (cd_metadata (sync_channel now channel auth s)) = Some md \<Longrightarrow>
     (case sql_lookup md_channel c (cd_metadata s) of
        None \<Rightarrow> md_latest_message_id md = 0 \<and> md_message_count md = 0 \<and> md_message_bytes md = 0
      | Some md0 \<Rightarrow> md_latest_message_id md = md_latest_message_id md0 \<and> md_message_count md = md_message_count md0
           \<and> md_message_bytes md = md_message_bytes md0)"
  unfolding sync_channel_def by (auto simp: lookup_upsert split: option.splits if_splits)

lemma sync_channel_fields [simp]:
  "cd_messages (sync_channel now channel auth s) = cd_messages s"
  "cd_last_rowid (sync_channel now channel auth s) = cd_last_rowid s"
  "cd_epoch (sync_channel now channel auth s) = cd_epoch s"
  "cd_limits (sync_channel now channel auth s) = cd_limits s"
  "cd_event_sequence (sync_channel now channel auth s) = cd_event_sequence s"
  "cd_message_events (sync_channel now channel auth s) = cd_message_events s"
  "cd_remote_origins (sync_channel now channel auth s) = cd_remote_origins s"
  "cd_replay_floor (sync_channel now channel auth s) = cd_replay_floor s"
  "cd_replay_epoch (sync_channel now channel auth s) = cd_replay_epoch s"
  "cd_presence (sync_channel now channel auth s) = cd_presence s"
  "cd_message_count (sync_channel now channel auth s) = cd_message_count s"
  "cd_message_bytes (sync_channel now channel auth s) = cd_message_bytes s"
  by (simp_all add: sync_channel_def)

lemma lookup_sync_None:
  "sql_lookup md_channel c (cd_metadata (sync_channel now channel auth s)) = None \<Longrightarrow>
     sql_lookup md_channel c (cd_metadata s) = None"
  unfolding sync_channel_def by (auto simp: lookup_upsert split: if_splits)

lemma stream_head_sync [simp]: "stream_head (sync_channel now channel auth s) c = stream_head s c"
  using lookup_sync [of c now channel auth s] lookup_sync_None [of c now channel auth s]
  by (auto simp: stream_head_def split: option.splits)

lemma db_ok_sync:
  assumes s: "db_ok s"
  shows "db_ok (sync_channel now channel auth s)"
proof -
  let ?t = "sync_channel now channel auth s"
  have u': "unique_key md_channel (cd_metadata ?t)"
    using s unfolding sync_channel_def db_ok_def by (auto intro: unique_upsert)
  have cnt: "md_message_count md = int (length (channel_rows (md_channel md) (cd_messages s)))
      \<and> md_message_bytes md = total_bytes (channel_rows (md_channel md) (cd_messages s))"
    if "md \<in> set (cd_metadata ?t)" for md
  proof (cases "sql_lookup md_channel (md_channel md) (cd_metadata s)")
    case None
    then show ?thesis using lookup_sync [OF sql_lookup_unique [OF u' that]] no_rows [OF s None] by simp
  next
    case (Some md0)
    then show ?thesis
      using lookup_sync [OF sql_lookup_unique [OF u' that]] stream_counters [OF s Some] by (simp add: channel_rows_def)
  qed
  have "mr_channel r \<in> md_channel ` set (cd_metadata ?t)" if "r \<in> set (cd_messages s)" for r
  proof -
    have "sql_lookup md_channel (mr_channel r) (cd_metadata s) \<noteq> None"
      using that s by (auto simp: db_ok_def sql_lookup_None simp del: not_None_eq)
    then show ?thesis using lookup_sync_None by (metis sql_lookup_None)
  qed
  then show ?thesis
    using s u' cnt unfolding db_ok_def counters_exact_def by simp
qed

lemma log_ok_sync: "sqlite_log_ok lib s log \<Longrightarrow> sqlite_log_ok lib (sync_channel now channel auth s) log"
  by (simp add: sqlite_log_ok_def row_holds_def replay_ok_def)

lemma budget_ok_sync: "budget_ok s \<Longrightarrow> budget_ok (sync_channel now channel auth s)"
  by (simp add: budget_ok_def stream_within_def store_within_def)

lemma ensure_counters_id: "db_ok s \<Longrightarrow> ensure_budget_counters s = s"
  unfolding db_ok_def counters_exact_def ensure_budget_counters_def stream_rows_channel_rows total_bytes_def [symmetric]
  by (simp add: map_idI)

lemma stream_head_ge:
  assumes log: "sqlite_log_ok lib s log" and r: "r \<in> set (cd_messages s)"
  shows "mr_id r \<le> stream_head s (mr_channel r)"
proof -
  obtain m where m: "(mr_id r, m) \<in> set log" "row_holds lib s r m"
    and head: "stream_head s (mr_channel r) = log_head log (mr_channel r)"
    using log r by (auto simp: sqlite_log_ok_def replay_ok_def)
  then have "mr_id r \<in> set (map fst (filter (in_stream (mr_channel r)) log))"
    by (force simp: in_stream_def row_holds_def)
  then show ?thesis unfolding head log_head_def by (rule max_or_zero_ge)
qed

lemma heads_id:
  assumes s: "db_ok s" and log: "sqlite_log_ok lib s log"
  shows "map (\<lambda>md. md\<lparr>md_latest_message_id := max (md_latest_message_id md)
     (max_or_zero (map mr_id (stream_rows s (md_channel md))))\<rparr>) (cd_metadata s) = cd_metadata s"
proof (rule map_idI)
  fix md
  assume md: "md \<in> set (cd_metadata s)"
  have "sql_lookup md_channel (md_channel md) (cd_metadata s) = Some md"
    using s md unfolding db_ok_def by (blast intro: sql_lookup_unique)
  then have head: "stream_head s (md_channel md) = md_latest_message_id md" by (simp add: stream_head_def)
  have "0 \<le> md_latest_message_id md"
    using log log_head_nonneg [of log "md_channel md"] unfolding head [symmetric]
    by (auto simp: sqlite_log_ok_def replay_ok_def)
  then have "max_or_zero (map mr_id (stream_rows s (md_channel md))) \<le> md_latest_message_id md"
    using max_or_zero_in [of "map mr_id (stream_rows s (md_channel md))"] stream_head_ge [OF log] head
    by (fastforce simp: stream_rows_def)
  then show "md\<lparr>md_latest_message_id := max (md_latest_message_id md)
     (max_or_zero (map mr_id (stream_rows s (md_channel md))))\<rparr> = md" by (simp add: max_absorb1)
qed

lemma limits_ok_default: "limits_ok default_limits"
  by (simp add: limits_ok_def validate_limits_def default_limits_def i64_max_def)

lemma new_database_ok:
  "db_ok (new_database random)" "sqlite_log_ok lib (new_database random) []" "budget_ok (new_database random)"
proof -
  have "stream_head (new_database random) = (\<lambda>_. 0)" "value_or_zero [] = (\<lambda>_ :: string. 0)"
    by (simp_all add: fun_eq_iff stream_head_def new_database_def value_or_zero_def)
  then show "sqlite_log_ok lib (new_database random) []"
    using replay_ok_Nil by (simp add: sqlite_log_ok_def new_database_def)
  show "db_ok (new_database random)"
    by (simp add: db_ok_def new_database_def counters_exact_def limits_ok_default i64_max_def)
  show "budget_ok (new_database random)"
    by (simp add: budget_ok_def stream_within_def store_within_def new_database_def)
qed

text \<open>Opening an existing file only changes the limits and prunes.\<close>

definition relimited :: "replay_limits option \<Rightarrow> channel_db \<Rightarrow> channel_db" where
  "relimited limits s = (case limits of None \<Rightarrow> s | Some l \<Rightarrow> s\<lparr>cd_limits := l\<rparr>)"

lemma init_connection_eq:
  assumes "case file of None \<Rightarrow> s = new_database random
    | Some s' \<Rightarrow> s = s' \<and> db_ok s \<and> sqlite_log_ok lib s log"
  shows "init_connection limits random now file =
    and_then (load_limits (relimited limits s)) (\<lambda>l.
      Inr (cd_epoch (snd (prune_replay l now (relimited limits s))), snd (prune_replay l now (relimited limits s))))"
proof (cases "file")
  case None
  then show ?thesis
    using assms ensure_counters_id [OF new_database_ok(1)]
    by (cases limits) (simp_all add: init_connection_def relimited_def Let_def)
next
  case (Some s')
  then have s: "s' = s" "db_ok s" "sqlite_log_ok lib s log" using assms by auto
  have "s\<lparr>cd_metadata := map (\<lambda>md. md\<lparr>md_latest_message_id := max (md_latest_message_id md)
     (max_or_zero (map mr_id (stream_rows s (md_channel md))))\<rparr>) (cd_metadata s)\<rparr> = s"
    unfolding heads_id [OF s(2,3)] by simp
  moreover have "ensure_budget_counters s = s" by (rule ensure_counters_id [OF s(2)])
  ultimately show ?thesis
    by (cases limits) (simp_all add: Some s init_connection_def relimited_def Let_def)
qed

lemma open_store_ok:
  assumes start: "case file of None \<Rightarrow> s = new_database random \<and> log = []
      | Some s' \<Rightarrow> s = s' \<and> db_ok s \<and> sqlite_log_ok lib s log"
    and opened: "open_store limits random now file = Inr (e, s')"
  shows "db_ok s'" "sqlite_log_ok lib s' log" "budget_ok s'" "e = cd_epoch s'" "deletes (relimited limits s) s'"
proof -
  let ?u = "relimited limits s"
  have s: "db_ok s" "sqlite_log_ok lib s log" using start new_database_ok by (auto split: option.splits)
  have init: "init_connection limits random now file = Inr (e, s')"
    using opened by (auto simp: open_store_def and_then_Inr dest: limits_okI split: option.splits)
  then obtain l where l: "load_limits ?u = Inr l" and s': "s' = snd (prune_replay l now ?u)" and e: "e = cd_epoch s'"
    using start by (subst (asm) init_connection_eq [where s = s and lib = lib and log = log]) (auto simp: and_then_Inr split: option.splits)
  have lok: "l = cd_limits ?u" "limits_ok (cd_limits ?u)" using l limits_okI by (auto simp: load_limits_def)
  have u: "db_ok ?u" using s(1) lok(2)
    by (auto simp: relimited_def db_ok_def counters_exact_def split: option.splits)
  have ul: "sqlite_log_ok lib ?u log" using s(2)
    by (auto simp: relimited_def sqlite_log_ok_def row_holds_def stream_head_def [abs_def] split: option.splits)
  show del: "deletes ?u s'" unfolding s' by (rule deletes_prune_replay)
  show "db_ok s'" by (rule deletes_db_ok [OF del u])
  show "sqlite_log_ok lib s' log" by (rule deletes_log_ok [OF del u ul])
  show "budget_ok s'" unfolding s' by (rule prune_replay_budget [OF u]) (simp add: lok)
  show "e = cd_epoch s'" by (rule e)
qed

section \<open>Reading\<close>

text \<open>When a row is too old to be replayed, whether or not it has been deleted yet.\<close>

definition row_expired :: "int \<Rightarrow> channel_db \<Rightarrow> message_row \<Rightarrow> bool" where
  "row_expired now s r =
     (max_age_ms (cd_limits s) > 0 \<and> mr_created_at r < now - uint (max_age_ms (cd_limits s))
      \<or> (case sql_lookup md_channel (mr_channel r) (cd_metadata s) of
           None \<Rightarrow> False
         | Some md \<Rightarrow>
             md_replay_window_ms md > 0 \<and> mr_created_at r < now - md_replay_window_ms md
             \<or> md_inactivity_ttl_ms md > 0 \<and> md_last_activity md < now - md_inactivity_ttl_ms md))"

lemma max_or_zero_le: "0 \<le> y \<Longrightarrow> max_or_zero xs \<le> y \<longleftrightarrow> (\<forall>x\<in>set xs. x \<le> y)"
  by (auto simp: max_or_zero_Max)

lemma expired_floor_rows:
  assumes "limits_ok (cd_limits s)"
  shows "expired_floor s (cd_limits s) c now =
    max_or_zero (map mr_id (filter (\<lambda>r. mr_channel r = c \<and> row_expired now s r) (cd_messages s)))"
proof -
  have cut: "row_expired now s r \<longleftrightarrow>
      (case age_cutoff_of (cd_limits s) (stream_lifecycle s c) now of
         None \<Rightarrow> False | Some Everything \<Rightarrow> True | Some (Before t) \<Rightarrow> mr_created_at r < t)" if "mr_channel r = c" for r
    using that limits_ok_bounds(9) [OF assms]
    by (cases "sql_lookup md_channel c (cd_metadata s)")
       (auto simp: row_expired_def age_cutoff_of_def stream_lifecycle_def lifecycle_of_def Let_def)
  have "filter (\<lambda>r. mr_channel r = c \<and> row_expired now s r) (cd_messages s) =
    filter (\<lambda>r. mr_channel r = c \<and> (case age_cutoff_of (cd_limits s) (stream_lifecycle s c) now of
         None \<Rightarrow> False | Some Everything \<Rightarrow> True | Some (Before t) \<Rightarrow> mr_created_at r < t)) (cd_messages s)"
    by (rule filter_cong) (auto simp: cut)
  then show ?thesis
    by (simp add: expired_floor_def max_or_zero_def split: option.splits age_cutoff.splits)
qed

lemma expired_floor_le:
  assumes "limits_ok (cd_limits s)" "0 \<le> pos"
  shows "expired_floor s (cd_limits s) c now \<le> pos \<longleftrightarrow>
    (\<forall>r\<in>set (cd_messages s). mr_channel r = c \<and> pos < mr_id r \<longrightarrow> \<not> row_expired now s r)"
  unfolding expired_floor_rows [OF assms(1)] max_or_zero_le [OF assms(2)] by (force simp: not_less)

definition shown :: "'v channel_lib \<Rightarrow> bytes \<Rightarrow> int \<times> 'v channel_message \<Rightarrow> 'v channel_message" where
  "shown lib epoch x = (snd x)\<lparr>m_id :=
     cursor_to_string lib (cursor_sqlite lib epoch (m_channel (snd x)) (fst x))\<rparr>"

lemma message_of_row_shown:
  assumes "lib_ok lib" "row_holds lib s r m" "mr_channel r = c"
  shows "message_of_row lib s c r = Inr (shown lib (cd_replay_epoch s) (mr_id r, m))"
proof -
  have "json_value lib (mr_data_json r) = Some (m_data m)"
    using assms(1,2) unfolding lib_ok_def row_holds_def by metis
  then show ?thesis
    using assms(2,3) by (cases m) (simp add: message_of_row_def shown_def row_holds_def)
qed

text \<open>The rows above a position and the log above it are the same messages, if none is missing.\<close>

lemma rows_after_log:
  assumes s: "db_ok s" and log: "sqlite_log_ok lib s log"
    and all: "\<forall>x\<in>set (log_after log c pos). fst x \<in> mr_id ` set (cd_messages s)"
  shows "map mr_id (filter (\<lambda>r. mr_channel r = c \<and> pos < mr_id r) (cd_messages s)) = map fst (log_after log c pos)"
proof (rule strict_sorted_equal)
  have sorted: "sorted_wrt (<) (map fst log)"
    and rows: "\<And>r. r \<in> set (cd_messages s) \<Longrightarrow> \<exists>m. (mr_id r, m) \<in> set log \<and> row_holds lib s r m"
    using log by (auto simp: sqlite_log_ok_def replay_ok_def)
  show "sorted_wrt (<) (map mr_id (filter (\<lambda>r. mr_channel r = c \<and> pos < mr_id r) (cd_messages s)))"
    using s unfolding db_ok_def by (blast intro: sorted_lt_filter)
  show "sorted_wrt (<) (map fst (log_after log c pos))" by (rule log_after_unique [OF sorted])
  show "set (map mr_id (filter (\<lambda>r. mr_channel r = c \<and> pos < mr_id r) (cd_messages s))) = set (map fst (log_after log c pos))"
  proof (intro set_eqI iffI)
    fix i assume "i \<in> set (map mr_id (filter (\<lambda>r. mr_channel r = c \<and> pos < mr_id r) (cd_messages s)))"
    then obtain r where "r \<in> set (cd_messages s)" "mr_channel r = c" "pos < mr_id r" "i = mr_id r" by auto
    moreover then obtain m where "(mr_id r, m) \<in> set log" "row_holds lib s r m" using rows by blast
    ultimately show "i \<in> set (map fst (log_after log c pos))"
      by (force simp: log_after_def in_stream_def row_holds_def)
  next
    fix i assume "i \<in> set (map fst (log_after log c pos))"
    then obtain x where x: "x \<in> set (log_after log c pos)" "i = fst x" by auto
    then obtain r where r: "r \<in> set (cd_messages s)" "mr_id r = i" using all by force
    then obtain m where m: "(mr_id r, m) \<in> set log" "row_holds lib s r m" using rows by blast
    have "x = (mr_id r, m)" by (rule log_unique [OF sorted _ m(1)]) (use x r in \<open>auto simp: log_after_def\<close>)
    then have "mr_channel r = c" "pos < mr_id r" using x m by (auto simp: log_after_def in_stream_def row_holds_def)
    then show "i \<in> set (map mr_id (filter (\<lambda>r. mr_channel r = c \<and> pos < mr_id r) (cd_messages s)))"
      using r by auto
  qed
qed

definition replayable :: "int \<Rightarrow> channel_db \<Rightarrow> int \<times> 'v channel_message \<Rightarrow> bool" where
  "replayable now s x = (\<exists>r\<in>set (cd_messages s). mr_id r = fst x \<and> \<not> row_expired now s r)"

definition cursor_current :: "'v channel_lib \<Rightarrow> channel_db \<Rightarrow> string \<Rightarrow> replay_cursor \<Rightarrow> bool" where
  "cursor_current lib s c cur = (c_scope cur = Some (cd_replay_epoch s, take 16 (sha256 lib c)))"

text \<open>The floors a cursor is compared with say exactly that everything after it can be replayed.\<close>

lemma floors_replayable:
  assumes s: "db_ok s" and log: "sqlite_log_ok lib s log" and pos: "0 \<le> pos"
  shows "value_or_zero (cd_replay_floor s) c \<le> pos \<and> expired_floor s (cd_limits s) c now \<le> pos \<longleftrightarrow>
    (\<forall>x\<in>set (log_after log c pos). replayable now s x)"
proof -
  have l: "limits_ok (cd_limits s)" using s by (simp add: db_ok_def)
  have rep: "replay_ok log (mr_id ` set (cd_messages s)) (value_or_zero (cd_replay_floor s)) (stream_head s)"
    using log by (simp add: sqlite_log_ok_def)
  have kept: "value_or_zero (cd_replay_floor s) c \<le> pos \<longleftrightarrow>
      (\<forall>x\<in>set (log_after log c pos). fst x \<in> mr_id ` set (cd_messages s))"
    by (rule replay_ok_window [OF rep pos])
  have inj: "inj_on mr_id (set (cd_messages s))"
    using s unfolding db_ok_def by (blast intro: sorted_lt_inj)
  show ?thesis
  proof (cases "\<forall>x\<in>set (log_after log c pos). fst x \<in> mr_id ` set (cd_messages s)")
    case False
    moreover have "fst x \<in> mr_id ` set (cd_messages s)" if "replayable now s x" for x :: "int \<times> 'a channel_message"
      using that by (auto simp: replayable_def intro: rev_image_eqI)
    ultimately show ?thesis using kept by blast
  next
    case True
    have ids: "map mr_id (filter (\<lambda>r. mr_channel r = c \<and> pos < mr_id r) (cd_messages s)) = map fst (log_after log c pos)"
      by (rule rows_after_log [OF s log True])
    have "(\<forall>r\<in>set (cd_messages s). mr_channel r = c \<and> pos < mr_id r \<longrightarrow> \<not> row_expired now s r) \<longleftrightarrow>
        (\<forall>i\<in>set (map mr_id (filter (\<lambda>r. mr_channel r = c \<and> pos < mr_id r) (cd_messages s))).
          \<exists>r\<in>set (cd_messages s). mr_id r = i \<and> \<not> row_expired now s r)"
      using inj by (auto simp: inj_on_def) metis
    then show ?thesis
      unfolding ids using True kept expired_floor_le [OF l pos] by (auto simp: replayable_def)
  qed
qed

lemma read_after_cursor:
  assumes lib: "lib_ok lib" and s: "db_ok s" and log: "sqlite_log_ok lib s log" and pos: "0 \<le> c_position cur"
  shows "read_after lib now c (Some cur) limit s =
    (if cursor_current lib s c cur \<and> c_position cur \<le> log_head log c
        \<and> (\<forall>x\<in>set (log_after log c (c_position cur)). replayable now s x)
     then Inr (map (shown lib (cd_replay_epoch s)) (take (unat limit) (log_after log c (c_position cur))))
     else Inl StaleCursor)"
proof -
  let ?pos = "c_position cur" and ?fl = "value_or_zero (cd_replay_floor s) c"
  let ?ex = "expired_floor s (cd_limits s) c now" and ?L = "log_after log c (c_position cur)"
  have lim: "load_limits s = Inr (cd_limits s)" using s by (simp add: db_ok_def limits_ok_def load_limits_def)
  have head: "stream_head s c = log_head log c" using log by (simp add: sqlite_log_ok_def replay_ok_def)
  note floors = floors_replayable [OF s log pos, of c now]
  show ?thesis
  proof (cases "cursor_current lib s c cur \<and> ?pos \<le> log_head log c \<and> (\<forall>x\<in>set ?L. replayable now s x)")
    case True
    then have ok: "?fl \<le> ?pos" "?ex \<le> ?pos" using floors by auto
    let ?rows = "filter (\<lambda>r. mr_channel r = c \<and> ?pos < mr_id r) (cd_messages s)"
    have ids: "map mr_id ?rows = map fst ?L"
      by (rule rows_after_log [OF s log]) (use True in \<open>force simp: replayable_def\<close>)
    have "sort_key mr_id ?rows = ?rows"
      using s unfolding db_ok_def by (blast intro: sorted_lt_sort_key sorted_lt_filter)
    moreover have "map (message_of_row lib s c) (take (unat limit) ?rows) =
        map (\<lambda>x. Inr (shown lib (cd_replay_epoch s) x)) (take (unat limit) ?L)"
    proof (rule map_cong2 [where f = mr_id and g = fst])
      show "map mr_id (take (unat limit) ?rows) = map fst (take (unat limit) ?L)"
        using ids by (simp add: take_map [symmetric])
      fix r x
      assume rx: "r \<in> set (take (unat limit) ?rows)" "x \<in> set (take (unat limit) ?L)" "mr_id r = fst x"
      have r: "r \<in> set (cd_messages s)" "mr_channel r = c" using rx(1) by (auto dest: in_set_takeD)
      obtain m where m: "(mr_id r, m) \<in> set log" "row_holds lib s r m"
        using log r(1) by (auto simp: sqlite_log_ok_def)
      have "x = (mr_id r, m)"
        by (rule log_unique [OF _ _ m(1)])
           (use rx log in \<open>auto simp: sqlite_log_ok_def replay_ok_def log_after_def dest: in_set_takeD\<close>)
      then show "message_of_row lib s c r = Inr (shown lib (cd_replay_epoch s) x)"
        using message_of_row_shown [OF lib m(2) r(2)] by simp
    qed
    ultimately show ?thesis
      using True ok by (simp add: read_after_def lim check_cursor_def validate_cursor_def cursor_sqlite_def
          cursor_current_def head max_absorb1 collect_results_Inr Let_def del: max_less_iff_conj)
  next
    case False
    then have "\<not> (cursor_current lib s c cur \<and> ?pos \<le> log_head log c \<and> ?fl \<le> ?pos \<and> ?ex \<le> ?pos)"
      using floors by blast
    then show ?thesis
      unfolding if_not_P [OF False]
      by (auto simp: read_after_def lim check_cursor_def validate_cursor_def cursor_sqlite_def
          cursor_current_def head and_then_def Let_def)
  qed
qed

end
