(* ===== verification/Channel_History.thy ===== *)
theory Channel_History
  imports Channel_Sqlite_Replay
begin

text \<open>
  Histories of a SQLite channel file.  The transactions of all its writers are executed one
  after the other, as the database serialises them; a history pairs the database with the log
  of the durable messages they returned, each with the position its id carries.  A handle's
  own epoch is that of the file, which never changes after the file was created.  Operations
  that fail leave the history as it is.
\<close>

section \<open>Operations\<close>

record 'v history =
  h_db :: channel_db
  h_log :: "'v log"

datatype 'v channel_op =
    Publish int string "'v publish_payload" bool
  | Ingest int bytes "'v channel_event"
  | Invalidate bytes
  | Sync int string auth_response
  | Prune int
  | Reopen "replay_limits option" bytes int
  | Update_presence string string string string int
  | Remove_presence string string

text \<open>The position subscribers are woken with: that of the id, if it is a cursor.\<close>

definition message_position :: "'v channel_lib \<Rightarrow> 'v channel_message \<Rightarrow> int option" where
  "message_position lib m = (case cursor_from_str lib (m_id m) of Inl _ \<Rightarrow> None | Inr c \<Rightarrow> Some (c_position c))"

definition logged :: "'v channel_lib \<Rightarrow> 'v channel_message \<Rightarrow> 'v log \<Rightarrow> 'v log" where
  "logged lib m log = (case message_position lib m of None \<Rightarrow> log | Some p \<Rightarrow> log @ [(p, m)])"

fun channel_exec :: "'v channel_lib \<Rightarrow> 'v channel_op \<Rightarrow> 'v history \<Rightarrow> 'v history" where
  "channel_exec lib (Publish now channel payload ephemeral) h =
     (case publish lib (cd_epoch (h_db h)) now channel payload ephemeral (h_db h) of
        Inl _ \<Rightarrow> h
      | Inr ((m, _), s) \<Rightarrow> \<lparr>h_db = s, h_log = logged lib m (h_log h)\<rparr>)"
| "channel_exec lib (Ingest now random event) h =
     (case ingest_remote lib (cd_epoch (h_db h)) now random event (h_db h) of
        Inr ((Some m, _), s) \<Rightarrow> \<lparr>h_db = s, h_log = logged lib m (h_log h)\<rparr>
      | _ \<Rightarrow> h)"
| "channel_exec lib (Invalidate random) h = h\<lparr>h_db := invalidate_replay random (h_db h)\<rparr>"
| "channel_exec lib (Sync now channel auth) h = h\<lparr>h_db := sync_channel now channel auth (h_db h)\<rparr>"
| "channel_exec lib (Prune now) h =
     (case prune now (h_db h) of Inl _ \<Rightarrow> h | Inr s \<Rightarrow> h\<lparr>h_db := s\<rparr>)"
| "channel_exec lib (Reopen limits random now) h =
     (case open_store limits random now (Some (h_db h)) of Inl _ \<Rightarrow> h | Inr (_, s) \<Rightarrow> h\<lparr>h_db := s\<rparr>)"
| "channel_exec lib (Update_presence channel connection_id data encoded now) h =
     (case update_presence channel connection_id data encoded now (h_db h) of
        Inl _ \<Rightarrow> h | Inr s \<Rightarrow> h\<lparr>h_db := s\<rparr>)"
| "channel_exec lib (Remove_presence channel connection_id) h =
     h\<lparr>h_db := remove_presence channel connection_id (h_db h)\<rparr>"

definition channel_run :: "'v channel_lib \<Rightarrow> 'v channel_op list \<Rightarrow> 'v history \<Rightarrow> 'v history" where
  "channel_run lib ops h = fold (channel_exec lib) ops h"

text \<open>The generator fills arrays of sixteen bytes.\<close>

fun random_ok :: "'v channel_op \<Rightarrow> bool" where
  "random_ok (Ingest now random event) = (length random = 16)"
| "random_ok (Invalidate random) = (length random = 16)"
| "random_ok _ = True"

text \<open>A new file, opened with the given limits.\<close>

definition new_history :: "replay_limits option \<Rightarrow> bytes \<Rightarrow> int \<Rightarrow> channel_error + 'v history" where
  "new_history limits random now =
     and_then (open_store limits random now None) (\<lambda>(_, s). Inr \<lparr>h_db = s, h_log = []\<rparr>)"

inductive reachable :: "'v channel_lib \<Rightarrow> 'v history \<Rightarrow> bool" for lib where
  reachable_new: "length random = 16 \<Longrightarrow> new_history limits random now = Inr h \<Longrightarrow> reachable lib h"
| reachable_exec: "reachable lib h \<Longrightarrow> random_ok op \<Longrightarrow> reachable lib (channel_exec lib op h)"

lemma reachable_run: "reachable lib h \<Longrightarrow> list_all random_ok ops \<Longrightarrow> reachable lib (channel_run lib ops h)"
  by (induction ops arbitrary: h) (simp_all add: channel_run_def reachable_exec)

section \<open>Event identities\<close>

definition event_of :: "int \<times> 'v channel_message \<Rightarrow> event_id" where
  "event_of x = the (m_event_id (snd x))"

text \<open>The last sequence number taken for an origin: the file's own counter or the one recorded.\<close>

definition taken :: "'v channel_lib \<Rightarrow> channel_db \<Rightarrow> string \<Rightarrow> int" where
  "taken lib s origin =
     (if origin = b64_encode lib (cd_epoch s) then cd_event_sequence s else value_or_zero (cd_remote_origins s) origin)"

definition identities_ok :: "'v channel_lib \<Rightarrow> channel_db \<Rightarrow> 'v log \<Rightarrow> bool" where
  "identities_ok lib s log =
     ((\<forall>x\<in>set log. m_event_id (snd x) \<noteq> None \<and> ei_sequence (event_of x) \<le> taken lib s (ei_origin (event_of x)))
      \<and> sorted_wrt (\<lambda>x y. ei_origin (event_of x) = ei_origin (event_of y)
            \<longrightarrow> ei_sequence (event_of x) < ei_sequence (event_of y)) log)"

definition history_ok :: "'v channel_lib \<Rightarrow> 'v history \<Rightarrow> bool" where
  "history_ok lib h =
     (db_ok (h_db h) \<and> sqlite_log_ok lib (h_db h) (h_log h) \<and> budget_ok (h_db h)
      \<and> length (cd_replay_epoch (h_db h)) = 16 \<and> identities_ok lib (h_db h) (h_log h))"

lemma identities_append:
  assumes "identities_ok lib s log" "m_event_id m = Some e"
    and "\<And>o'. taken lib s' o' = (if o' = ei_origin e then ei_sequence e else taken lib s o')"
    and "taken lib s (ei_origin e) < ei_sequence e"
  shows "identities_ok lib s' (log @ [(p, m)])"
  using assms by (fastforce simp: identities_ok_def event_of_def sorted_wrt_append)

lemma identities_raise:
  assumes "identities_ok lib s log" "\<And>o'. taken lib s o' \<le> taken lib s' o'"
  shows "identities_ok lib s' log"
  using assms unfolding identities_ok_def by (meson order_trans)

lemma identities_frame:
  assumes "cd_epoch s' = cd_epoch s" "cd_event_sequence s' = cd_event_sequence s"
    "cd_remote_origins s' = cd_remote_origins s"
  shows "identities_ok lib s' log = identities_ok lib s log"
  by (simp add: identities_ok_def taken_def assms)

lemma history_frame:
  assumes "history_ok lib h" "db_ok s'" "sqlite_log_ok lib s' (h_log h)" "budget_ok s'" "length (cd_replay_epoch s') = 16"
    "cd_epoch s' = cd_epoch (h_db h)" "cd_event_sequence s' = cd_event_sequence (h_db h)"
    "cd_remote_origins s' = cd_remote_origins (h_db h)"
  shows "history_ok lib (h\<lparr>h_db := s'\<rparr>)"
  using assms identities_frame [OF assms(6-8), of lib "h_log h"] by (simp add: history_ok_def)

lemma history_okD:
  assumes "history_ok lib h"
  shows "db_ok (h_db h)" "sqlite_log_ok lib (h_db h) (h_log h)" "budget_ok (h_db h)"
    "length (cd_replay_epoch (h_db h)) = 16" "identities_ok lib (h_db h) (h_log h)"
  using assms by (simp_all add: history_ok_def)

section \<open>Every operation keeps the invariant\<close>

lemma db_ok_limits: "db_ok s \<Longrightarrow> limits_ok (cd_limits s)"
  by (simp add: db_ok_def)

lemma position_sqlite:
  assumes "lib_ok lib" "length epoch = 16" "0 \<le> p" "p \<le> i64_max"
  shows "cursor_from_str lib (cursor_to_string lib (cursor_sqlite lib epoch c p)) = Inr (cursor_sqlite lib epoch c p)"
proof (rule cursor_parse_show [OF assms(1)])
  show "cursor_ok (cursor_sqlite lib epoch c p)"
    using assms by (simp add: cursor_ok_def cursor_sqlite_def lib_ok_def)
qed

lemma cursor_from_str_empty: "cursor_from_str lib [] = Inl invalid_cursor"
  by (simp add: cursor_from_str_def strip_prefix_def starts_with_def parse_i64_def parse_digits_def)

text \<open>What an appended event does to a history, for local and remote events.\<close>

lemma history_append:
  assumes lib: "lib_ok lib"
    and s: "db_ok s" "sqlite_log_ok lib s log" "budget_ok s" "length (cd_replay_epoch s) = 16"
    and ids: "identities_ok lib s0 log"
    and app: "append_event lib (cd_replay_epoch s) now event s = Inr (m, s1)"
    and s': "db_ok s' = db_ok s1" "\<And>log. sqlite_log_ok lib s' log = sqlite_log_ok lib s1 log"
      "budget_ok s' = budget_ok s1" "cd_replay_epoch s' = cd_replay_epoch s1"
    and taken: "\<And>o'. taken lib s' o' = (if o' = ei_origin (ev_id event) then ei_sequence (ev_id event) else taken lib s0 o')"
      "taken lib s0 (ei_origin (ev_id event)) < ei_sequence (ev_id event)"
  shows "history_ok lib \<lparr>h_db = s', h_log = logged lib m log\<rparr>"
proof -
  have l: "limits_ok (cd_limits s)" using s(1) by (simp add: db_ok_def)
  note fields = append_event_fields [OF l app]
  show ?thesis
  proof (cases "ev_ephemeral event")
    case True
    then have m: "m = event_message event" "s1 = s" using app by (auto simp: append_event_ephemeral)
    have "logged lib m log = log"
      by (simp add: m logged_def message_position_def event_message_def cursor_from_str_empty)
    moreover have "identities_ok lib s' log"
      by (rule identities_raise [OF ids]) (use taken in \<open>auto simp: less_imp_le\<close>)
    ultimately show ?thesis using s s' m(2) by (simp add: history_ok_def)
  next
    case False
    note ok = append_event_ok [OF s(1-3) app False]
    have "message_position lib m = Some (cd_last_rowid s + 1)"
      using position_sqlite [OF lib s(4), of "cd_last_rowid s + 1" "ev_channel event"] ok(5,6) s(1)
      by (simp add: message_position_def db_ok_def cursor_sqlite_def)
    then have "logged lib m log = log @ [(cd_last_rowid s + 1, m)]" by (simp add: logged_def)
    moreover have "identities_ok lib s' (log @ [(cd_last_rowid s + 1, m)])"
      by (rule identities_append [OF ids fields(7)]) (use taken in auto)
    ultimately show ?thesis using ok(1-3) s s' fields(5) by (simp add: history_ok_def)
  qed
qed

lemma publish_ok:
  assumes lib: "lib_ok lib" and h: "history_ok lib h"
    and pub: "publish lib (cd_epoch (h_db h)) now channel payload ephemeral (h_db h) = Inr ((m, e), s')"
  shows "history_ok lib \<lparr>h_db = s', h_log = logged lib m (h_log h)\<rparr>"
proof -
  let ?s = "(h_db h)\<lparr>cd_event_sequence := cd_event_sequence (h_db h) + 1\<rparr>"
  have app: "append_event lib (cd_replay_epoch ?s) now e ?s = Inr (m, s')"
    and e: "ev_id e = \<lparr>ei_origin = b64_encode lib (cd_epoch (h_db h)), ei_sequence = cd_event_sequence (h_db h) + 1\<rparr>"
    using pub by (auto simp: publish_def and_then_Inr Let_def split: if_splits)
  have s: "db_ok ?s" "sqlite_log_ok lib ?s (h_log h)" "budget_ok ?s" "length (cd_replay_epoch ?s) = 16"
    "limits_ok (cd_limits ?s)" and ids: "identities_ok lib (h_db h) (h_log h)"
    using h by (simp_all add: history_ok_def db_ok_limits)
  note fields = append_event_fields [OF s(5) app]
  show ?thesis
    by (rule history_append [OF lib s(1-4) ids app refl refl refl refl]) (auto simp: taken_def fields e)
qed

lemma ingest_ok:
  assumes lib: "lib_ok lib" and h: "history_ok lib h" and r: "length random = 16"
    and ing: "ingest_remote lib (cd_epoch (h_db h)) now random event (h_db h) = Inr ((Some m, gap), s')"
  shows "history_ok lib \<lparr>h_db = s', h_log = logged lib m (h_log h)\<rparr>"
proof -
  let ?o = "ei_origin (ev_id event)" and ?n = "ei_sequence (ev_id event)"
  let ?s = "if gap then (h_db h)\<lparr>cd_replay_epoch := random\<rparr> else h_db h"
  obtain s1 where app: "append_event lib (cd_replay_epoch ?s) now event ?s = Inr (m, s1)"
    and s': "s' = s1\<lparr>cd_remote_origins := sql_upsert fst (\<lambda>(c, _). (c, ?n)) (?o, ?n) (cd_remote_origins s1)\<rparr>"
    and other: "?o \<noteq> b64_encode lib (cd_epoch (h_db h))" and new: "value_or_zero (cd_remote_origins (h_db h)) ?o < ?n"
    using ing by (fastforce simp: ingest_remote_def and_then_Inr rotate_replay_epoch_def Let_def split: if_splits)
  have s: "db_ok ?s" "sqlite_log_ok lib ?s (h_log h)" "budget_ok ?s" "length (cd_replay_epoch ?s) = 16"
    "limits_ok (cd_limits ?s)" and ids: "identities_ok lib (h_db h) (h_log h)"
    using h r by (simp_all add: history_ok_def db_ok_limits)
  note fields = append_event_fields [OF s(5) app]
  have up: "value_or_zero (sql_upsert fst (\<lambda>(c, _). (c, ?n)) (?o, ?n) t) o' =
      (if o' = ?o then ?n else value_or_zero t o')" for t o'
    by (subst value_or_zero_upsert) (auto split: option.splits)
  show ?thesis
    by (rule history_append [OF lib s(1-4) ids app]) (use other new in \<open>auto simp: s' taken_def fields up\<close>)
qed

lemma prune_ok:
  assumes h: "history_ok lib h" and pr: "prune now (h_db h) = Inr s'"
  shows "history_ok lib (h\<lparr>h_db := s'\<rparr>)"
proof -
  let ?s = "(h_db h)\<lparr>cd_presence := sql_delete (\<lambda>p. pr_expires_at p \<le> now) (cd_presence (h_db h))\<rparr>"
  obtain l where s': "s' = snd (prune_replay l now ?s)"
    using pr by (auto simp: prune_def and_then_Inr Let_def)
  have del: "deletes ?s s'" unfolding s' by (rule deletes_prune_replay)
  show ?thesis
    using history_okD [OF h] deletes_db_ok [OF del] deletes_log_ok [OF del, of lib "h_log h"] budget_ok_deletes [OF del]
    by (intro history_frame [OF h]) (simp_all add: deletes_fields [OF del])
qed

lemma reopen_ok:
  assumes h: "history_ok lib h" and op: "open_store limits random now (Some (h_db h)) = Inr (e, s')"
  shows "history_ok lib (h\<lparr>h_db := s'\<rparr>)"
proof -
  note ok = open_store_ok [where s = "h_db h" and lib = lib and log = "h_log h", OF _ op]
  have st: "case Some (h_db h) of None \<Rightarrow> h_db h = new_database random \<and> h_log h = []
      | Some s' \<Rightarrow> h_db h = s' \<and> db_ok (h_db h) \<and> sqlite_log_ok lib (h_db h) (h_log h)"
    using h by (simp add: history_ok_def)
  note ok = ok [OF st]
  have "cd_epoch (relimited limits (h_db h)) = cd_epoch (h_db h)"
    "cd_event_sequence (relimited limits (h_db h)) = cd_event_sequence (h_db h)"
    "cd_remote_origins (relimited limits (h_db h)) = cd_remote_origins (h_db h)"
    "cd_replay_epoch (relimited limits (h_db h)) = cd_replay_epoch (h_db h)"
    by (simp_all add: relimited_def split: option.split)
  then show ?thesis
    using history_okD(4) [OF h] ok(1-3) by (intro history_frame [OF h]) (simp_all add: deletes_fields [OF ok(5)])
qed

lemma new_history_ok:
  assumes "length random = 16" "new_history limits random now = Inr h"
  shows "history_ok lib h"
proof -
  obtain e where op: "open_store limits random now None = Inr (e, h_db h)" and log: "h_log h = []"
    using assms(2) by (auto simp: new_history_def and_then_Inr)
  have "case None of None \<Rightarrow> new_database random = new_database random \<and> ([] :: 'v log) = []
      | Some s' \<Rightarrow> new_database random = s' \<and> db_ok (new_database random) \<and> sqlite_log_ok lib (new_database random) []"
    by simp
  note ok = open_store_ok [OF this op]
  have "cd_replay_epoch (h_db h) = random"
    using deletes_fields(6) [OF ok(5)] by (simp add: relimited_def new_database_def split: option.splits)
  then show ?thesis
    using ok(1-3) assms(1) by (simp add: history_ok_def log identities_ok_def)
qed

theorem exec_ok:
  assumes "lib_ok lib" "history_ok lib h" "random_ok op"
  shows "history_ok lib (channel_exec lib op h)"
proof (cases op)
  case (Publish now channel payload ephemeral)
  then show ?thesis using assms publish_ok [OF assms(1,2)] by (auto split: sum.splits)
next
  case (Ingest now random event)
  then show ?thesis using assms ingest_ok [OF assms(1,2)] by (auto split: sum.splits option.splits)
next
  case (Invalidate random)
  then show ?thesis using assms history_okD [OF assms(2)]
    by (auto simp: invalidate_replay_def rotate_replay_epoch_def intro!: history_frame)
next
  case (Sync now channel auth)
  then show ?thesis using assms history_okD [OF assms(2)]
    by (auto intro!: history_frame db_ok_sync log_ok_sync budget_ok_sync)
next
  case (Prune now)
  then show ?thesis using assms prune_ok by (auto split: sum.splits)
next
  case (Reopen limits random now)
  then show ?thesis using assms reopen_ok by (auto split: sum.splits)
next
  case (Update_presence channel connection_id data encoded now)
  then show ?thesis using assms history_okD [OF assms(2)]
    by (auto simp: update_presence_def intro!: history_frame)
next
  case (Remove_presence channel connection_id)
  then show ?thesis using assms history_okD [OF assms(2)]
    by (auto simp: remove_presence_def intro!: history_frame)
qed

lemma reachable_ok: "reachable lib h \<Longrightarrow> lib_ok lib \<Longrightarrow> history_ok lib h"
  by (induction rule: reachable.induct) (auto intro: new_history_ok exec_ok)

section \<open>Outcomes\<close>

lemma publish_retained:
  assumes lib: "lib_ok lib" and h: "history_ok lib h"
    and pub: "publish lib (cd_epoch (h_db h)) now c payload False (h_db h) = Inr ((m, e), s')"
  shows "\<exists>p r. message_position lib m = Some p \<and> r \<in> set (cd_messages s') \<and> mr_id r = p \<and> mr_channel r = c
      \<and> mr_data_json r = json_text lib (pl_data payload)"
proof -
  let ?s = "(h_db h)\<lparr>cd_event_sequence := cd_event_sequence (h_db h) + 1\<rparr>"
  have app: "append_event lib (cd_replay_epoch ?s) now e ?s = Inr (m, s')"
    and e: "ev_channel e = c" "ev_payload e = payload" "\<not> ev_ephemeral e"
    using pub by (auto simp: publish_def and_then_Inr Let_def split: if_splits)
  have s: "db_ok ?s" "sqlite_log_ok lib ?s (h_log h)" "budget_ok ?s" "length (cd_replay_epoch ?s) = 16"
    using history_okD [OF h] by simp_all
  note ok = append_event_ok [OF s(1-3) app e(3)]
  let ?p = "cd_last_rowid ?s + 1"
  have pos: "message_position lib m = Some ?p"
    using position_sqlite [OF lib s(4), of ?p c] ok(5,6) s(1)
    by (simp add: message_position_def db_ok_def cursor_sqlite_def e)
  obtain r where r: "r \<in> set (cd_messages s')" "mr_id r = ?p" using ok(4) by auto
  then obtain m' where m': "(?p, m') \<in> set (h_log h @ [(?p, m)])" "row_holds lib s' r m'"
    using ok(2) unfolding sqlite_log_ok_def by metis
  have "(?p, m') = (?p, m)"
    by (rule log_unique [OF _ m'(1)]) (use ok(2) in \<open>auto simp: sqlite_log_ok_def replay_ok_def\<close>)
  then have "mr_channel r = c" "mr_data_json r = json_text lib (pl_data payload)"
    using m'(2) ok(6) by (auto simp: row_holds_def event_message_def e)
  then show ?thesis using pos r by blast
qed

lemma stale_epoch:
  assumes "limits_ok (cd_limits s')" "cd_replay_epoch s' \<noteq> cd_replay_epoch s" "cursor_current lib s c cur"
  shows "read_after lib now c (Some cur) limit s' = Inl StaleCursor"
  using assms by (auto simp: read_after_def load_limits_def limits_ok_def check_cursor_def validate_cursor_def
      cursor_sqlite_def cursor_current_def Let_def)

lemma ingest_outcome:
  assumes lib: "lib_ok lib" and h: "history_ok lib h" and valid: "valid_identity (ev_id event)"
    and other: "ei_origin (ev_id event) \<noteq> b64_encode lib (cd_epoch (h_db h))" and r: "length random = 16"
  shows "ei_sequence (ev_id event) \<le> taken lib (h_db h) (ei_origin (ev_id event))
      \<Longrightarrow> ingest_remote lib (cd_epoch (h_db h)) now random event (h_db h) = Inr ((None, False), h_db h)"
    and "ei_sequence (ev_id event) > taken lib (h_db h) (ei_origin (ev_id event))
      \<Longrightarrow> ingest_remote lib (cd_epoch (h_db h)) now random event (h_db h) = Inr ((m, gap), s')
      \<Longrightarrow> m \<noteq> None \<and> taken lib s' (ei_origin (ev_id event)) = ei_sequence (ev_id event)
         \<and> gap = (ei_sequence (ev_id event) \<noteq> taken lib (h_db h) (ei_origin (ev_id event)) + 1)
         \<and> (gap \<and> random \<noteq> cd_replay_epoch (h_db h) \<and> cursor_current lib (h_db h) c cur
            \<longrightarrow> read_after lib now' c (Some cur) limit s' = Inl StaleCursor)"
proof -
  let ?o = "ei_origin (ev_id event)" and ?n = "ei_sequence (ev_id event)"
  have taken: "taken lib (h_db h) ?o = value_or_zero (cd_remote_origins (h_db h)) ?o"
    using other by (simp add: taken_def)
  show "ingest_remote lib (cd_epoch (h_db h)) now random event (h_db h) = Inr ((None, False), h_db h)"
    if "?n \<le> taken lib (h_db h) ?o"
    using that valid other by (simp add: ingest_remote_def taken Let_def)
  assume new: "?n > taken lib (h_db h) ?o"
    and ing: "ingest_remote lib (cd_epoch (h_db h)) now random event (h_db h) = Inr ((m, gap), s')"
  let ?s = "if gap then (h_db h)\<lparr>cd_replay_epoch := random\<rparr> else h_db h"
  obtain m1 s1 where app: "append_event lib (cd_replay_epoch ?s) now event ?s = Inr (m1, s1)" and m: "m = Some m1"
    and s': "s' = s1\<lparr>cd_remote_origins := sql_upsert fst (\<lambda>(c, _). (c, ?n)) (?o, ?n) (cd_remote_origins s1)\<rparr>"
    and gap: "gap = (?n > taken lib (h_db h) ?o + 1)"
    using ing new valid other unfolding taken
    by (fastforce simp: ingest_remote_def and_then_Inr rotate_replay_epoch_def Let_def split: if_splits)
  have l: "limits_ok (cd_limits ?s)" using history_okD(1) [OF h] by (simp add: db_ok_limits)
  note fields = append_event_fields [OF l app]
  have "taken lib s' ?o = ?n"
    using other by (simp add: taken_def s' fields) (subst value_or_zero_upsert; auto split: option.splits)
  moreover have "read_after lib now' c (Some cur) limit s' = Inl StaleCursor"
    if "gap" "random \<noteq> cd_replay_epoch (h_db h)" "cursor_current lib (h_db h) c cur"
    by (rule stale_epoch [OF _ _ that(3)]) (use l that fields in \<open>auto simp: s'\<close>)
  ultimately show "m \<noteq> None \<and> taken lib s' ?o = ?n \<and> gap = (?n \<noteq> taken lib (h_db h) ?o + 1)
      \<and> (gap \<and> random \<noteq> cd_replay_epoch (h_db h) \<and> cursor_current lib (h_db h) c cur
         \<longrightarrow> read_after lib now' c (Some cur) limit s' = Inl StaleCursor)"
    using m gap new by auto
qed

section \<open>A concrete library\<close>

definition ex_char :: "nat \<Rightarrow> char" where
  "ex_char n = char_of (65 + n)"

definition ex_encode :: "bytes \<Rightarrow> string" where
  "ex_encode bs = concat (map (\<lambda>b. [ex_char (unat b div 16), ex_char (unat b mod 16)]) bs)"

fun ex_decode :: "string \<Rightarrow> bytes option" where
  "ex_decode [] = Some []"
| "ex_decode [_] = None"
| "ex_decode (a # b # cs) = map_option (\<lambda>bs. word_of_nat ((of_char a - 65) * 16 + (of_char b - 65)) # bs) (ex_decode cs)"

definition exc_lib :: "string channel_lib" where
  "exc_lib = \<lparr>b64_encode = ex_encode, b64_decode = ex_decode, sha256 = (\<lambda>s. replicate 32 (word_of_nat (length s))),
     json_text = (\<lambda>v. v), json_value = Some, percent_decode_utf8 = Some\<rparr>"

lemma ex_char_code: "n < 16 \<Longrightarrow> of_char (ex_char n) = (65 + n :: nat)"
  by (simp add: ex_char_def)

lemma ex_char_no_dot: "n < 16 \<Longrightarrow> ex_char n \<noteq> CHR ''.''"
  using ex_char_code [of n] by auto

lemma ex_decode_encode: "ex_decode (ex_encode bs) = Some bs"
proof (induction bs)
  case (Cons b bs)
  have "unat b < 256" using unsigned_less [of b, where ?'a = nat] by simp
  then have "unat b div 16 < 16" by simp
  then show ?case using Cons by (simp add: ex_encode_def ex_char_code)
qed (simp add: ex_encode_def)

lemma exc_lib_ok: "lib_ok exc_lib"
proof -
  have "unat b div 16 < 16" for b :: "8 word" using unsigned_less [of b, where ?'a = nat] by simp
  then have "CHR ''.'' \<noteq> ex_char (unat b div 16)" "CHR ''.'' \<noteq> ex_char (unat b mod 16)" for b :: "8 word"
    using ex_char_no_dot by (metis mod_less_divisor zero_less_numeral)+
  then have "CHR ''.'' \<notin> set (ex_encode bs)" for bs
    by (induction bs) (simp_all add: ex_encode_def)
  then show ?thesis by (simp add: lib_ok_def exc_lib_def ex_decode_encode)
qed

definition ex_payload :: "string publish_payload" where
  "ex_payload = \<lparr>pl_type = ''t'', pl_data = ''v''\<rparr>"

definition ex_epoch :: bytes where
  "ex_epoch = replicate 16 7"

definition ex_start :: "string history" where
  "ex_start = (case new_history None ex_epoch 0 of Inr h \<Rightarrow> h | Inl _ \<Rightarrow> \<lparr>h_db = new_database [], h_log = []\<rparr>)"

lemma ex_start_eq: "ex_start = \<lparr>h_db = new_database ex_epoch, h_log = []\<rparr>"
  by code_simp

definition exc_ops :: "string channel_op list" where
  "exc_ops = [Publish 5 ''room'' ex_payload False, Publish 8 ''room'' ex_payload False]"

definition ex_history :: "string history" where
  "ex_history = channel_run exc_lib exc_ops ex_start"

lemma ex_reachable: "reachable exc_lib ex_history"
proof -
  have "new_history None ex_epoch 0 = Inr ex_start" by code_simp
  then have "reachable exc_lib ex_start" by (rule reachable_new [rotated]) (simp add: ex_epoch_def)
  then show ?thesis unfolding ex_history_def by (rule reachable_run) code_simp
qed

text \<open>The history, computed.\<close>

definition exc_row :: "int \<Rightarrow> int \<Rightarrow> message_row" where
  "exc_row i t = \<lparr>mr_id = i, mr_channel = ''room'', mr_type = ''t'', mr_data_json = ''v'', mr_created_at = t\<rparr>"

definition ex_id :: "int \<Rightarrow> event_id" where
  "ex_id n = \<lparr>ei_origin = ''AHAHAHAHAHAHAHAHAHAHAHAHAHAHAHAH'', ei_sequence = n\<rparr>"

definition ex_message :: "int \<Rightarrow> string channel_message" where
  "ex_message n = \<lparr>m_id = ''s1.AHAHAHAHAHAHAHAHAHAHAHAHAHAHAHAH.AEAEAEAEAEAEAEAEAEAEAEAEAEAEAEAE.'' @ show_i64 n,
     m_event_id = Some (ex_id n), m_channel = ''room'', m_type = ''t'', m_data = ''v''\<rparr>"

definition ex_db :: channel_db where
  "ex_db = \<lparr>cd_messages = [exc_row 1 5, exc_row 2 8], cd_last_rowid = 2,
     cd_metadata = [\<lparr>md_channel = ''room'', md_replay_window_ms = 600000, md_inactivity_ttl_ms = 0,
        md_keepalive_interval_ms = 25000, md_max_connection_lifetime_ms = 7200000, md_last_activity = 8,
        md_latest_message_id = 2, md_message_count = 2, md_message_bytes = 12\<rparr>],
     cd_epoch = ex_epoch, cd_limits = default_limits, cd_message_count = 2, cd_message_bytes = 12,
     cd_event_sequence = 2, cd_message_events = [(1, ex_id 1), (2, ex_id 2)], cd_remote_origins = [],
     cd_replay_floor = [], cd_replay_epoch = ex_epoch, cd_presence = []\<rparr>"

definition ex_log :: "string log" where
  "ex_log = [(1, ex_message 1), (2, ex_message 2)]"

lemma ex_history_eq: "ex_history = \<lparr>h_db = ex_db, h_log = ex_log\<rparr>"
  by code_simp

lemma ex_history_simps: "h_db ex_history = ex_db" "h_log ex_history = ex_log"
  by (simp_all add: ex_history_eq)

section \<open>Properties\<close>

text \<open>C18. Replay is exact.  In every history of a channel file, reading after a cursor with a
  non-negative position succeeds exactly if the cursor is of the current epoch and of this
  channel, its position is not beyond the last published one, and every message published on
  the channel after it is still in the file and not too old.  It then returns those messages,
  oldest first, up to the limit, and nothing else; in all other cases the client is told that
  its cursor is stale.  So a client never misses a message without being told.\<close>

theorem replay_exact:
  assumes "lib_ok lib" "reachable lib h" "0 \<le> c_position cur"
  shows "read_after lib now c (Some cur) limit (h_db h) =
    (if cursor_current lib (h_db h) c cur \<and> c_position cur \<le> log_head (h_log h) c
        \<and> (\<forall>x\<in>set (log_after (h_log h) c (c_position cur)). replayable now (h_db h) x)
     then Inr (map (shown lib (cd_replay_epoch (h_db h))) (take (unat limit) (log_after (h_log h) c (c_position cur))))
     else Inl StaleCursor)"
  using reachable_ok [OF assms(2,1)] assms by (intro read_after_cursor) (simp_all add: history_ok_def)

definition ex_cursor :: replay_cursor where
  "ex_cursor = cursor_sqlite exc_lib ex_epoch ''room'' 1"

theorem replay_exact_witness:
  "read_after exc_lib 9 ''room'' (Some ex_cursor) 10 (h_db ex_history) = Inr [ex_message 2]"
proof -
  have "c_position ex_cursor = 1" "log_after ex_log ''room'' 1 = [(2, ex_message 2)]"
    "cursor_current exc_lib ex_db ''room'' ex_cursor" "log_head ex_log ''room'' = 2" "replayable 9 ex_db (2, ex_message 2)"
    "shown exc_lib (cd_replay_epoch ex_db) (2, ex_message 2) = ex_message 2"
    by code_simp+
  then show ?thesis
    using replay_exact [OF exc_lib_ok ex_reachable, of ex_cursor 9 "''room''" 10] by (simp add: ex_history_simps)
qed

text \<open>C25. The budgets are hard bounds.  In every history, no channel holds more messages or bytes
  than the limits the file was last opened with allow, nor does the file as a whole; and a
  durable message that was just published is in the file, whatever had to go to make room.\<close>

theorem channel_budgets_hold:
  assumes "lib_ok lib" "reachable lib h"
  shows "int (length (channel_rows c (cd_messages (h_db h)))) \<le> uint (max_messages_per_stream (cd_limits (h_db h)))
    \<and> total_bytes (channel_rows c (cd_messages (h_db h))) \<le> uint (max_bytes_per_stream (cd_limits (h_db h)))
    \<and> int (length (cd_messages (h_db h))) \<le> uint (max_messages (cd_limits (h_db h)))
    \<and> total_bytes (cd_messages (h_db h)) \<le> uint (max_bytes (cd_limits (h_db h)))
    \<and> (publish lib (cd_epoch (h_db h)) now c payload False (h_db h) = Inr ((m, e), s') \<longrightarrow>
         (\<exists>p r. message_position lib m = Some p \<and> r \<in> set (cd_messages s') \<and> mr_id r = p \<and> mr_channel r = c
            \<and> mr_data_json r = json_text lib (pl_data payload)))"
proof -
  note h = history_okD [OF reachable_ok [OF assms(2,1)]]
  have "\<exists>p r. message_position lib m = Some p \<and> r \<in> set (cd_messages s') \<and> mr_id r = p \<and> mr_channel r = c
      \<and> mr_data_json r = json_text lib (pl_data payload)"
    if pub: "publish lib (cd_epoch (h_db h)) now c payload False (h_db h) = Inr ((m, e), s')"
    by (rule publish_retained [OF assms(1) reachable_ok [OF assms(2,1)] pub])
  then show ?thesis
    using h(3) by (simp add: budget_ok_def stream_within_def store_within_def)
qed

theorem channel_budgets_hold_witness:
  "int (length (cd_messages (h_db ex_history))) \<le> uint (max_messages default_limits)
   \<and> total_bytes (channel_rows ''room'' (cd_messages (h_db ex_history))) \<le> uint (max_bytes_per_stream default_limits)
   \<and> length (channel_rows ''room'' (cd_messages (h_db ex_history))) = 2"
proof -
  have l: "cd_limits (h_db ex_history) = default_limits" "length (channel_rows ''room'' (cd_messages (h_db ex_history))) = 2"
    by (simp_all add: ex_history_simps ex_db_def exc_row_def channel_rows_def)
  show ?thesis
    using channel_budgets_hold [OF exc_lib_ok ex_reachable, of "''room''"] unfolding l by simp
qed

text \<open>C24. Events of other servers are applied once and in order.  In every history the messages of
  one origin, the file's own included, are logged with ascending sequence numbers, so no event
  is logged twice.  An event whose number is not above the last one taken from its origin
  changes nothing.  A new one is recorded; exactly if it skips numbers the gap is signalled, and
  then, if the generator gives a new epoch, every cursor of the old epoch is stale.\<close>

theorem remote_events_once:
  assumes "lib_ok lib" "reachable lib h" "valid_identity (ev_id event)"
    and "ei_origin (ev_id event) \<noteq> b64_encode lib (cd_epoch (h_db h))" "length random = 16"
  shows "sorted_wrt (\<lambda>x y. ei_origin (event_of x) = ei_origin (event_of y)
      \<longrightarrow> ei_sequence (event_of x) < ei_sequence (event_of y)) (h_log h)
    \<and> (ei_sequence (ev_id event) \<le> taken lib (h_db h) (ei_origin (ev_id event))
       \<longrightarrow> ingest_remote lib (cd_epoch (h_db h)) now random event (h_db h) = Inr ((None, False), h_db h))
    \<and> (ei_sequence (ev_id event) > taken lib (h_db h) (ei_origin (ev_id event))
       \<longrightarrow> ingest_remote lib (cd_epoch (h_db h)) now random event (h_db h) = Inr ((m, gap), s')
       \<longrightarrow> m \<noteq> None \<and> taken lib s' (ei_origin (ev_id event)) = ei_sequence (ev_id event)
         \<and> gap = (ei_sequence (ev_id event) \<noteq> taken lib (h_db h) (ei_origin (ev_id event)) + 1)
         \<and> (gap \<and> random \<noteq> cd_replay_epoch (h_db h) \<and> cursor_current lib (h_db h) c cur
            \<longrightarrow> read_after lib now' c (Some cur) limit s' = Inl StaleCursor))"
  using history_okD(5) [OF reachable_ok [OF assms(2,1)]] ingest_outcome [OF assms(1) reachable_ok [OF assms(2,1)] assms(3-5)]
  unfolding identities_ok_def by blast

definition ex_event :: "string channel_event" where
  "ex_event = \<lparr>ev_id = \<lparr>ei_origin = ''peer'', ei_sequence = 2\<rparr>, ev_channel = ''room'', ev_payload = ex_payload,
     ev_ephemeral = False\<rparr>"

theorem remote_events_once_witness:
  "\<exists>m s'. ingest_remote exc_lib (cd_epoch (h_db ex_history)) 9 (replicate 16 8) ex_event (h_db ex_history) = Inr ((Some m, True), s')
    \<and> read_after exc_lib 10 ''room'' (Some ex_cursor) 10 s' = Inl StaleCursor"
proof -
  have ok: "valid_identity (ev_id ex_event)"
    "ei_origin (ev_id ex_event) \<noteq> b64_encode exc_lib (cd_epoch (h_db ex_history))" "length (replicate 16 (8 :: 8 word)) = 16"
    and new: "ei_sequence (ev_id ex_event) > taken exc_lib (h_db ex_history) (ei_origin (ev_id ex_event))"
    and cur: "replicate 16 8 \<noteq> cd_replay_epoch (h_db ex_history)" "cursor_current exc_lib (h_db ex_history) ''room'' ex_cursor"
    unfolding ex_history_simps by code_simp+
  have "case ingest_remote exc_lib (cd_epoch (h_db ex_history)) 9 (replicate 16 8) ex_event (h_db ex_history) of
      Inr ((Some m, True), s') \<Rightarrow> True | _ \<Rightarrow> False" unfolding ex_history_simps by code_simp
  then obtain m s' where ing: "ingest_remote exc_lib (cd_epoch (h_db ex_history)) 9 (replicate 16 8) ex_event
      (h_db ex_history) = Inr ((Some m, True), s')"
    by (auto split: sum.splits option.splits bool.splits)
  then show ?thesis
    using remote_events_once [OF exc_lib_ok ex_reachable ok, of 9 "Some m" True s' "''room''" ex_cursor 10 10] new cur by blast
qed

text \<open>C26. Cursors survive printing.  A cursor a store can hand out is read back from its text
  unchanged, and whatever text is accepted, from a client or a message id, denotes a cursor with
  a position in range and components of sixteen bytes.\<close>

theorem cursor_roundtrip:
  assumes "lib_ok lib" "cursor_ok c"
  shows "cursor_from_str lib (cursor_to_string lib c) = Inr c
    \<and> (cursor_from_str lib v = Inr c' \<longrightarrow> cursor_ok c')"
  using cursor_parse_show [OF assms] cursor_from_str_ok by blast

theorem cursor_roundtrip_witness:
  "cursor_from_str exc_lib (cursor_to_string exc_lib ex_cursor) = Inr ex_cursor
   \<and> cursor_to_string exc_lib ex_cursor
     = ''s1.AHAHAHAHAHAHAHAHAHAHAHAHAHAHAHAH.AEAEAEAEAEAEAEAEAEAEAEAEAEAEAEAE.1''"
proof -
  have "cursor_ok ex_cursor" "cursor_to_string exc_lib ex_cursor
     = ''s1.AHAHAHAHAHAHAHAHAHAHAHAHAHAHAHAH.AEAEAEAEAEAEAEAEAEAEAEAEAEAEAEAE.1''" by code_simp+
  then show ?thesis using cursor_roundtrip [OF exc_lib_ok] by metis
qed

end
