(* ===== verification/Channel_Websocket.thy ===== *)
theory Channel_Websocket
  imports Channel_Cursor
begin

unbundle bit_operations_syntax

text \<open>
  WebSocket framing (\<^verbatim>\<open>tako-channels/src/websocket.rs\<close>) on bytes as 8-bit words: the encoder
  of the server's frames, the incremental reader of the client's, and the loop of
  \<^verbatim>\<open>websocket/serve.rs\<close> that takes frames out of the buffer after every chunk.  The reader is
  total, and what it delivers does not depend on how the network cuts the stream into chunks.
  \<^verbatim>\<open>usize\<close> has 64 bits.
\<close>

section \<open>Frames\<close>

record websocket_frame =
  fr_opcode :: "8 word"
  fr_payload :: bytes

text \<open>\<^verbatim>\<open>to_be_bytes\<close> and \<^verbatim>\<open>from_be_bytes\<close> of an unsigned value of \<open>n\<close> bytes.\<close>

fun to_be_bytes :: "nat \<Rightarrow> nat \<Rightarrow> bytes" where
  "to_be_bytes 0 v = []"
| "to_be_bytes (Suc n) v = to_be_bytes n (v div 256) @ [word_of_nat (v mod 256)]"

definition from_be_bytes :: "bytes \<Rightarrow> nat" where
  "from_be_bytes bs = foldl (\<lambda>v b. v * 256 + unat b) 0 bs"

definition encode_frame :: "8 word \<Rightarrow> bytes \<Rightarrow> bytes" where
  "encode_frame opcode payload =
     (0x80 OR (opcode AND 0x0F)) #
     (if length payload < 126 then [word_of_nat (length payload)]
      else if length payload \<le> 65535 then 126 # to_be_bytes 2 (length payload)
      else 127 # to_be_bytes 8 (length payload)) @ payload"

definition text_frame :: "bytes \<Rightarrow> bytes" where
  "text_frame text_bytes = encode_frame 0x1 text_bytes"

definition ping_frame :: "bytes \<Rightarrow> bytes" where
  "ping_frame payload = encode_frame 0x9 payload"

definition pong_frame :: "bytes \<Rightarrow> bytes" where
  "pong_frame payload = encode_frame 0xA payload"

definition close_frame :: "nat \<Rightarrow> bytes \<Rightarrow> bytes" where
  "close_frame code reason = encode_frame 0x8 (to_be_bytes 2 code @ reason)"

section \<open>The reader\<close>

definition MAX_FRAME_PAYLOAD :: nat where
  "MAX_FRAME_PAYLOAD = 128 * 1024 * 1024"

text \<open>The payload length and the offset behind it, if the buffer holds them.\<close>

definition frame_length :: "bytes \<Rightarrow> (nat \<times> nat) option" where
  "frame_length buffer =
     (let n = unat (buffer ! 1 AND 0x7F)
      in if n = 126 then (if length buffer < 4 then None else Some (from_be_bytes (take 2 (drop 2 buffer)), 4))
         else if n = 127 then (if length buffer < 10 then None else Some (from_be_bytes (take 8 (drop 2 buffer)), 10))
         else Some (n, 2))"

definition unmask :: "bytes \<Rightarrow> bytes \<Rightarrow> bytes" where
  "unmask key payload = map (\<lambda>i. payload ! i XOR key ! (i mod 4)) [0..<length payload]"

definition next_frame :: "bytes \<Rightarrow> channel_error + (websocket_frame option \<times> bytes)" where
  "next_frame buffer =
     (if length buffer < 2 then Inr (None, buffer)
      else
        let first = buffer ! 0; second = buffer ! 1; opcode = first AND 0x0F
        in if first AND 0x80 = 0 then Inl (BadRequest ''fragmented websocket frames are not supported'')
           else case frame_length buffer of
             None \<Rightarrow> Inr (None, buffer)
           | Some (payload_len, offset) \<Rightarrow>
               if 0x8 \<le> opcode \<and> opcode \<le> 0xA \<and> payload_len > 125
               then Inl (BadRequest ''invalid websocket control frame'')
               else if payload_len > MAX_FRAME_PAYLOAD then Inl (BadRequest ''websocket frame too large'')
               else
                 let masked = (second AND 0x80 \<noteq> 0)
                 in if masked \<and> length buffer < offset + 4 then Inr (None, buffer)
                    else
                      let key = take 4 (drop offset buffer);
                          offset = (if masked then offset + 4 else offset);
                          total_len = offset + payload_len
                      in if length buffer < total_len then Inr (None, buffer)
                         else
                           let payload = take payload_len (drop offset buffer)
                           in Inr (Some \<lparr>fr_opcode = opcode, fr_payload = (if masked then unmask key payload else payload)\<rparr>,
                                   drop total_len buffer))"

text \<open>The stages of the reader, one equation each.\<close>

definition header_length :: "bytes \<Rightarrow> nat \<Rightarrow> nat" where
  "header_length buffer offset = (if buffer ! 1 AND 0x80 \<noteq> 0 then offset + 4 else offset)"

definition refused :: "bytes \<Rightarrow> nat \<Rightarrow> channel_error option" where
  "refused buffer n =
     (if 0x8 \<le> buffer ! 0 AND 0x0F \<and> buffer ! 0 AND 0x0F \<le> 0xA \<and> n > 125
      then Some (BadRequest ''invalid websocket control frame'')
      else if n > MAX_FRAME_PAYLOAD then Some (BadRequest ''websocket frame too large'') else None)"

definition taken_frame :: "bytes \<Rightarrow> nat \<Rightarrow> nat \<Rightarrow> websocket_frame" where
  "taken_frame buffer offset n =
     (let payload = take n (drop (header_length buffer offset) buffer)
      in \<lparr>fr_opcode = buffer ! 0 AND 0x0F,
          fr_payload = (if buffer ! 1 AND 0x80 \<noteq> 0 then unmask (take 4 (drop offset buffer)) payload else payload)\<rparr>)"

lemma next_frame_short: "length buffer < 2 \<Longrightarrow> next_frame buffer = Inr (None, buffer)"
  by (simp add: next_frame_def)

lemma next_frame_fragment:
  "2 \<le> length buffer \<Longrightarrow> buffer ! 0 AND 0x80 = 0 \<Longrightarrow>
     next_frame buffer = Inl (BadRequest ''fragmented websocket frames are not supported'')"
  by (simp add: next_frame_def)

lemma next_frame_wait:
  "2 \<le> length buffer \<Longrightarrow> buffer ! 0 AND 0x80 \<noteq> 0 \<Longrightarrow> frame_length buffer = None \<Longrightarrow> next_frame buffer = Inr (None, buffer)"
  by (simp add: next_frame_def)

lemma next_frame_header:
  assumes "2 \<le> length buffer" "buffer ! 0 AND 0x80 \<noteq> 0" "frame_length buffer = Some (n, k)"
  shows "next_frame buffer = (case refused buffer n of
     Some e \<Rightarrow> Inl e
   | None \<Rightarrow> if length buffer < header_length buffer k + n then Inr (None, buffer)
       else Inr (Some (taken_frame buffer k n), drop (header_length buffer k + n) buffer))"
  using assms
  by (simp add: next_frame_def refused_def header_length_def taken_frame_def Let_def)

lemma next_frame_cases:
  obtains (short) "length buffer < 2"
  | (fragment) "2 \<le> length buffer" "buffer ! 0 AND 0x80 = 0"
  | (wait) "2 \<le> length buffer" "buffer ! 0 AND 0x80 \<noteq> 0" "frame_length buffer = None"
  | (header) n k where "2 \<le> length buffer" "buffer ! 0 AND 0x80 \<noteq> 0" "frame_length buffer = Some (n, k)"
  by (cases "length buffer < 2"; cases "buffer ! 0 AND 0x80 = 0"; cases "frame_length buffer") (auto simp: not_less)

lemma frame_length_offset: "frame_length buffer = Some (n, k) \<Longrightarrow> 2 \<le> k"
  by (auto simp: frame_length_def Let_def split: if_splits)

lemma next_frame_consumes:
  assumes "next_frame buffer = Inr (Some f, rest)"
  shows "length rest < length buffer"
proof (cases buffer rule: next_frame_cases)
  case (header n k)
  then show ?thesis
    using assms frame_length_offset [OF header(3)]
    by (auto simp: next_frame_header header_length_def split: option.splits if_splits)
qed (use assms in \<open>simp_all add: next_frame_short next_frame_fragment next_frame_wait\<close>)

text \<open>The frames the buffer holds, and what is left of it or the error that ends the connection.\<close>

function drain_frames :: "bytes \<Rightarrow> websocket_frame list \<times> (channel_error + bytes)" where
  "drain_frames buffer = (case next_frame buffer of
     Inl e \<Rightarrow> ([], Inl e)
   | Inr (None, b) \<Rightarrow> ([], Inr b)
   | Inr (Some f, b) \<Rightarrow> (case drain_frames b of (fs, r) \<Rightarrow> (f # fs, r)))"
  by pat_completeness auto
termination
  by (relation "measure length") (auto intro: next_frame_consumes dest: sym)

declare drain_frames.simps [simp del]

text \<open>The connection's loop over the chunks it reads.\<close>

fun read_chunks :: "bytes \<Rightarrow> bytes list \<Rightarrow> websocket_frame list \<times> (channel_error + bytes)" where
  "read_chunks buffer [] = ([], Inr buffer)"
| "read_chunks buffer (chunk # chunks) = (case drain_frames (buffer @ chunk) of
     (fs, Inl e) \<Rightarrow> (fs, Inl e)
   | (fs, Inr b) \<Rightarrow> (case read_chunks b chunks of (fs', r) \<Rightarrow> (fs @ fs', r)))"

section \<open>Chunks do not matter\<close>

lemma frame_length_append:
  "2 \<le> length buffer \<Longrightarrow> frame_length buffer = Some x \<Longrightarrow> frame_length (buffer @ more') = Some x"
  by (auto simp: frame_length_def nth_append Let_def split: if_splits)

lemma next_frame_None: "next_frame buffer = Inr (None, b) \<Longrightarrow> b = buffer"
  by (cases buffer rule: next_frame_cases)
     (auto simp: next_frame_short next_frame_fragment next_frame_wait next_frame_header split: option.splits if_splits)

lemma prefix_facts:
  assumes "2 \<le> length buffer"
  shows "(buffer @ more') ! 0 = buffer ! 0" "(buffer @ more') ! 1 = buffer ! 1"
    "refused (buffer @ more') n = refused buffer n" "header_length (buffer @ more') k = header_length buffer k"
proof -
  show n: "(buffer @ more') ! 0 = buffer ! 0" "(buffer @ more') ! 1 = buffer ! 1"
    using assms by (auto simp: nth_append)
  show "refused (buffer @ more') n = refused buffer n" "header_length (buffer @ more') k = header_length buffer k"
    by (simp_all only: refused_def header_length_def n)
qed

lemma taken_frame_append:
  assumes "2 \<le> length buffer" "header_length buffer k + n \<le> length buffer"
  shows "taken_frame (buffer @ more') k n = taken_frame buffer k n"
proof -
  have "take n (drop (header_length buffer k) (buffer @ more')) = take n (drop (header_length buffer k) buffer)"
    using assms(2) by simp
  moreover have "buffer ! 1 AND 0x80 \<noteq> 0 \<Longrightarrow> take 4 (drop k (buffer @ more')) = take 4 (drop k buffer)"
    using assms(2) by (simp add: header_length_def)
  ultimately show ?thesis
    unfolding taken_frame_def prefix_facts [OF assms(1)] Let_def
    by (cases "buffer ! 1 AND 0x80 = 0") (simp_all only: if_True if_False simp_thms)
qed

lemma next_frame_append:
  assumes nf: "next_frame buffer = Inr (Some f, rest)"
  shows "next_frame (buffer @ more') = Inr (Some f, rest @ more')"
proof (cases buffer rule: next_frame_cases)
  case (header n k)
  note eq = next_frame_header [OF header]
  have fit: "refused buffer n = None" "header_length buffer k + n \<le> length buffer"
    and f: "f = taken_frame buffer k n" "rest = drop (header_length buffer k + n) buffer"
    using nf unfolding eq by (auto split: option.splits if_splits)
  have "next_frame (buffer @ more') = (case refused (buffer @ more') n of
     Some e \<Rightarrow> Inl e
   | None \<Rightarrow> if length (buffer @ more') < header_length (buffer @ more') k + n then Inr (None, buffer @ more')
       else Inr (Some (taken_frame (buffer @ more') k n), drop (header_length (buffer @ more') k + n) (buffer @ more')))"
    by (rule next_frame_header)
       (use header in \<open>simp_all add: frame_length_append prefix_facts(1) [OF header(1)]\<close>)
  then show ?thesis
    unfolding prefix_facts [OF header(1)] taken_frame_append [OF header(1) fit(2)]
    using fit f by simp
qed (use nf in \<open>simp_all add: next_frame_short next_frame_fragment next_frame_wait\<close>)

lemma next_frame_error_append:
  assumes nf: "next_frame buffer = Inl e"
  shows "next_frame (buffer @ more') = Inl e"
proof (cases buffer rule: next_frame_cases)
  case fragment
  then have "next_frame (buffer @ more') = Inl (BadRequest ''fragmented websocket frames are not supported'')"
    by (intro next_frame_fragment) (simp_all add: prefix_facts(1) [OF fragment(1)])
  then show ?thesis using nf next_frame_fragment [OF fragment] by simp
next
  case (header n k)
  have "refused buffer n = Some e"
    using nf next_frame_header [OF header] by (auto split: option.splits if_splits)
  then have "refused (buffer @ more') n = Some e" by (simp only: prefix_facts [OF header(1)])
  then show ?thesis
    using header by (subst next_frame_header [where n = n and k = k])
      (simp_all add: frame_length_append prefix_facts(1) [OF header(1)])
qed (use nf in \<open>simp_all add: next_frame_short next_frame_wait\<close>)

lemma drain_append:
  "drain_frames (a @ b) = (case drain_frames a of
     (fs, Inl e) \<Rightarrow> (fs, Inl e)
   | (fs, Inr r) \<Rightarrow> (case drain_frames (r @ b) of (fs', r') \<Rightarrow> (fs @ fs', r')))"
proof (induction a rule: drain_frames.induct)
  case (1 a)
  show ?case
  proof (cases "next_frame a")
    case (Inl e)
    then show ?thesis by (simp add: drain_frames.simps [of a] drain_frames.simps [of "a @ b"] next_frame_error_append)
  next
    case (Inr x)
    obtain fo r where x: "x = (fo, r)" by (cases x)
    show ?thesis
    proof (cases fo)
      case None
      then have "r = a" using Inr x next_frame_None by blast
      then show ?thesis using Inr x None by (simp add: drain_frames.simps [of a])
    next
      case (Some f)
      have nf: "next_frame a = Inr (Some f, r)" using Inr x Some by simp
      have IH: "drain_frames (r @ b) = (case drain_frames r of
           (fs, Inl e) \<Rightarrow> (fs, Inl e)
         | (fs, Inr r') \<Rightarrow> (case drain_frames (r' @ b) of (fs', r'') \<Rightarrow> (fs @ fs', r'')))"
        by (rule 1 [OF Inr x [symmetric] Some])
      have l: "drain_frames (a @ b) = (case drain_frames (r @ b) of (fs, z) \<Rightarrow> (f # fs, z))"
        by (simp add: drain_frames.simps [of "a @ b"] next_frame_append [OF nf])
      have a: "drain_frames a = (case drain_frames r of (fs, z) \<Rightarrow> (f # fs, z))"
        by (simp add: drain_frames.simps [of a] nf)
      show ?thesis unfolding l a IH by (auto split: prod.split sum.split)
    qed
  qed
qed

lemma drain_rest: "drain_frames buffer = (fs, Inr r) \<Longrightarrow> drain_frames r = ([], Inr r)"
proof (induction buffer arbitrary: fs rule: drain_frames.induct)
  case (1 buffer)
  show ?case
  proof (cases "next_frame buffer")
    case (Inl e)
    then show ?thesis using 1(2) by (simp add: drain_frames.simps [of buffer])
  next
    case (Inr x)
    obtain fo b where x: "x = (fo, b)" by (cases x)
    show ?thesis
    proof (cases fo)
      case None
      then have "b = buffer" using Inr x next_frame_None by blast
      then show ?thesis using 1(2) Inr x None by (simp add: drain_frames.simps [of buffer]) (simp add: drain_frames.simps [of r])
    next
      case (Some f)
      then obtain fs' where "drain_frames b = (fs', Inr r)"
        using 1(2) Inr x by (auto simp: drain_frames.simps [of buffer] split: prod.splits)
      then show ?thesis by (rule 1(1) [OF Inr x [symmetric] Some])
    qed
  qed
qed

lemma read_chunks_drain:
  assumes "drain_frames buffer = ([], Inr buffer)"
  shows "read_chunks buffer chunks = drain_frames (buffer @ concat chunks)"
  using assms
proof (induction chunks arbitrary: buffer)
  case (Cons c cs)
  obtain fs z where d: "drain_frames (buffer @ c) = (fs, z)" by (cases "drain_frames (buffer @ c)")
  show ?case
  proof (cases z)
    case (Inl e)
    then show ?thesis using drain_append [of "buffer @ c" "concat cs"] by (simp add: d)
  next
    case (Inr b)
    have "read_chunks b cs = drain_frames (b @ concat cs)" by (rule Cons.IH) (rule drain_rest [OF d [unfolded Inr]])
    then show ?thesis using drain_append [of "buffer @ c" "concat cs"] by (simp add: d Inr)
  qed
qed simp

lemma drain_Nil: "drain_frames [] = ([], Inr [])"
  by (simp add: drain_frames.simps [of "[]"] next_frame_def)

section \<open>Encoded frames\<close>

lemma length_to_be_bytes [simp]: "length (to_be_bytes n v) = n"
  by (induction n arbitrary: v) simp_all

lemma from_to_be_bytes: "v < 256 ^ n \<Longrightarrow> from_be_bytes (to_be_bytes n v) = v"
proof (induction n arbitrary: v)
  case (Suc n)
  then have "v div 256 < 256 ^ n" by (simp add: less_mult_imp_div_less mult.commute)
  then have "from_be_bytes (to_be_bytes n (v div 256)) = v div 256" by (rule Suc.IH)
  moreover have "unat (word_of_nat (v mod 256) :: 8 word) = v mod 256"
    by (simp add: unat_of_nat)
  ultimately show ?case by (simp add: from_be_bytes_def)
qed (simp add: from_be_bytes_def)

lemma low_bits:
  fixes v :: "8 word"
  assumes "unat v < 128"
  shows "v AND 0x7F = v" "v AND 0x80 = 0" "(0x80 OR v) AND 0x7F = v" "(0x80 OR v) AND 0x80 = 0x80"
proof -
  have m: "(0x7F :: 8 word) = mask 7" by (simp add: mask_eq_exp_minus_1)
  have "unat (take_bit 7 v) = take_bit 7 (unat v)" by (rule unsigned_take_bit_eq)
  also have "\<dots> = unat v" using assms by (intro take_bit_nat_eq_self) simp
  finally have "take_bit 7 v = v" by (simp only: word_unat_eq_iff)
  then show 1: "v AND 0x7F = v" unfolding m by (simp only: take_bit_eq_mask)
  have "v AND 0x80 = v AND (0x7F AND 0x80)" using 1 by (metis and.assoc)
  then show 2: "v AND 0x80 = 0" by simp
  show "(0x80 OR v) AND 0x7F = v" "(0x80 OR v) AND 0x80 = 0x80"
    using 1 2 by (simp_all add: bit.conj_disj_distrib2)
qed

lemma opcode_bits:
  fixes opcode :: "8 word"
  shows "(0x80 OR (opcode AND 0x0F)) AND 0x80 \<noteq> 0" "(0x80 OR (opcode AND 0x0F)) AND 0x0F = opcode AND 0x0F"
proof -
  have "(opcode AND 0x0F) AND 0x80 = opcode AND (0x0F AND 0x80)" by (rule and.assoc)
  then show "(0x80 OR (opcode AND 0x0F)) AND 0x80 \<noteq> 0"
    by (simp add: bit.conj_disj_distrib2)
  show "(0x80 OR (opcode AND 0x0F)) AND 0x0F = opcode AND 0x0F"
    by (simp add: bit.conj_disj_distrib2 and.assoc)
qed

text \<open>The frames of a client, as RFC 6455 has them: like the server's, but with the high bit of
  the length byte set, the key behind the length and the payload combined with it.\<close>

definition client_frame :: "8 word \<Rightarrow> bytes \<Rightarrow> bytes \<Rightarrow> bytes" where
  "client_frame opcode key payload =
     (0x80 OR (opcode AND 0x0F)) #
     (if length payload < 126 then [0x80 OR word_of_nat (length payload)]
      else if length payload \<le> 65535 then (0x80 OR 126) # to_be_bytes 2 (length payload)
      else (0x80 OR 127) # to_be_bytes 8 (length payload)) @ key @ unmask key payload"

lemma unmask_unmask: "unmask key (unmask key payload) = payload"
  by (rule nth_equalityI) (simp_all add: unmask_def xor.assoc)

lemma length_unmask [simp]: "length (unmask key payload) = length payload"
  by (simp add: unmask_def)

definition sendable :: "8 word \<Rightarrow> bytes \<Rightarrow> bool" where
  "sendable opcode payload =
     (opcode AND 0x0F = opcode \<and> length payload \<le> MAX_FRAME_PAYLOAD
      \<and> (0x8 \<le> opcode \<and> opcode \<le> 0xA \<longrightarrow> length payload \<le> 125))"

text \<open>A header in front of a payload: what both encoders produce.\<close>

definition length_bytes :: "8 word \<Rightarrow> nat \<Rightarrow> bytes" where
  "length_bytes high n =
     (if n < 126 then [high OR word_of_nat n]
      else if n \<le> 65535 then (high OR 126) # to_be_bytes 2 n
      else (high OR 127) # to_be_bytes 8 n)"

lemma encode_frame_alt: "encode_frame opcode payload = (0x80 OR (opcode AND 0x0F)) # length_bytes 0 (length payload) @ payload"
  by (simp add: encode_frame_def length_bytes_def)

lemma client_frame_alt:
  "client_frame opcode key payload =
     (0x80 OR (opcode AND 0x0F)) # length_bytes 0x80 (length payload) @ key @ unmask key payload"
  by (simp add: client_frame_def length_bytes_def)

lemma length_bytes_read:
  assumes n: "n \<le> MAX_FRAME_PAYLOAD" and high: "high = 0 \<or> high = 0x80"
  shows "frame_length (b # length_bytes high n @ rest) = Some (n, Suc (length (length_bytes high n)))"
    and "length_bytes high n ! 0 AND 0x80 = high" and "length_bytes high n \<noteq> []"
proof -
  define x where "x = (if n < 126 then n else if n \<le> 65535 then 126 else 127)"
  have x: "unat (word_of_nat x :: 8 word) = x" "x < 128" by (simp_all add: x_def unat_of_nat)
  have hd: "length_bytes high n ! 0 = high OR word_of_nat x"
    by (simp add: length_bytes_def x_def)
  show ne: "length_bytes high n \<noteq> []" by (simp add: length_bytes_def)
  have bits: "(high OR word_of_nat x) AND 0x7F = word_of_nat x" "(high OR word_of_nat x) AND 0x80 = high"
    using low_bits [of "word_of_nat x"] x high by auto
  then show "length_bytes high n ! 0 AND 0x80 = high" unfolding hd by simp
  have "unat ((b # length_bytes high n @ rest) ! 1 AND 0x7F) = x"
    using ne by (simp add: nth_append hd bits x)
  moreover have "n < 256 ^ 8" using n by (simp add: MAX_FRAME_PAYLOAD_def)
  ultimately show "frame_length (b # length_bytes high n @ rest) = Some (n, Suc (length (length_bytes high n)))"
    by (auto simp: frame_length_def Let_def x_def length_bytes_def from_to_be_bytes split: if_splits)
qed

lemma next_frame_encoded:
  assumes send: "sendable opcode payload"
    and frame: "frame = (0x80 OR (opcode AND 0x0F)) # length_bytes high (length payload) @ key @ coded"
    and kind: "high = 0 \<and> key = [] \<and> coded = payload \<or> high = 0x80 \<and> length key = 4 \<and> coded = unmask key payload"
  shows "next_frame (frame @ rest) = Inr (Some \<lparr>fr_opcode = opcode, fr_payload = payload\<rparr>, rest)"
proof -
  let ?b = "frame @ rest" and ?n = "length payload" and ?L = "length_bytes high (length payload)"
  let ?k = "Suc (length (length_bytes high (length payload)))"
  have high: "high = 0 \<or> high = 0x80" using kind by blast
  have op: "opcode AND 0x0F = opcode" and n: "?n \<le> MAX_FRAME_PAYLOAD" using send by (simp_all add: sendable_def)
  note read = length_bytes_read [OF n high]
  have b: "?b = (0x80 OR (opcode AND 0x0F)) # ?L @ (key @ coded @ rest)" by (simp add: frame)
  have fl: "frame_length ?b = Some (?n, ?k)" unfolding b by (rule read(1))
  have b0: "?b ! 0 = 0x80 OR (opcode AND 0x0F)" and b1: "?b ! 1 = ?L ! 0"
    using read(3) by (simp_all add: b nth_append)
  have len: "2 \<le> length ?b" using read(3) by (cases ?L) (simp_all add: b)
  have hl: "header_length ?b ?k = ?k + length key"
    unfolding header_length_def b1 read(2) using kind by auto
  have bop: "?b ! 0 AND 0x0F = opcode" "?b ! 0 AND 0x80 \<noteq> 0"
    unfolding b0 using opcode_bits [of opcode] op by simp_all
  have ref: "refused ?b ?n = None"
    unfolding refused_def bop using send by (auto simp: sendable_def)
  have coded: "length coded = ?n" using kind by auto
  have body: "drop (?k + length key) ?b = coded @ rest" "drop ?k ?b = key @ coded @ rest"
    by (simp_all add: b)
  have taken: "taken_frame ?b ?k ?n = \<lparr>fr_opcode = opcode, fr_payload = payload\<rparr>"
    unfolding taken_frame_def hl body bop b1 read(2) Let_def
    using kind coded by (auto simp: unmask_unmask)
  have "drop (header_length ?b ?k + ?n) ?b = rest"
    using coded body(1) unfolding hl drop_drop [symmetric] add.commute [of _ ?n] by simp
  moreover have "\<not> length ?b < header_length ?b ?k + ?n" unfolding hl using coded by (simp add: b)
  ultimately show ?thesis
    using next_frame_header [OF len bop(2) fl] ref taken by simp
qed

section \<open>Streams of frames\<close>

text \<open>A frame on the wire, sent with a key by a client or without one by the server.\<close>

definition wire_frame :: "bytes option \<times> websocket_frame \<Rightarrow> bytes" where
  "wire_frame x = (case fst x of
     None \<Rightarrow> encode_frame (fr_opcode (snd x)) (fr_payload (snd x))
   | Some key \<Rightarrow> client_frame (fr_opcode (snd x)) key (fr_payload (snd x)))"

definition wire_ok :: "bytes option \<times> websocket_frame \<Rightarrow> bool" where
  "wire_ok x =
     (sendable (fr_opcode (snd x)) (fr_payload (snd x)) \<and> (case fst x of None \<Rightarrow> True | Some key \<Rightarrow> length key = 4))"

lemma next_frame_wire:
  assumes "wire_ok x"
  shows "next_frame (wire_frame x @ rest) = Inr (Some (snd x), rest)"
proof (cases "fst x")
  case None
  then have "next_frame (wire_frame x @ rest) = Inr (Some \<lparr>fr_opcode = fr_opcode (snd x), fr_payload = fr_payload (snd x)\<rparr>, rest)"
    using assms by (intro next_frame_encoded [where high = 0 and key = "[]" and coded = "fr_payload (snd x)"])
      (simp_all add: wire_ok_def wire_frame_def encode_frame_alt)
  then show ?thesis by simp
next
  case (Some key)
  then have "next_frame (wire_frame x @ rest) = Inr (Some \<lparr>fr_opcode = fr_opcode (snd x), fr_payload = fr_payload (snd x)\<rparr>, rest)"
    using assms by (intro next_frame_encoded [where high = "0x80" and key = key and coded = "unmask key (fr_payload (snd x))"])
      (simp_all add: wire_ok_def wire_frame_def client_frame_alt)
  then show ?thesis by simp
qed

lemma drain_wire: "list_all wire_ok sent \<Longrightarrow> drain_frames (concat (map wire_frame sent)) = (map snd sent, Inr [])"
proof (induction sent)
  case (Cons x sent)
  then show ?case
    using next_frame_wire [of x "concat (map wire_frame sent)"]
    by (simp add: drain_frames.simps [of "wire_frame x @ concat (map wire_frame sent)"])
qed (simp add: drain_Nil)

text \<open>C27. The WebSocket reader recovers what was sent.  However the network cuts the byte stream,
  the frames the connection loop delivers, the bytes it keeps and the error it ends with are
  those of reading the whole stream at once; and if the stream is a sequence of encoded frames
  of admissible size, masked or not, exactly these frames are delivered and no byte is left.\<close>

theorem websocket_stream:
  shows "read_chunks [] chunks = drain_frames (concat chunks)
    \<and> (list_all wire_ok sent \<and> concat chunks = concat (map wire_frame sent)
       \<longrightarrow> read_chunks [] chunks = (map snd sent, Inr []))"
  using read_chunks_drain [OF drain_Nil, of chunks] drain_wire [of sent] by auto

theorem websocket_stream_witness:
  "read_chunks [] [[0x81], [0x85, 0x37, 0xFA, 0x21, 0x3D, 0x7F], [0x9F, 0x4D, 0x51, 0x58, 0x89], [0x00]] =
     ([\<lparr>fr_opcode = 1, fr_payload = [0x48, 0x65, 0x6C, 0x6C, 0x6F]\<rparr>, \<lparr>fr_opcode = 9, fr_payload = []\<rparr>], Inr [])"
proof -
  let ?sent = "[(Some [0x37, 0xFA, 0x21, 0x3D], \<lparr>fr_opcode = 1, fr_payload = [0x48, 0x65, 0x6C, 0x6C, 0x6F]\<rparr>),
    (None, \<lparr>fr_opcode = 9, fr_payload = []\<rparr>)]"
  have "list_all wire_ok ?sent"
    by (simp add: wire_ok_def sendable_def MAX_FRAME_PAYLOAD_def)
  moreover have "concat [[0x81], [0x85, 0x37, 0xFA, 0x21, 0x3D, 0x7F], [0x9F, 0x4D, 0x51, 0x58, 0x89], [0x00]] =
      concat (map wire_frame ?sent)"
    by (simp add: wire_frame_def client_frame_def encode_frame_def unmask_def upt_rec numeral_2_eq_2 [symmetric])
  ultimately have "list_all wire_ok ?sent \<and>
      concat [[0x81], [0x85, 0x37, 0xFA, 0x21, 0x3D, 0x7F], [0x9F, 0x4D, 0x51, 0x58, 0x89], [0x00]] =
      concat (map wire_frame ?sent)" by blast
  from websocket_stream [THEN conjunct2, THEN mp, OF this] show ?thesis by (simp only: list.map snd_conv)
qed

end
