(* ===== verification/Channel_Connection.thy ===== *)
theory Channel_Connection
  imports Channel_Replay Channel_Websocket
begin

text \<open>
  A channel connection: the loop of \<^verbatim>\<open>tako-channels/src/websocket/serve.rs\<close> with the close codes
  (\<^verbatim>\<open>close_codes.rs\<close>, \<^verbatim>\<open>error_codes.rs\<close>), the first frame (\<^verbatim>\<open>websocket.rs\<close>), presence sessions
  (\<^verbatim>\<open>presence.rs\<close>) and the change signal of a channel (\<^verbatim>\<open>mesh.rs\<close>).

  One pass of the loop is three functions, cut at the points where others can run: \<open>session_top\<close>
  up to the point where changes are marked as seen, \<open>session_read\<close> from the read of the store to
  the decision to wait, and \<open>session_action\<close> for what the wait returned.  The reset signal, the
  clock and the answers of the store are arguments.  What the connection writes to the socket is
  the list \<open>se_out\<close>; a write that fails ends the connection and is not modelled.  The packages
  \<^verbatim>\<open>serde_json\<close> and the UTF-8 check are the parameter \<open>conn_lib\<close>.
\<close>

section \<open>Close codes\<close>

datatype close_code =
    AuthFrameMalformed
  | AuthFrameMissing
  | ChannelUnknown
  | ParamsInvalid
  | ReplayTooOld
  | VerifyRejected

fun code_str :: "close_code \<Rightarrow> string" where
  "code_str AuthFrameMalformed = ''PDS2Z5''"
| "code_str AuthFrameMissing = ''47WJ38''"
| "code_str ChannelUnknown = ''7RQYM3''"
| "code_str ParamsInvalid = ''K5Q4D8''"
| "code_str ReplayTooOld = ''YHNEN8''"
| "code_str VerifyRejected = ''GJRQHR''"

definition from_code :: "string \<Rightarrow> close_code option" where
  "from_code code =
     (if code = ''PDS2Z5'' then Some AuthFrameMalformed
      else if code = ''47WJ38'' then Some AuthFrameMissing
      else if code = ''7RQYM3'' then Some ChannelUnknown
      else if code = ''K5Q4D8'' then Some ParamsInvalid
      else if code = ''YHNEN8'' then Some ReplayTooOld
      else if code = ''GJRQHR'' then Some VerifyRejected
      else None)"

fun close_name :: "close_code \<Rightarrow> string" where
  "close_name AuthFrameMalformed = ''auth-frame-malformed''"
| "close_name AuthFrameMissing = ''auth-frame-missing''"
| "close_name ChannelUnknown = ''channel-unknown''"
| "close_name ParamsInvalid = ''params-invalid''"
| "close_name ReplayTooOld = ''replay-too-old''"
| "close_name VerifyRejected = ''verify-rejected''"

fun ws_close_code :: "close_code \<Rightarrow> nat" where
  "ws_close_code AuthFrameMalformed = 4400"
| "ws_close_code AuthFrameMissing = 4401"
| "ws_close_code VerifyRejected = 4403"
| "ws_close_code ChannelUnknown = 4404"
| "ws_close_code ReplayTooOld = 4410"
| "ws_close_code ParamsInvalid = 4422"

lemma from_code_str: "from_code (code_str c) = Some c"
  by (cases c) (simp_all add: from_code_def)

lemma ws_close_code_inj: "ws_close_code a = ws_close_code b \<Longrightarrow> a = b"
  by (cases a; cases b) simp_all

section \<open>Parameters and the first frame\<close>

datatype json =
    JNull
  | JBool bool
  | JNumber string
  | JString string
  | JArray "json list"
  | JObject "(string \<times> json) list"

fun json_get :: "json \<Rightarrow> string \<Rightarrow> json option" where
  "json_get (JObject entries) key = map_of entries key"
| "json_get _ key = None"

fun json_as_str :: "json \<Rightarrow> string option" where
  "json_as_str (JString s) = Some s"
| "json_as_str _ = None"

record 'v conn_lib =
  cl_utf8 :: "bytes \<Rightarrow> string option"
  cl_json :: "string \<Rightarrow> json option"
  cl_publish :: "bytes \<Rightarrow> 'v publish_payload option"
  cl_presence :: "bytes \<Rightarrow> (string \<times> 'v) option"
  cl_null :: 'v

record header_value =
  hv_scheme :: "string option"
  hv_value :: string

definition header_value_parse :: "string \<Rightarrow> header_value" where
  "header_value_parse raw =
     (if CHR '' '' \<in> set raw
      then \<lparr>hv_scheme = Some (takeWhile (\<lambda>ch. ch \<noteq> CHR '' '') raw),
            hv_value = tl (dropWhile (\<lambda>ch. ch \<noteq> CHR '' '') raw)\<rparr>
      else \<lparr>hv_scheme = None, hv_value = raw\<rparr>)"

record first_frame_auth =
  ff_header_value :: "header_value option"
  ff_last_message_id :: "replay_cursor option"

definition last_message_id :: "'v channel_lib \<Rightarrow> json option \<Rightarrow> replay_cursor option option" where
  "last_message_id lib field = (case field of
     None \<Rightarrow> Some None
   | Some JNull \<Rightarrow> Some None
   | Some (JString s) \<Rightarrow> (case cursor_from_str lib s of Inl _ \<Rightarrow> None | Inr c \<Rightarrow> Some (Some c))
   | Some (JNumber s) \<Rightarrow> (case cursor_from_str lib s of Inl _ \<Rightarrow> None | Inr c \<Rightarrow> Some (Some c))
   | _ \<Rightarrow> None)"

definition parse_first_frame :: "'v channel_lib \<Rightarrow> 'v conn_lib \<Rightarrow> string \<Rightarrow> first_frame_auth option" where
  "parse_first_frame lib cl frame_text = (case cl_json cl frame_text of
     None \<Rightarrow> None
   | Some v \<Rightarrow>
       if Option.bind (json_get v ''type'') json_as_str \<noteq> Some ''tako.auth'' then None
       else map_option
         (\<lambda>last. \<lparr>ff_header_value = map_option header_value_parse (Option.bind (json_get v ''token'') json_as_str),
                 ff_last_message_id = last\<rparr>)
         (last_message_id lib (json_get v ''lastMessageId'')))"

definition is_auth_payload :: "'v channel_lib \<Rightarrow> 'v conn_lib \<Rightarrow> bytes \<Rightarrow> bool" where
  "is_auth_payload lib cl payload =
     (case cl_utf8 cl payload of None \<Rightarrow> False | Some s \<Rightarrow> parse_first_frame lib cl s \<noteq> None)"

section \<open>Writers and presence\<close>

record 'v presence_member =
  pm_connection_id :: string
  pm_subject :: "string option"
  pm_data :: 'v

text \<open>The trait \<^verbatim>\<open>ChannelWriter\<close> on states of the store; a call that fails changes nothing.\<close>

record ('h, 'v) channel_writer =
  cw_publish :: "'h \<Rightarrow> string \<Rightarrow> 'v publish_payload \<Rightarrow> bool \<Rightarrow> channel_error + 'h"
  cw_update_presence :: "'h \<Rightarrow> string \<Rightarrow> 'v presence_member \<Rightarrow> channel_error + 'h"
  cw_presence :: "'h \<Rightarrow> string \<Rightarrow> channel_error + 'v presence_member list"
  cw_remove_presence :: "'h \<Rightarrow> string \<Rightarrow> string \<Rightarrow> channel_error + 'h"

record 'v presence_session =
  ps_channel :: string
  ps_member :: "'v presence_member"
  ps_joined :: bool
  ps_last_snapshot :: "'v presence_member list option"

definition PRESENCE_CHANNEL_PREFIX :: string where
  "PRESENCE_CHANNEL_PREFIX = ''tako.presence:''"

definition STORE_CHANNEL_PREFIX :: string where
  "STORE_CHANNEL_PREFIX = ''tako.store:''"

definition hex_digit :: "nat \<Rightarrow> char" where
  "hex_digit n = ''0123456789abcdef'' ! n"

definition hex_byte :: "8 word \<Rightarrow> string" where
  "hex_byte b = [hex_digit (unat b div 16), hex_digit (unat b mod 16)]"

definition new_presence :: "'v conn_lib \<Rightarrow> bytes \<Rightarrow> string \<Rightarrow> string option \<Rightarrow> 'v presence_session" where
  "new_presence cl random scope subject =
     \<lparr>ps_channel = scope,
      ps_member = \<lparr>pm_connection_id = concat (map hex_byte random), pm_subject = subject, pm_data = cl_null cl\<rparr>,
      ps_joined = False, ps_last_snapshot = None\<rparr>"

definition presence_update ::
  "'v conn_lib \<Rightarrow> ('h, 'v) channel_writer \<Rightarrow> bytes \<Rightarrow> 'h \<Rightarrow> 'v presence_session
     \<Rightarrow> channel_error + ('h \<times> 'v presence_session)" where
  "presence_update cl w payload h ps = (case cl_presence cl payload of
     None \<Rightarrow> Inl (BadRequest ''Invalid presence update'')
   | Some (kind, data) \<Rightarrow>
       if kind \<noteq> ''tako.presence'' then Inl (BadRequest ''Expected a presence update'')
       else
         let member = (ps_member ps)\<lparr>pm_data := data\<rparr>
         in case cw_update_presence w h (ps_channel ps) member of
              Inl e \<Rightarrow> Inl e
            | Inr h' \<Rightarrow> Inr (h', ps\<lparr>ps_member := member, ps_joined := True\<rparr>))"

definition presence_snapshot ::
  "('h, 'v) channel_writer \<Rightarrow> 'h \<Rightarrow> 'v presence_session
     \<Rightarrow> channel_error + ('v presence_member list option \<times> 'v presence_session)" where
  "presence_snapshot w h ps =
     (if \<not> ps_joined ps then Inr (None, ps)
      else case cw_presence w h (ps_channel ps) of
        Inl e \<Rightarrow> Inl e
      | Inr members \<Rightarrow>
          if ps_last_snapshot ps = Some members then Inr (None, ps)
          else Inr (Some members, ps\<lparr>ps_last_snapshot := Some members\<rparr>))"

definition presence_drop :: "('h, 'v) channel_writer \<Rightarrow> 'v presence_session \<Rightarrow> 'h \<Rightarrow> 'h" where
  "presence_drop w ps h =
     (if \<not> ps_joined ps then h
      else case cw_remove_presence w h (ps_channel ps) (pm_connection_id (ps_member ps)) of
        Inl _ \<Rightarrow> h
      | Inr h' \<Rightarrow> h')"

section \<open>The change signal\<close>

text \<open>The watch channel of a stream as one receiver sees it: the greatest position announced,
  and whether a change has been announced that it has not seen.\<close>

type_synonym watch = "int option \<times> bool"

definition notify_committed :: "int \<Rightarrow> watch \<Rightarrow> watch" where
  "notify_committed latest wa =
     (if (case fst wa of None \<Rightarrow> True | Some previous \<Rightarrow> previous < latest) then (Some latest, True) else wa)"

definition wake :: "int option \<Rightarrow> watch \<Rightarrow> watch" where
  "wake head wa = (case head of Some latest \<Rightarrow> notify_committed latest wa | None \<Rightarrow> (fst wa, True))"

section \<open>The connection\<close>

datatype 'v outgoing =
    Send_message "'v channel_message"
  | Send_presence_ready
  | Send_snapshot string "'v presence_member list"
  | Send_ping bytes
  | Send_pong bytes
  | Send_close nat string

datatype session_status = Serving | Ended | Failed channel_error | Panicked

datatype session_point = At_top | At_read | At_wait

record 'v session =
  se_after :: "replay_cursor option"
  se_read_replay :: bool
  se_buffered :: bool
  se_buffer :: bytes
  se_next_ping :: int
  se_presence :: "'v presence_session option"
  se_point :: session_point
  se_status :: session_status
  se_out :: "'v outgoing list"

definition keepalive_ms :: "auth_response \<Rightarrow> int" where
  "keepalive_ms auth = max (uint (au_keepalive_interval_ms auth)) 1"

definition lifetime_ms :: "auth_response \<Rightarrow> int" where
  "lifetime_ms auth = max (uint (au_max_connection_lifetime_ms auth)) 1"

definition send_out :: "'v outgoing \<Rightarrow> 'v session \<Rightarrow> 'v session" where
  "send_out frame se = se\<lparr>se_out := se_out se @ [frame]\<rparr>"

definition end_with :: "nat \<Rightarrow> string \<Rightarrow> 'v session \<Rightarrow> 'v session" where
  "end_with code reason se = (send_out (Send_close code reason) se)\<lparr>se_status := Ended\<rparr>"

definition write_close :: "close_code \<Rightarrow> 'v session \<Rightarrow> 'v session" where
  "write_close code se = end_with (ws_close_code code) (close_name code) se"

text \<open>Before the loop.  The answers to synchronising the metadata, to the ephemeral subscription and
  to resolving the requested cursor are arguments.\<close>

definition serve_open ::
  "'v conn_lib \<Rightarrow> string \<Rightarrow> auth_response \<Rightarrow> bytes \<Rightarrow> string \<Rightarrow> bytes \<Rightarrow> int
     \<Rightarrow> channel_error + unit \<Rightarrow> channel_error + unit \<Rightarrow> channel_error + replay_cursor option \<Rightarrow> 'v session" where
  "serve_open cl channel auth random scope buffer started synced subscribed resolved =
     (let se = \<lparr>se_after = None, se_read_replay = False, se_buffered = True, se_buffer = buffer,
                se_next_ping = started + keepalive_ms auth, se_presence = None, se_point = At_top,
                se_status = Serving, se_out = []\<rparr>
      in if starts_with channel STORE_CHANNEL_PREFIX then write_close VerifyRejected se
         else if \<not> au_ephemeral auth \<and> isl synced then write_close VerifyRejected se
         else if au_ephemeral auth \<and> isl subscribed then write_close VerifyRejected se
         else
           let se = (if starts_with channel PRESENCE_CHANNEL_PREFIX
                     then send_out Send_presence_ready (se\<lparr>se_presence := Some (new_presence cl random scope (au_subject auth))\<rparr>)
                     else se)
           in if au_ephemeral auth then se
              else case resolved of
                Inr after \<Rightarrow> se\<lparr>se_after := after, se_read_replay := (se_presence se = None)\<rparr>
              | Inl e \<Rightarrow> write_close (if e = StaleCursor then ReplayTooOld else VerifyRejected) se)"

definition session_top :: "('h, 'v) channel_writer \<Rightarrow> 'h \<Rightarrow> bool \<Rightarrow> 'v session \<Rightarrow> 'v session" where
  "session_top w h reset se =
     (if reset then write_close ReplayTooOld se
      else case se_presence se of
        None \<Rightarrow> se\<lparr>se_point := At_read\<rparr>
      | Some ps \<Rightarrow>
          (case presence_snapshot w h ps of
             Inl e \<Rightarrow> se\<lparr>se_status := Failed e\<rparr>
           | Inr (None, ps') \<Rightarrow> se\<lparr>se_presence := Some ps', se_point := At_read\<rparr>
           | Inr (Some members, ps') \<Rightarrow>
               send_out (Send_snapshot (pm_connection_id (ps_member ps')) members)
                 (se\<lparr>se_presence := Some ps', se_point := At_read\<rparr>)))"

text \<open>\<^verbatim>\<open>borrow_and_update\<close>, before the snapshot of a presence channel and before every read.\<close>

definition marks_seen :: "'v session \<Rightarrow> bool" where
  "marks_seen se = (se_presence se \<noteq> None \<or> se_read_replay se)"

fun send_messages :: "'v channel_lib \<Rightarrow> 'v channel_message list \<Rightarrow> 'v session \<Rightarrow> 'v session" where
  "send_messages lib [] se = se"
| "send_messages lib (m # ms) se = (case cursor_from_str lib (m_id m) of
     Inl _ \<Rightarrow> (send_out (Send_message m) se)\<lparr>se_status := Panicked\<rparr>
   | Inr c \<Rightarrow> send_messages lib ms ((send_out (Send_message m) se)\<lparr>se_after := Some c\<rparr>))"

definition PAGE :: "32 word" where
  "PAGE = 100"

definition session_read ::
  "'v channel_lib \<Rightarrow> (replay_cursor option \<Rightarrow> 32 word \<Rightarrow> channel_error + 'v channel_message list)
     \<Rightarrow> auth_response \<Rightarrow> int \<Rightarrow> int \<Rightarrow> bool \<Rightarrow> 'v session \<Rightarrow> 'v session" where
  "session_read lib read auth started now reset se =
     (case (if se_read_replay se then read (se_after se) PAGE else Inr []) of
        Inl e \<Rightarrow> if e = StaleCursor then write_close ReplayTooOld se else se\<lparr>se_status := Failed e\<rparr>
      | Inr messages \<Rightarrow>
          if reset then write_close ReplayTooOld se
          else
            let more_left = (length messages = 100);
                se = send_messages lib messages (se\<lparr>se_read_replay := more_left,
                       se_point := (if more_left then At_top else At_wait)\<rparr>);
                se = (if messages = [] then se else se\<lparr>se_next_ping := now + keepalive_ms auth\<rparr>)
            in if se_status se \<noteq> Serving then se
               else if lifetime_ms auth \<le> now - started then end_with 1000 ''connection expired'' se
               else se)"

datatype 'v action =
    Read_chunk bytes
  | Read_end
  | Tick
  | Changed
  | Reset
  | Ephemeral "'v channel_message option"

definition handle_frame ::
  "'v channel_lib \<Rightarrow> 'v conn_lib \<Rightarrow> ('h, 'v) channel_writer \<Rightarrow> string \<Rightarrow> auth_response \<Rightarrow> websocket_frame
     \<Rightarrow> 'h \<Rightarrow> 'v session \<Rightarrow> 'h \<times> 'v session" where
  "handle_frame lib cl w channel auth frame h se =
     (if fr_opcode frame = 0x1 then
        if is_auth_payload lib cl (fr_payload frame) then (h, se)
        else (case se_presence se of
          Some ps \<Rightarrow> (case presence_update cl w (fr_payload frame) h ps of
              Inl _ \<Rightarrow> (h, end_with 4400 ''invalid presence update'' se)
            | Inr (h', ps') \<Rightarrow> (h', se\<lparr>se_presence := Some ps'\<rparr>))
        | None \<Rightarrow> (case cl_publish cl (fr_payload frame) of
              None \<Rightarrow> (h, se\<lparr>se_status := Failed (BadRequest ''invalid websocket publish payload'')\<rparr>)
            | Some payload \<Rightarrow> (case cw_publish w h channel payload (au_ephemeral auth) of
                Inl e \<Rightarrow> (h, se\<lparr>se_status := Failed e\<rparr>)
              | Inr h' \<Rightarrow> (h', se))))
      else if fr_opcode frame = 0x8 then (h, end_with 1000 ''closing'' se)
      else if fr_opcode frame = 0x9 then (h, send_out (Send_pong (fr_payload frame)) se)
      else if fr_opcode frame = 0xA then (h, se)
      else (h, end_with 1003 ''unsupported frame'' se))"

lemma handle_frame_buffer: "handle_frame lib cl w channel auth frame h se = (h', se') \<Longrightarrow> se_buffer se' = se_buffer se"
  by (auto simp: handle_frame_def end_with_def send_out_def split: if_splits option.splits sum.splits prod.splits)

lemma handle_frame_shrinks:
  assumes "next_frame (se_buffer se) = Inr (Some frame, b)"
  shows "(case handle_frame lib cl w channel auth frame h (se\<lparr>se_buffer := b\<rparr>) of
    (h', se') \<Rightarrow> length (se_buffer se')) < length (se_buffer se)"
  using next_frame_consumes [OF assms] by (auto dest: handle_frame_buffer split: prod.split)

function handle_frames ::
  "'v channel_lib \<Rightarrow> 'v conn_lib \<Rightarrow> ('h, 'v) channel_writer \<Rightarrow> string \<Rightarrow> auth_response
     \<Rightarrow> 'h \<Rightarrow> 'v session \<Rightarrow> 'h \<times> 'v session" where
  "handle_frames lib cl w channel auth h se = (case next_frame (se_buffer se) of
     Inl e \<Rightarrow> (h, se\<lparr>se_status := Failed e\<rparr>)
   | Inr (None, b) \<Rightarrow> (h, se)
   | Inr (Some frame, b) \<Rightarrow>
       (case handle_frame lib cl w channel auth frame h (se\<lparr>se_buffer := b\<rparr>) of
          (h', se') \<Rightarrow> if se_status se' \<noteq> Serving then (h', se') else handle_frames lib cl w channel auth h' se'))"
  by pat_completeness auto
termination
  by (relation "measure (\<lambda>(lib, cl, w, channel, auth, h, se). length (se_buffer se))")
    (auto intro: handle_frame_shrinks)

declare handle_frames.simps [simp del]

definition session_action ::
  "'v channel_lib \<Rightarrow> 'v conn_lib \<Rightarrow> ('h, 'v) channel_writer \<Rightarrow> string \<Rightarrow> auth_response \<Rightarrow> int \<Rightarrow> 'v action
     \<Rightarrow> 'h \<Rightarrow> 'v session \<Rightarrow> 'h \<times> 'v session" where
  "session_action lib cl w channel auth now act h se0 =
     (let se = se0\<lparr>se_buffered := False, se_point := At_top\<rparr>;
          next_ping = now + keepalive_ms auth
      in case (if se_buffered se0 then Read_chunk [] else act) of
        Read_chunk chunk \<Rightarrow>
          (case handle_frames lib cl w channel auth h (se\<lparr>se_buffer := se_buffer se @ chunk\<rparr>) of
             (h', se') \<Rightarrow> (h', if se_status se' = Serving then se'\<lparr>se_next_ping := next_ping\<rparr> else se'))
      | Ephemeral (Some m) \<Rightarrow> (h, (send_out (Send_message m) se)\<lparr>se_next_ping := next_ping\<rparr>)
      | Ephemeral None \<Rightarrow> (h, write_close ReplayTooOld se)
      | Read_end \<Rightarrow> (h, se\<lparr>se_status := Ended\<rparr>)
      | Reset \<Rightarrow> (h, write_close ReplayTooOld se)
      | Changed \<Rightarrow> (h, se\<lparr>se_read_replay := (se_presence se = None)\<rparr>)
      | Tick \<Rightarrow>
          (h, if se_next_ping se \<le> now then (send_out (Send_ping []) se)\<lparr>se_next_ping := next_ping\<rparr> else se))"

end
