(* ===== verification/Channel_Session.thy ===== *)
theory Channel_Session
  imports Channel_Connection
begin

text \<open>
  What a subscriber gets.  \<open>conn_run\<close> is a connection beside everything else that happens to the
  store: commits, announcements of commits on the change signal, resets, time.  Between a commit
  and its announcement others can run; commits not yet announced are kept in \<open>wd_unwoken\<close>.

  The locale \<open>replay_store\<close> is what the loop relies on: the contract of a store's reads and
  cursors, whatever the backend.  Its lemmas say that a subscriber has been sent exactly the
  messages between its start and its cursor, that it does not go to sleep on a message it has
  not been sent, and that it catches up.
\<close>

section \<open>Runs\<close>

record ('h, 'v) conn_world =
  wd_store :: 'h
  wd_unwoken :: "int set"
  wd_watch :: watch
  wd_session :: "'v session"

text \<open>A writer's calls are steps of the store.\<close>

definition writer_ok :: "('h \<Rightarrow> 'h \<Rightarrow> bool) \<Rightarrow> ('h, 'v) channel_writer \<Rightarrow> bool" where
  "writer_ok step w =
     ((\<forall>h c p e h'. cw_publish w h c p e = Inr h' \<longrightarrow> step h h')
      \<and> (\<forall>h c m h'. cw_update_presence w h c m = Inr h' \<longrightarrow> step h h')
      \<and> (\<forall>h c i h'. cw_remove_presence w h c i = Inr h' \<longrightarrow> step h h'))"

fun action_enabled :: "auth_response \<Rightarrow> watch \<Rightarrow> 'v action \<Rightarrow> bool" where
  "action_enabled auth wa Changed = (\<not> au_ephemeral auth \<and> snd wa)"
| "action_enabled auth wa (Ephemeral m) = au_ephemeral auth"
| "action_enabled auth wa act = True"

text \<open>The change signal is consumed when the wait returned with it.\<close>

definition consumed :: "'v session \<Rightarrow> 'v action \<Rightarrow> watch \<Rightarrow> watch" where
  "consumed se act wa = (if \<not> se_buffered se \<and> act = Changed then (fst wa, False) else wa)"

definition stream_positions :: "'v log \<Rightarrow> string \<Rightarrow> int set" where
  "stream_positions log c = fst ` set (filter (in_stream c) log)"

definition committed :: "('h \<Rightarrow> 'v log) \<Rightarrow> string \<Rightarrow> 'h \<Rightarrow> ('h, 'v) conn_world \<Rightarrow> ('h, 'v) conn_world" where
  "committed log c h' wd = wd\<lparr>wd_store := h',
     wd_unwoken := wd_unwoken wd \<union> (stream_positions (log h') c - stream_positions (log (wd_store wd)) c)\<rparr>"

inductive conn_run ::
  "'v channel_lib \<Rightarrow> 'v conn_lib \<Rightarrow> auth_response \<Rightarrow> int \<Rightarrow> string \<Rightarrow> ('h \<Rightarrow> 'h \<Rightarrow> bool) \<Rightarrow> ('h \<Rightarrow> 'v log) \<Rightarrow>
   ('h \<Rightarrow> int \<Rightarrow> string \<Rightarrow> replay_cursor option \<Rightarrow> 32 word \<Rightarrow> channel_error + 'v channel_message list)
   \<Rightarrow> ('h, 'v) conn_world \<Rightarrow> ('h, 'v) conn_world \<Rightarrow> bool"
  for lib cl auth started c step log read wd0 where
  conn_start: "conn_run lib cl auth started c step log read wd0 wd0"
| conn_commit: "conn_run lib cl auth started c step log read wd0 wd \<Longrightarrow> step (wd_store wd) h' \<Longrightarrow>
    conn_run lib cl auth started c step log read wd0 (committed log c h' wd)"
| conn_wake: "conn_run lib cl auth started c step log read wd0 wd \<Longrightarrow> q \<le> log_head (log (wd_store wd)) c \<Longrightarrow>
    conn_run lib cl auth started c step log read wd0
      (wd\<lparr>wd_watch := wake (Some q) (wd_watch wd), wd_unwoken := wd_unwoken wd - {..q}\<rparr>)"
| conn_stir: "conn_run lib cl auth started c step log read wd0 wd \<Longrightarrow>
    conn_run lib cl auth started c step log read wd0 (wd\<lparr>wd_watch := wake None (wd_watch wd)\<rparr>)"
| conn_top: "conn_run lib cl auth started c step log read wd0 wd \<Longrightarrow> se_status (wd_session wd) = Serving \<Longrightarrow>
    se_point (wd_session wd) = At_top \<Longrightarrow>
    conn_run lib cl auth started c step log read wd0
      (wd\<lparr>wd_session := session_top w (wd_store wd) reset (wd_session wd),
          wd_watch := (if marks_seen (wd_session wd) \<and> \<not> reset then (fst (wd_watch wd), False) else wd_watch wd)\<rparr>)"
| conn_read: "conn_run lib cl auth started c step log read wd0 wd \<Longrightarrow> se_status (wd_session wd) = Serving \<Longrightarrow>
    se_point (wd_session wd) = At_read \<Longrightarrow>
    conn_run lib cl auth started c step log read wd0
      (wd\<lparr>wd_session := session_read lib (read (wd_store wd) wall c) auth started now reset (wd_session wd)\<rparr>)"
| conn_action: "conn_run lib cl auth started c step log read wd0 wd \<Longrightarrow> se_status (wd_session wd) = Serving \<Longrightarrow>
    se_point (wd_session wd) = At_wait \<Longrightarrow> action_enabled auth (wd_watch wd) act \<Longrightarrow> writer_ok step w \<Longrightarrow>
    session_action lib cl w c auth now act (wd_store wd) (wd_session wd) = (h', se') \<Longrightarrow>
    conn_run lib cl auth started c step log read wd0
      ((committed log c h' wd)\<lparr>wd_session := se', wd_watch := consumed (wd_session wd) act (wd_watch wd)\<rparr>)"
| conn_drop: "conn_run lib cl auth started c step log read wd0 wd \<Longrightarrow> se_status (wd_session wd) \<noteq> Serving \<Longrightarrow>
    se_presence (wd_session wd) = Some ps \<Longrightarrow> writer_ok step w \<Longrightarrow>
    conn_run lib cl auth started c step log read wd0 (committed log c (presence_drop w ps (wd_store wd)) wd)"

section \<open>What a subscriber has been sent\<close>

fun sent_messages :: "'v outgoing list \<Rightarrow> 'v channel_message list" where
  "sent_messages [] = []"
| "sent_messages (Send_message m # out) = m # sent_messages out"
| "sent_messages (_ # out) = sent_messages out"

lemma sent_messages_append [simp]: "sent_messages (a @ b) = sent_messages a @ sent_messages b"
  by (induction a rule: sent_messages.induct) simp_all

text \<open>A log entry with the id a store shows it under.\<close>

definition shown_with :: "'v channel_lib \<Rightarrow> ('e \<Rightarrow> string \<Rightarrow> int \<Rightarrow> replay_cursor) \<Rightarrow> 'e \<Rightarrow> int \<times> 'v channel_message \<Rightarrow> 'v channel_message" where
  "shown_with lib ident e x = (snd x)\<lparr>m_id := cursor_to_string lib (ident e (m_channel (snd x)) (fst x))\<rparr>"

definition log_between :: "'v log \<Rightarrow> string \<Rightarrow> int \<Rightarrow> int \<Rightarrow> 'v log" where
  "log_between log c p q = filter (\<lambda>x. in_stream c x \<and> p < fst x \<and> fst x \<le> q) log"

lemma log_between_refl [simp]: "log_between log c p p = []"
  by (simp add: log_between_def filter_empty_conv)

lemma log_between_append:
  assumes "\<And>x. x \<in> set new \<Longrightarrow> q < fst x"
  shows "log_between (log @ new) c p q = log_between log c p q"
  using assms by (force simp: log_between_def filter_empty_conv)

lemma log_between_extend:
  assumes sorted: "sorted_wrt (<) (map fst log)" and page: "take n (log_after log c q) = page @ [x]" and "p \<le> q"
  shows "log_between log c p (fst x) = log_between log c p q @ page @ [x]"
proof -
  have rest: "log_after log c (fst x) = drop n (log_after log c q)" by (rule log_after_take [OF sorted page])
  have x: "x \<in> set (log_after log c q)" using page by (metis in_set_takeD in_set_conv_decomp)
  then have qx: "q < fst x" by (simp add: log_after_def)
  have split: "filter (\<lambda>y. in_stream c y \<and> a < fst y) log =
      filter (\<lambda>y. in_stream c y \<and> a < fst y \<and> fst y \<le> b) log @ filter (\<lambda>y. in_stream c y \<and> b < fst y) log"
    if "a \<le> b" for a b
    using sorted that
  proof (induction log)
    case (Cons y ys)
    then have IH: "filter (\<lambda>y. in_stream c y \<and> a < fst y) ys =
      filter (\<lambda>y. in_stream c y \<and> a < fst y \<and> fst y \<le> b) ys @ filter (\<lambda>y. in_stream c y \<and> b < fst y) ys" by simp
    have "filter (\<lambda>z. in_stream c z \<and> a < fst z \<and> fst z \<le> b) ys = []" if "b < fst y"
      using that Cons.prems by (auto simp: filter_empty_conv)
    then show ?case using IH Cons.prems(2) by (auto simp: not_less)
  qed simp
  have q: "log_after log c p = log_between log c p q @ log_after log c q"
    unfolding log_after_def log_between_def by (rule split [OF \<open>p \<le> q\<close>])
  have y: "log_after log c p = log_between log c p (fst x) @ log_after log c (fst x)"
    unfolding log_after_def log_between_def by (rule split) (use \<open>p \<le> q\<close> qx in simp)
  have "log_between log c p (fst x) @ drop n (log_after log c q) = (log_between log c p q @ page @ [x]) @ drop n (log_after log c q)"
    using q y rest page by (metis append.assoc append_take_drop_id)
  then show ?thesis by (simp only: append_same_eq)
qed

lemma log_between_all:
  assumes "\<And>x. x \<in> set log \<Longrightarrow> in_stream c x \<Longrightarrow> fst x \<le> q"
  shows "log_between log c p q = log_after log c p"
  using assms by (auto simp: log_between_def log_after_def intro: filter_cong)

lemma send_messages_all:
  assumes "\<And>m. m \<in> set (ms @ [m']) \<Longrightarrow> \<exists>c. cursor_from_str lib (m_id m) = Inr c" "cursor_from_str lib (m_id m') = Inr c'"
  shows "send_messages lib (ms @ [m']) se = se\<lparr>se_out := se_out se @ map Send_message (ms @ [m']), se_after := Some c'\<rparr>"
  using assms
proof (induction ms arbitrary: se)
  case (Cons m ms)
  obtain c where "cursor_from_str lib (m_id m) = Inr c" using Cons.prems(1) [of m] by auto
  then show ?case
    using Cons.IH [of "(send_out (Send_message m) se)\<lparr>se_after := Some c\<rparr>"] Cons.prems by (simp add: send_out_def)
qed (simp add: send_out_def)

lemma sent_messages_map [simp]: "sent_messages (map Send_message ms) = ms"
  by (induction ms) simp_all

text \<open>Operations that neither send a message nor move the cursor.\<close>

definition quiet :: "'v session \<Rightarrow> 'v session \<Rightarrow> bool" where
  "quiet se se' =
     (se_after se' = se_after se \<and> sent_messages (se_out se') = sent_messages (se_out se)
      \<and> se_read_replay se' = se_read_replay se \<and> (se_presence se' = None \<longleftrightarrow> se_presence se = None)
      \<and> (se_status se' = Panicked \<longrightarrow> se_status se = Panicked))"

lemma quiet_refl [simp]: "quiet se se"
  by (simp add: quiet_def)

lemma quiet_trans: "quiet a b \<Longrightarrow> quiet b c \<Longrightarrow> quiet a c"
  by (simp add: quiet_def)

lemma quiet_end [simp]: "quiet se (end_with code reason se)" "quiet se (write_close cc se)"
  by (simp_all add: quiet_def end_with_def write_close_def send_out_def)

lemma quiet_top: "quiet se (session_top w h reset se)"
  by (auto simp: session_top_def quiet_def end_with_def write_close_def send_out_def
      split: option.splits sum.splits prod.splits)

lemma quiet_frame: "handle_frame lib cl w channel auth frame h se = (h', se') \<Longrightarrow> quiet se se'"
  by (auto simp: handle_frame_def quiet_def end_with_def send_out_def
      split: if_splits option.splits sum.splits prod.splits)

lemma quiet_frames: "handle_frames lib cl w channel auth h se = (h', se') \<Longrightarrow> quiet se se'"
proof (induction lib cl w channel auth h se arbitrary: h' se' rule: handle_frames.induct)
  case (1 lib cl w channel auth h se)
  show ?case
  proof (cases "\<exists>frame b. next_frame (se_buffer se) = Inr (Some frame, b)")
    case True
    then obtain frame b where nf: "next_frame (se_buffer se) = Inr (Some frame, b)" by blast
    obtain h1 se1 where one: "handle_frame lib cl w channel auth frame h (se\<lparr>se_buffer := b\<rparr>) = (h1, se1)" by fastforce
    have q: "quiet se se1" using quiet_frame [OF one] by (simp add: quiet_def)
    show ?thesis
    proof (cases "se_status se1 = Serving")
      case True
      then have "handle_frames lib cl w channel auth h1 se1 = (h', se')"
        using 1(2) nf one by (simp add: handle_frames.simps [of lib cl w channel auth h se])
      then have "quiet se1 se'" using 1(1) [OF nf refl refl one [symmetric]] True by simp
      then show ?thesis using q quiet_trans by blast
    next
      case False
      then show ?thesis using 1(2) nf one q by (simp add: handle_frames.simps [of lib cl w channel auth h se])
    qed
  next
    case False
    then show ?thesis
      using 1(2) by (auto simp: handle_frames.simps [of lib cl w channel auth h se] quiet_def split: sum.splits option.splits prod.splits)
  qed
qed

lemma quiet_action:
  assumes "session_action lib cl w channel auth now act h se = (h', se')" "action_enabled auth wa act" "\<not> au_ephemeral auth"
  shows "if \<not> se_buffered se \<and> act = Changed
    then h' = h \<and> quiet (se\<lparr>se_read_replay := (se_presence se = None)\<rparr>) se' else quiet se se'"
proof (cases "se_buffered se \<or> (\<exists>chunk. act = Read_chunk chunk)")
  case True
  then obtain chunk where chunk: "(if se_buffered se then Read_chunk [] else act) = Read_chunk chunk"
    by (cases "se_buffered se") auto
  obtain h1 se1 where frames: "handle_frames lib cl w channel auth h
      (se\<lparr>se_buffered := False, se_point := At_top, se_buffer := se_buffer se @ chunk\<rparr>) = (h1, se1)" by fastforce
  have "quiet se se1" using quiet_frames [OF frames] by (simp add: quiet_def)
  moreover have "se' = (if se_status se1 = Serving then se1\<lparr>se_next_ping := now + keepalive_ms auth\<rparr> else se1)"
    using assms(1) frames unfolding session_action_def Let_def chunk by simp
  ultimately show ?thesis using True by (auto simp: quiet_def)
next
  case False
  then show ?thesis
    using assms by (cases act) (auto simp: session_action_def quiet_def end_with_def write_close_def send_out_def Let_def split: if_splits)
qed

lemma frame_step:
  "handle_frame lib cl w channel auth frame h se = (h', se') \<Longrightarrow> writer_ok step w \<Longrightarrow> step\<^sup>*\<^sup>* h h'"
  by (auto simp: handle_frame_def presence_update_def writer_ok_def Let_def split: if_splits option.splits sum.splits prod.splits)

lemma frames_steps:
  "handle_frames lib cl w channel auth h se = (h', se') \<Longrightarrow> writer_ok step w \<Longrightarrow> step\<^sup>*\<^sup>* h h'"
proof (induction lib cl w channel auth h se arbitrary: h' se' rule: handle_frames.induct)
  case (1 lib cl w channel auth h se)
  show ?case
  proof (cases "\<exists>frame b. next_frame (se_buffer se) = Inr (Some frame, b)")
    case True
    then obtain frame b where nf: "next_frame (se_buffer se) = Inr (Some frame, b)" by blast
    obtain h1 se1 where one: "handle_frame lib cl w channel auth frame h (se\<lparr>se_buffer := b\<rparr>) = (h1, se1)" by fastforce
    have first: "step\<^sup>*\<^sup>* h h1" by (rule frame_step [OF one 1(3)])
    show ?thesis
    proof (cases "se_status se1 = Serving")
      case True
      then have "handle_frames lib cl w channel auth h1 se1 = (h', se')"
        using 1(2) nf one by (simp add: handle_frames.simps [of lib cl w channel auth h se])
      then have "step\<^sup>*\<^sup>* h1 h'" using 1(1) [OF nf refl refl one [symmetric]] True 1(3) by simp
      then show ?thesis using first by (rule rtranclp_trans [rotated])
    next
      case False
      then show ?thesis using 1(2) nf one first by (simp add: handle_frames.simps [of lib cl w channel auth h se])
    qed
  next
    case False
    then show ?thesis
      using 1(2) by (auto simp: handle_frames.simps [of lib cl w channel auth h se] split: sum.splits option.splits prod.splits)
  qed
qed

lemma action_steps:
  assumes "session_action lib cl w channel auth now act h se = (h', se')" "writer_ok step w"
  shows "step\<^sup>*\<^sup>* h h'"
proof (cases "if se_buffered se then Read_chunk [] else act")
  case (Read_chunk chunk)
  obtain h1 se1 where frames: "handle_frames lib cl w channel auth h
      (se\<lparr>se_buffered := False, se_point := At_top, se_buffer := se_buffer se @ chunk\<rparr>) = (h1, se1)" by fastforce
  then have "h' = h1" using assms(1) unfolding session_action_def Let_def Read_chunk by simp
  then show ?thesis using frames_steps [OF frames assms(2)] by simp
next
  case (Ephemeral m)
  then show ?thesis using assms(1) by (cases m) (simp_all add: session_action_def Let_def)
qed (use assms(1) in \<open>simp_all add: session_action_def Let_def\<close>)

lemma drop_steps: "writer_ok step w \<Longrightarrow> step\<^sup>*\<^sup>* h (presence_drop w ps h)"
  by (auto simp: presence_drop_def writer_ok_def split: sum.splits)


text \<open>The greatest position announced.\<close>

definition announced :: "watch \<Rightarrow> int" where
  "announced wa = (case fst wa of None \<Rightarrow> 0 | Some q \<Rightarrow> q)"

lemma announced_fst: "fst wa = fst wa' \<Longrightarrow> announced wa = announced wa'"
  by (simp add: announced_def)

lemma wake_cases:
  "wake (Some q) wa = (Some q, True) \<or> wake (Some q) wa = wa \<and> q \<le> announced wa"
  by (cases wa) (auto simp: wake_def notify_committed_def announced_def split: option.splits)

section \<open>The contract of a store, and what it gives a subscriber\<close>

locale replay_store =
  fixes lib :: "'v channel_lib"
    and good :: "'h \<Rightarrow> bool"
    and log :: "'h \<Rightarrow> 'v log"
    and step :: "'h \<Rightarrow> 'h \<Rightarrow> bool"
    and read :: "'h \<Rightarrow> int \<Rightarrow> string \<Rightarrow> replay_cursor option \<Rightarrow> 32 word \<Rightarrow> channel_error + 'v channel_message list"
    and resolve :: "'h \<Rightarrow> int \<Rightarrow> string \<Rightarrow> replay_cursor option \<Rightarrow> channel_error + replay_cursor option"
    and ident :: "'e \<Rightarrow> string \<Rightarrow> int \<Rightarrow> replay_cursor"
    and epoch_ok :: "'e \<Rightarrow> bool"
  assumes log_sorted: "good h \<Longrightarrow> sorted_wrt (<) (map fst (log h))"
    and log_range: "good h \<Longrightarrow> x \<in> set (log h) \<Longrightarrow> 0 < fst x \<and> fst x \<le> i64_max"
    and step_good: "good h \<Longrightarrow> step h h' \<Longrightarrow> good h'"
    and step_log: "good h \<Longrightarrow> step h h' \<Longrightarrow> \<exists>new. log h' = log h @ new"
    and ident_position: "c_position (ident e c p) = p"
    and ident_parse: "epoch_ok e \<Longrightarrow> 0 \<le> p \<Longrightarrow> p \<le> i64_max \<Longrightarrow>
      cursor_from_str lib (cursor_to_string lib (ident e c p)) = Inr (ident e c p)"
    and read_exact: "good h \<Longrightarrow> epoch_ok e \<Longrightarrow> 0 \<le> p \<Longrightarrow> read h now c (Some (ident e c p)) limit = Inr ms \<Longrightarrow>
      ms = map (shown_with lib ident e) (take (unat limit) (log_after (log h) c p))"
    and read_later: "good h \<Longrightarrow> epoch_ok e \<Longrightarrow> 0 \<le> p \<Longrightarrow> read h now c (Some (ident e c p)) limit = Inr ms \<Longrightarrow>
      p \<le> q \<Longrightarrow> q \<le> log_head (log h) c \<Longrightarrow> \<exists>ms'. read h now c (Some (ident e c q)) limit = Inr ms'"
    and resolve_ok: "good h \<Longrightarrow> (\<And>r. requested = Some r \<Longrightarrow> 0 \<le> c_position r) \<Longrightarrow>
      resolve h now c requested = Inr (Some cur) \<Longrightarrow>
      \<exists>e p. epoch_ok e \<and> cur = ident e c p \<and> 0 \<le> p \<and> p \<le> log_head (log h) c"
begin

lemma steps_good_log:
  assumes "step\<^sup>*\<^sup>* h h'" "good h"
  shows "good h' \<and> (\<exists>new. log h' = log h @ new)"
  using assms
proof (induction rule: rtranclp_induct)
  case (step h1 h2)
  then show ?case by (metis append.assoc step_good step_log)
qed simp

lemma log_head_in:
  assumes "good h"
  shows "log_head (log h) c = 0 \<or> (\<exists>x\<in>set (log h). fst x = log_head (log h) c \<and> in_stream c x)"
  using max_or_zero_in [of "map fst (filter (in_stream c) (log h))"] by (auto simp: log_head_def)

lemma log_head_ge: "x \<in> set (log h) \<Longrightarrow> in_stream c x \<Longrightarrow> fst x \<le> log_head (log h) c"
  unfolding log_head_def by (intro max_or_zero_ge) auto

lemma new_above:
  assumes "good h" "good h'" "log h' = log h @ new" "p \<le> log_head (log h) c" "0 \<le> p"
  shows "x \<in> set new \<Longrightarrow> p < fst x" "log_head (log h) c \<le> log_head (log h') c"
proof -
  have sorted: "sorted_wrt (<) (map fst (log h @ new))" using log_sorted [OF assms(2)] assms(3) by simp
  note head = log_head_in [OF assms(1), of c]
  show "p < fst x" if "x \<in> set new" for x
  proof (cases "log_head (log h) c = 0")
    case True
    then show ?thesis using log_range [OF assms(2), of x] that assms(3-5) by simp
  next
    case False
    then obtain y where "y \<in> set (log h)" "fst y = log_head (log h) c" using head by blast
    then show ?thesis using sorted that assms(4) by (fastforce simp: sorted_wrt_append)
  qed
  show "log_head (log h) c \<le> log_head (log h') c"
    using head
  proof
    assume "log_head (log h) c = 0"
    then show ?thesis using log_head_nonneg [of "log h'" c] log_range [OF assms(2)] by simp
  next
    assume "\<exists>x\<in>set (log h). fst x = log_head (log h) c \<and> in_stream c x"
    then show ?thesis using assms(3) log_head_ge [of _ h' c] by fastforce
  qed
qed

definition sent_upto :: "string \<Rightarrow> int \<Rightarrow> 'h \<Rightarrow> 'v session \<Rightarrow> bool" where
  "sent_upto c p0 h se =
     (\<exists>e p. epoch_ok e \<and> p0 \<le> p \<and> 0 \<le> p \<and> p \<le> log_head (log h) c \<and> se_after se = Some (ident e c p)
        \<and> sent_messages (se_out se) = map (shown_with lib ident e) (log_between (log h) c p0 p)
        \<and> se_status se \<noteq> Panicked)"

lemma sent_upto_quiet: "sent_upto c p0 h se \<Longrightarrow> quiet se se' \<Longrightarrow> sent_upto c p0 h se'"
  unfolding sent_upto_def quiet_def by metis

lemma sent_upto_steps:
  assumes "sent_upto c p0 h se" "step\<^sup>*\<^sup>* h h'" "good h"
  shows "sent_upto c p0 h' se"
proof -
  obtain new where new: "log h' = log h @ new" and good: "good h'" using steps_good_log [OF assms(2,3)] by blast
  obtain e p where ep: "epoch_ok e" "p0 \<le> p" "0 \<le> p" "p \<le> log_head (log h) c" "se_after se = Some (ident e c p)"
    "sent_messages (se_out se) = map (shown_with lib ident e) (log_between (log h) c p0 p)" "se_status se \<noteq> Panicked"
    using assms(1) by (auto simp: sent_upto_def)
  note above = new_above [OF assms(3) good new ep(4,3)]
  have "log_between (log h') c p0 p = log_between (log h) c p0 p"
    unfolding new by (rule log_between_append) (rule above(1))
  then show ?thesis using ep above(2) by (auto simp: sent_upto_def intro!: exI [of _ e] exI [of _ p])
qed

text \<open>One read: the messages of the page are sent and the cursor moves behind them.\<close>

lemma read_page:
  assumes good: "good h" and ep: "epoch_ok e" "p0 \<le> p" "0 \<le> p" "p \<le> log_head (log h) c" "se_after se = Some (ident e c p)"
    "sent_messages (se_out se) = map (shown_with lib ident e) (log_between (log h) c p0 p)"
    and ms: "read h wall c (Some (ident e c p)) PAGE = Inr ms"
  shows "\<exists>q. p \<le> q \<and> q \<le> log_head (log h) c \<and> send_messages lib ms se = se\<lparr>se_out := se_out se @ map Send_message ms, se_after := Some (ident e c q)\<rparr>
    \<and> sent_messages (se_out se) @ ms = map (shown_with lib ident e) (log_between (log h) c p0 q)
    \<and> log_after (log h) c q = drop 100 (log_after (log h) c p) \<and> length ms = min 100 (length (log_after (log h) c p))"
proof -
  have page: "ms = map (shown_with lib ident e) (take 100 (log_after (log h) c p))"
    using read_exact [OF good ep(1,3) ms] by (simp add: PAGE_def)
  show ?thesis
  proof (cases "take 100 (log_after (log h) c p)" rule: rev_cases)
    case Nil
    then show ?thesis using ep by (intro exI [of _ p]) (simp add: page)
  next
    case (snoc before x)
    have inlog: "y \<in> set (log h) \<and> in_stream c y \<and> p < fst y" if "y \<in> set (before @ [x])" for y
      using in_set_takeD [of y 100 "log_after (log h) c p"] that unfolding snoc by (auto simp: log_after_def)
    have parse: "cursor_from_str lib (m_id (shown_with lib ident e y)) = Inr (ident e c (fst y))" if "y \<in> set (before @ [x])" for y
      using inlog [OF that] log_range [OF good, of y] by (simp add: shown_with_def in_stream_def ident_parse [OF ep(1)])
    have each: "\<exists>c. cursor_from_str lib (m_id m) = Inr c" if "m \<in> set (map (shown_with lib ident e) before @ [shown_with lib ident e x])" for m
    proof -
      have "m \<in> shown_with lib ident e ` set (before @ [x])" using that by simp
      then show ?thesis using parse by blast
    qed
    have "send_messages lib ms se = se\<lparr>se_out := se_out se @ map Send_message ms, se_after := Some (ident e c (fst x))\<rparr>"
      using send_messages_all [where se = se and ms = "map (shown_with lib ident e) before", OF each parse [of x]] by (simp add: page snoc)
    moreover have "log_between (log h) c p0 (fst x) = log_between (log h) c p0 p @ before @ [x]"
      by (rule log_between_extend [OF log_sorted [OF good] snoc ep(2)])
    moreover have "log_after (log h) c (fst x) = drop 100 (log_after (log h) c p)"
      by (rule log_after_take [OF log_sorted [OF good] snoc])
    moreover have "p \<le> fst x" "fst x \<le> log_head (log h) c" using inlog [of x] log_head_ge by auto
    moreover have "ms = map (shown_with lib ident e) (before @ [x])" using page snoc by simp
    moreover have "length ms = min 100 (length (log_after (log h) c p))" using page by simp
    ultimately show ?thesis using ep(6) by (intro exI [of _ "fst x"]) simp
  qed
qed

end


context replay_store
begin

lemma session_read_cases:
  assumes good: "good h" and sent: "sent_upto c p0 h se" and serving: "se_status se = Serving"
    and result: "se' = session_read lib (read h wall c) auth started now reset se"
  shows "sent_upto c p0 h se'" "se_presence se' = se_presence se"
    "se_status se' = Serving \<Longrightarrow> \<not> se_read_replay se' \<Longrightarrow> se_read_replay se \<Longrightarrow>
       log_after (log h) c (c_position (the (se_after se'))) = []"
    "\<not> se_read_replay se \<Longrightarrow> se_after se' = se_after se \<and> \<not> se_read_replay se'"
proof -
  obtain e p where ep: "epoch_ok e" "p0 \<le> p" "0 \<le> p" "p \<le> log_head (log h) c" "se_after se = Some (ident e c p)"
    "sent_messages (se_out se) = map (shown_with lib ident e) (log_between (log h) c p0 p)" "se_status se \<noteq> Panicked"
    using sent by (auto simp: sent_upto_def)
  have "sent_upto c p0 h se' \<and> se_presence se' = se_presence se
    \<and> (se_status se' = Serving \<longrightarrow> \<not> se_read_replay se' \<longrightarrow> se_read_replay se \<longrightarrow>
       log_after (log h) c (c_position (the (se_after se'))) = [])
    \<and> (\<not> se_read_replay se \<longrightarrow> se_after se' = se_after se \<and> \<not> se_read_replay se')"
  proof (cases "if se_read_replay se then read h wall c (se_after se) PAGE else Inr []")
    case (Inl err)
    then have "quiet se se'" "se_presence se' = se_presence se" "se_read_replay se" "se_status se' \<noteq> Serving"
      unfolding result session_read_def
      by (auto simp: quiet_def end_with_def write_close_def send_out_def split: if_splits)
    then show ?thesis using sent_upto_quiet [OF sent] by simp
  next
    case (Inr ms)
    show ?thesis
    proof (cases reset)
      case True
      then have "se' = write_close ReplayTooOld se" unfolding result session_read_def using Inr by simp
      then show ?thesis
        using sent_upto_quiet [OF sent quiet_end(2) [where cc = ReplayTooOld]] by (simp add: write_close_def end_with_def send_out_def)
    next
      case False
      let ?se = "se\<lparr>se_read_replay := (length ms = 100), se_point := (if length ms = 100 then At_top else At_wait)\<rparr>"
      obtain q where q: "p \<le> q" "q \<le> log_head (log h) c"
        "send_messages lib ms ?se = ?se\<lparr>se_out := se_out se @ map Send_message ms, se_after := Some (ident e c q)\<rparr>"
        "sent_messages (se_out se) @ ms = map (shown_with lib ident e) (log_between (log h) c p0 q)"
        "se_read_replay se \<Longrightarrow> length ms < 100 \<Longrightarrow> log_after (log h) c q = []" "length ms \<le> 100"
        "\<not> se_read_replay se \<Longrightarrow> q = p"
      proof (cases "se_read_replay se")
        case True
        then have ms: "read h wall c (Some (ident e c p)) PAGE = Inr ms" using Inr ep(5) by simp
        show ?thesis using read_page [OF good ep(1-4) _ _ ms, of ?se] ep(5,6) that True by auto
      next
        case False
        then show ?thesis using Inr ep that [of p] by simp
      qed
      have same: "ms = [] \<Longrightarrow> se_after se = Some (ident e c q)" using arg_cong [OF q(3), of se_after] by simp
      have se': "se_after se' = Some (ident e c q)" "sent_messages (se_out se') = sent_messages (se_out se) @ ms"
        "se_read_replay se' = (length ms = 100)" "se_presence se' = se_presence se" "se_status se' \<noteq> Panicked"
        unfolding result session_read_def using Inr False q(3) serving same
        by (simp_all add: Let_def end_with_def send_out_def)
      have "sent_upto c p0 h se'"
        unfolding sent_upto_def using se' q(1,2,4) ep(1-3) by (intro exI [of _ e] exI [of _ q]) simp
      moreover have "\<not> se_read_replay se \<Longrightarrow> ms = []" using Inr by simp
      ultimately show ?thesis using se' q(5-7) ep(5) by (auto simp: ident_position)
    qed
  qed
  then show "sent_upto c p0 h se'" "se_presence se' = se_presence se"
    "se_status se' = Serving \<Longrightarrow> \<not> se_read_replay se' \<Longrightarrow> se_read_replay se \<Longrightarrow>
       log_after (log h) c (c_position (the (se_after se'))) = []"
    "\<not> se_read_replay se \<Longrightarrow> se_after se' = se_after se \<and> \<not> se_read_replay se'" by blast+
qed

text \<open>A subscriber that will not read by itself has been sent every message announced, and an
  announcement it has not seen is pending or has been sent.\<close>

definition awake :: "string \<Rightarrow> ('h, 'v) conn_world \<Rightarrow> bool" where
  "awake c wd =
     (se_presence (wd_session wd) = None \<and> se_status (wd_session wd) = Serving
        \<and> \<not> se_read_replay (wd_session wd) \<and> \<not> snd (wd_watch wd) \<longrightarrow>
      announced (wd_watch wd) \<le> c_position (the (se_after (wd_session wd)))
      \<and> (\<forall>q\<in>stream_positions (log (wd_store wd)) c.
           q \<le> c_position (the (se_after (wd_session wd))) \<or> q \<in> wd_unwoken wd))"

definition world_ok :: "string \<Rightarrow> int \<Rightarrow> ('h, 'v) conn_world \<Rightarrow> bool" where
  "world_ok c p0 wd =
     (good (wd_store wd) \<and> sent_upto c p0 (wd_store wd) (wd_session wd)
      \<and> announced (wd_watch wd) \<le> log_head (log (wd_store wd)) c \<and> awake c wd)"

lemma world_ok_steps:
  assumes "world_ok c p0 wd" "step\<^sup>*\<^sup>* (wd_store wd) h'"
  shows "world_ok c p0 (committed log c h' wd)"
proof -
  have good: "good (wd_store wd)" using assms(1) by (simp add: world_ok_def)
  obtain new where new: "log h' = log (wd_store wd) @ new" and good': "good h'"
    using steps_good_log [OF assms(2) good] by blast
  have nonneg: "0 \<le> log_head (log (wd_store wd)) c"
    using log_head_nonneg [of "log (wd_store wd)" c] log_range [OF good] by blast
  have "log_head (log (wd_store wd)) c \<le> log_head (log h') c"
    using new_above(2) [OF good good' new order_refl nonneg] .
  then show ?thesis
    using assms(1) good' sent_upto_steps [OF _ assms(2) good]
    by (auto simp: world_ok_def committed_def awake_def)
qed

lemma world_ok_wake:
  assumes "world_ok c p0 wd" "q \<le> log_head (log (wd_store wd)) c"
  shows "world_ok c p0 (wd\<lparr>wd_watch := wake (Some q) (wd_watch wd), wd_unwoken := wd_unwoken wd - {..q}\<rparr>)"
  using wake_cases [of q "wd_watch wd"] assms by (elim disjE) (auto simp: world_ok_def awake_def announced_def)

lemma awake_session:
  assumes "awake c wd" "quiet (wd_session wd) se'" "se_status se' = Serving \<Longrightarrow> se_status (wd_session wd) = Serving"
    "fst wa = fst (wd_watch wd)" "snd wa = snd (wd_watch wd) \<or> se_read_replay se' \<or> se_presence se' \<noteq> None"
  shows "awake c (wd\<lparr>wd_session := se', wd_watch := wa\<rparr>)"
proof -
  have "se_after se' = se_after (wd_session wd)" "se_read_replay se' = se_read_replay (wd_session wd)"
    "se_presence se' = None \<longleftrightarrow> se_presence (wd_session wd) = None" using assms(2) by (simp_all add: quiet_def)
  then show ?thesis using assms(1,3,5) announced_fst [OF assms(4)] unfolding awake_def by auto
qed

lemma world_ok_session:
  assumes "world_ok c p0 wd" "quiet (wd_session wd) se'" "se_status se' = Serving \<Longrightarrow> se_status (wd_session wd) = Serving"
    "fst wa = fst (wd_watch wd)" "snd wa = snd (wd_watch wd) \<or> se_read_replay se' \<or> se_presence se' \<noteq> None"
  shows "world_ok c p0 (wd\<lparr>wd_session := se', wd_watch := wa\<rparr>)"
  using assms(1) announced_fst [OF assms(4)] sent_upto_quiet [OF _ assms(2)] awake_session [OF _ assms(2-5)] by (simp add: world_ok_def)

lemma world_ok_read:
  assumes "world_ok c p0 wd" "se_status (wd_session wd) = Serving"
  shows "world_ok c p0 (wd\<lparr>wd_session := session_read lib (read (wd_store wd) wall c) auth started now reset (wd_session wd)\<rparr>)"
proof -
  have good: "good (wd_store wd)" and sent: "sent_upto c p0 (wd_store wd) (wd_session wd)"
    using assms(1) by (simp_all add: world_ok_def)
  let ?se = "session_read lib (read (wd_store wd) wall c) auth started now reset (wd_session wd)"
  note cases = session_read_cases [OF good sent assms(2) refl, of wall auth started now reset]
  obtain e p where after: "se_after ?se = Some (ident e c p)" "0 \<le> p" using cases(1) by (auto simp: sent_upto_def)
  have caught_up: "log_head (log (wd_store wd)) c \<le> p \<and> (\<forall>q\<in>stream_positions (log (wd_store wd)) c. q \<le> p)"
    if "se_status ?se = Serving" "\<not> se_read_replay ?se" "se_read_replay (wd_session wd)"
  proof -
    have "log_after (log (wd_store wd)) c p = []" using cases(3) [OF that] after by (simp add: ident_position)
    then have all: "fst x \<le> p" if "x \<in> set (log (wd_store wd))" "in_stream c x" for x
      using that by (force simp: log_after_def filter_empty_conv)
    then show ?thesis using log_head_in [OF good, of c] after(2) by (auto simp: stream_positions_def)
  qed
  show ?thesis
  proof (cases "se_read_replay (wd_session wd)")
    case True
    then show ?thesis
      using assms(1) cases(1) caught_up after
      by (auto simp: world_ok_def awake_def ident_position)
  next
    case False
    then show ?thesis
      using assms cases(1,2) cases(4) by (auto simp: world_ok_def awake_def)
  qed
qed

end


text \<open>The loop of a replay while nobody resets it: read pages until one is not full.\<close>

fun replay_rounds ::
  "'v channel_lib \<Rightarrow> ('h, 'v) channel_writer \<Rightarrow> 'h \<Rightarrow> (replay_cursor option \<Rightarrow> 32 word \<Rightarrow> channel_error + 'v channel_message list)
     \<Rightarrow> auth_response \<Rightarrow> int \<Rightarrow> int \<Rightarrow> nat \<Rightarrow> 'v session \<Rightarrow> 'v session" where
  "replay_rounds lib w h read auth started now 0 se = se"
| "replay_rounds lib w h read auth started now (Suc n) se =
     (let se' = session_read lib read auth started now False (session_top w h False se)
      in if se_status se' = Serving \<and> se_point se' = At_top
         then replay_rounds lib w h read auth started now n se' else se')"

context replay_store
begin

lemma world_ok_reading:
  "world_ok c p0 wd \<Longrightarrow> world_ok c p0 (wd\<lparr>wd_session := (wd_session wd)\<lparr>se_read_replay := (se_presence (wd_session wd) = None)\<rparr>,
     wd_watch := (fst (wd_watch wd), b)\<rparr>)"
  by (auto simp: world_ok_def awake_def sent_upto_def announced_def)

lemma world_ok_action:
  assumes ok: "world_ok c p0 wd" and serving: "se_status (wd_session wd) = Serving"
    and act: "session_action lib cl w c auth now act (wd_store wd) (wd_session wd) = (h', se')"
    and enabled: "action_enabled auth (wd_watch wd) act" "\<not> au_ephemeral auth" and w: "writer_ok step w"
  shows "world_ok c p0 ((committed log c h' wd)\<lparr>wd_session := se', wd_watch := consumed (wd_session wd) act (wd_watch wd)\<rparr>)"
proof (cases "\<not> se_buffered (wd_session wd) \<and> act = Changed")
  case True
  let ?wd = "(committed log c h' wd)\<lparr>wd_session := (wd_session wd)\<lparr>se_read_replay := (se_presence (wd_session wd) = None)\<rparr>,
    wd_watch := (fst (wd_watch wd), False)\<rparr>"
  have "quiet (wd_session ?wd) se'" using quiet_action [OF act enabled] True by simp
  moreover have "world_ok c p0 ?wd"
    using world_ok_reading [OF world_ok_steps [OF ok action_steps [OF act w]], of False] by (simp add: committed_def)
  ultimately show ?thesis
    using world_ok_session [of c p0 ?wd se' "(fst (wd_watch wd), False)"] True serving by (simp add: consumed_def)
next
  case False
  then have "quiet (wd_session wd) se'" using quiet_action [OF act enabled] by auto
  then show ?thesis
    using world_ok_session [OF world_ok_steps [OF ok action_steps [OF act w]], of se' "wd_watch wd"] False serving
    by (auto simp: consumed_def committed_def)
qed

lemma world_ok_run:
  assumes "conn_run lib cl auth started c step log read wd0 wd" "world_ok c p0 wd0" "\<not> au_ephemeral auth"
  shows "world_ok c p0 wd"
  using assms(1)
proof (induction rule: conn_run.induct)
  case conn_start
  show ?case by (rule assms(2))
next
  case (conn_commit wd h')
  then show ?case by (intro world_ok_steps) simp_all
next
  case (conn_wake wd q)
  then show ?case by (intro world_ok_wake)
next
  case (conn_stir wd)
  then show ?case by (simp add: world_ok_def awake_def wake_def announced_def)
next
  case (conn_top wd reset w)
  then show ?case
    using quiet_top [of "wd_session wd" w "wd_store wd" reset]
    by (intro world_ok_session) (auto simp: marks_seen_def quiet_def)
next
  case (conn_read wd wall now reset)
  then show ?case by (intro world_ok_read)
next
  case (conn_action wd act w now h' se')
  then show ?case using assms(3) by (intro world_ok_action)
next
  case (conn_drop wd ps w)
  then show ?case by (intro world_ok_steps drop_steps)
qed

lemma world_ok_start:
  assumes "good h" "\<not> au_ephemeral auth" "\<And>r. requested = Some r \<Longrightarrow> 0 \<le> c_position r"
    and se: "se = serve_open cl c auth random scope buffer started synced subscribed (resolve h now c requested)"
    and cur: "se_after se = Some cur" and wa: "announced wa \<le> log_head (log h) c"
  shows "world_ok c (c_position cur) \<lparr>wd_store = h, wd_unwoken = unwoken, wd_watch = wa, wd_session = se\<rparr>"
proof -
  have open_facts: "resolve h now c requested = Inr (Some cur)" "se_status se = Serving" "sent_messages (se_out se) = []"
    "se_read_replay se = (se_presence se = None)"
    using cur assms(2) unfolding se serve_open_def
    by (auto simp: Let_def write_close_def end_with_def send_out_def split: if_splits sum.splits)
  obtain e p where "epoch_ok e" "cur = ident e c p" "0 \<le> p" "p \<le> log_head (log h) c"
    using resolve_ok [OF assms(1,3) open_facts(1)] by blast
  then have "sent_upto c (c_position cur) h se"
    unfolding sent_upto_def using open_facts cur by (intro exI [of _ e] exI [of _ p]) (simp add: ident_position)
  then show ?thesis using assms(1) wa open_facts(4) by (auto simp: world_ok_def awake_def)
qed

lemma all_sent:
  assumes "sent_upto c p0 h se" "\<And>q. q \<in> stream_positions (log h) c \<Longrightarrow> q \<le> c_position (the (se_after se))"
  shows "\<exists>e. epoch_ok e \<and> sent_messages (se_out se) = map (shown_with lib ident e) (log_after (log h) c p0)"
proof -
  obtain e p where ep: "epoch_ok e" "se_after se = Some (ident e c p)"
    "sent_messages (se_out se) = map (shown_with lib ident e) (log_between (log h) c p0 p)"
    using assms(1) by (auto simp: sent_upto_def)
  have "log_between (log h) c p0 p = log_after (log h) c p0"
    using assms(2) ep(2) by (intro log_between_all) (auto simp: stream_positions_def ident_position)
  then show ?thesis using ep by auto
qed

theorem nothing_slept_on:
  assumes "world_ok c p0 wd" "se_presence (wd_session wd) = None" "se_status (wd_session wd) = Serving"
    "\<not> se_read_replay (wd_session wd)" "\<not> snd (wd_watch wd)" "wd_unwoken wd = {}"
  shows "\<exists>e. epoch_ok e \<and> sent_messages (se_out (wd_session wd)) = map (shown_with lib ident e) (log_after (log (wd_store wd)) c p0)"
  using assms by (intro all_sent) (auto simp: world_ok_def awake_def)

theorem rounds_catch_up:
  assumes "good h" "sent_upto c p0 h se" "se_status se = Serving" "se_presence se = None" "se_read_replay se"
    and "read h wall c (se_after se) PAGE = Inr ms" "now - started < lifetime_ms auth"
    and "length (log_after (log h) c (c_position (the (se_after se)))) div 100 < n"
    and "se' = replay_rounds lib w h (read h wall c) auth started now n se"
  shows "se_status se' = Serving \<and> se_point se' = At_wait \<and> \<not> se_read_replay se'
    \<and> (\<exists>e. epoch_ok e \<and> sent_messages (se_out se') = map (shown_with lib ident e) (log_after (log h) c p0))"
  using assms(2-6,8,9)
proof (induction n arbitrary: se ms)
  case (Suc n)
  obtain e p where ep: "epoch_ok e" "p0 \<le> p" "0 \<le> p" "p \<le> log_head (log h) c" "se_after se = Some (ident e c p)"
    "sent_messages (se_out se) = map (shown_with lib ident e) (log_between (log h) c p0 p)"
    using Suc.prems(1) by (auto simp: sent_upto_def)
  let ?top = "se\<lparr>se_point := At_read\<rparr>"
  let ?one = "session_read lib (read h wall c) auth started now False ?top"
  have top: "session_top w h False se = ?top" using Suc.prems(3) by (simp add: session_top_def)
  have ms: "read h wall c (Some (ident e c p)) PAGE = Inr ms" using Suc.prems(5) ep(5) by simp
  let ?se = "se\<lparr>se_read_replay := (length ms = 100), se_point := (if length ms = 100 then At_top else At_wait)\<rparr>"
  obtain q where q: "p \<le> q" "q \<le> log_head (log h) c"
    "send_messages lib ms ?se = ?se\<lparr>se_out := se_out se @ map Send_message ms, se_after := Some (ident e c q)\<rparr>"
    "log_after (log h) c q = drop 100 (log_after (log h) c p)" "length ms = min 100 (length (log_after (log h) c p))"
    using read_page [OF assms(1) ep(1-4) _ _ ms, of ?se] ep(5,6) by auto
  have same: "ms = [] \<Longrightarrow> se_after se = Some (ident e c q)" using arg_cong [OF q(3), of se_after] by simp
  have "se_status ?one = Serving \<and> se_presence ?one = None \<and> se_after ?one = Some (ident e c q)
    \<and> se_read_replay ?one = (length ms = 100) \<and> se_point ?one = (if length ms = 100 then At_top else At_wait)"
    unfolding session_read_def using ms q(3) Suc.prems(2-4) assms(7) ep(5) same
    by (cases "length ms = 100") (simp_all add: Let_def)
  then have one: "se_status ?one = Serving" "se_presence ?one = None" "se_after ?one = Some (ident e c q)"
    "se_read_replay ?one = (length ms = 100)" "se_point ?one = (if length ms = 100 then At_top else At_wait)" by blast+
  have sent: "sent_upto c p0 h ?one"
    using Suc.prems(1,2) by (intro session_read_cases(1) [OF assms(1) _ _ refl]) (auto simp: sent_upto_def)
  show ?case
  proof (cases "length ms = 100")
    case True
    then have len: "100 \<le> length (log_after (log h) c p)" using q(5) by simp
    have "length (log_after (log h) c q) div 100 < n"
      using Suc.prems(6) q(4) ep(5) len by (simp add: ident_position)
    moreover obtain ms' where "read h wall c (Some (ident e c q)) PAGE = Inr ms'"
      using read_later [OF assms(1) ep(1,3) ms q(1,2)] by blast
    moreover have "se' = replay_rounds lib w h (read h wall c) auth started now n ?one"
      using Suc.prems(7) top one(1,5) True by (simp add: Let_def)
    ultimately show ?thesis
      using Suc.IH [OF sent one(1,2), of ms'] one(3,4) True by (simp add: ident_position)
  next
    case False
    then have se': "se' = ?one" using Suc.prems(7) top one(5) by (simp add: Let_def)
    have "log_after (log h) c q = []" using q(4,5) False by simp
    then have "r \<le> q" if "r \<in> stream_positions (log h) c" for r
      using that by (force simp: stream_positions_def log_after_def filter_empty_conv)
    then show ?thesis
      using all_sent [OF sent] one False unfolding se' by (simp add: ident_position)
  qed
qed simp

end


end
