(* ===== verification/Channel_Subscriber.thy ===== *)
theory Channel_Subscriber
  imports Channel_History Channel_Session
begin

text \<open>
  The SQLite channel store gives connections what they rely on: the interpretation of
  \<open>replay_store\<close> on the histories of a channel file, and what it means for a subscriber.
\<close>

definition channel_step :: "'v channel_lib \<Rightarrow> 'v history \<Rightarrow> 'v history \<Rightarrow> bool" where
  "channel_step lib h h' = (\<exists>op. random_ok op \<and> h' = channel_exec lib op h)"

abbreviation sqlite_read ::
  "'v channel_lib \<Rightarrow> 'v history \<Rightarrow> int \<Rightarrow> string \<Rightarrow> replay_cursor option \<Rightarrow> 32 word \<Rightarrow> channel_error + 'v channel_message list" where
  "sqlite_read lib h now c cur limit \<equiv> read_after lib now c cur limit (h_db h)"

lemma logged_append: "\<exists>new. logged lib m log = log @ new"
  by (cases "message_position lib m") (simp_all add: logged_def)

lemma exec_log: "\<exists>new. h_log (channel_exec lib op h) = h_log h @ new"
  by (cases op) (auto simp: logged_append split: sum.split option.split)

lemma shown_sqlite: "shown_with lib (cursor_sqlite lib) = shown lib"
  by (intro ext) (simp add: shown_with_def shown_def)

lemma history_log:
  assumes "history_ok lib h"
  shows "sorted_wrt (<) (map fst (h_log h))" "x \<in> set (h_log h) \<Longrightarrow> 0 < fst x \<and> fst x \<le> i64_max"
    "stream_head (h_db h) c = log_head (h_log h) c"
  using history_okD [OF assms] by (auto simp: sqlite_log_ok_def replay_ok_def db_ok_def intro: order_trans)

lemma current_sqlite: "cursor_current lib s c (cursor_sqlite lib e c' p) \<Longrightarrow> e = cd_replay_epoch s"
  by (simp add: cursor_current_def cursor_sqlite_def)

lemma resolve_sqlite:
  assumes h: "history_ok lib h" and pos: "\<And>r. requested = Some r \<Longrightarrow> 0 \<le> c_position r"
    and res: "replay_cursor_for lib now c requested (h_db h) = Inr (Some cur)"
  shows "\<exists>p. cur = cursor_sqlite lib (cd_replay_epoch (h_db h)) c p \<and> 0 \<le> p \<and> p \<le> log_head (h_log h) c"
proof (cases requested)
  case None
  then show ?thesis
    using res history_log [OF h] log_head_nonneg [of "h_log h" c]
    by (auto simp: replay_cursor_for_def and_then_Inr Let_def)
next
  case (Some r)
  then have "cur = r" "c_scope r = c_scope (cursor_sqlite lib (cd_replay_epoch (h_db h)) c 0)" "c_position r \<le> stream_head (h_db h) c"
    using res by (auto simp: replay_cursor_for_def and_then_Inr Let_def check_cursor_def validate_cursor_def split: if_splits)
  then show ?thesis
    using pos [OF Some] history_log(3) [OF h] by (intro exI [of _ "c_position r"]) (simp add: cursor_sqlite_def)
qed

interpretation sqlite_store: replay_store lib "\<lambda>h. lib_ok lib \<and> reachable lib h" h_log "channel_step lib" "sqlite_read lib"
  "\<lambda>h now c requested. replay_cursor_for lib now c requested (h_db h)" "cursor_sqlite lib" "\<lambda>e. lib_ok lib \<and> length e = 16"
  for lib
proof (unfold_locales, goal_cases)
  case (1 h)
  then show ?case using reachable_ok history_log(1) by blast
next
  case (2 h x)
  then show ?case using reachable_ok history_log(2) by blast
next
  case (3 h h')
  then show ?case by (auto simp: channel_step_def intro: reachable_exec)
next
  case (4 h h')
  then show ?case using exec_log by (auto simp: channel_step_def)
next
  case (5 e c p)
  then show ?case by (simp add: cursor_sqlite_def)
next
  case (6 e p c)
  then show ?case using position_sqlite by blast
next
  case (7 h e p now c limit ms)
  then have ok: "history_ok lib h" using reachable_ok by blast
  show ?case
    using 7 read_after_cursor [OF _ history_okD(1,2) [OF ok], of "cursor_sqlite lib e c p" now c limit]
    by (auto simp: shown_sqlite cursor_sqlite_def cursor_current_def split: if_splits)
next
  case (8 h e p now c limit ms q)
  then have ok: "history_ok lib h" using reachable_ok by blast
  note read = read_after_cursor [OF _ history_okD(1,2) [OF ok], of "cursor_sqlite lib e c _" now c limit]
  have "set (log_after (h_log h) c q) \<subseteq> set (log_after (h_log h) c p)" using 8(5) by (auto simp: log_after_def)
  then show ?case
    using 8 read [of p] read [of q] by (auto simp: cursor_sqlite_def cursor_current_def split: if_splits)
next
  case (9 h requested now c cur)
  then have ok: "history_ok lib h" using reachable_ok by blast
  show ?case using resolve_sqlite [OF ok 9(2,3)] 9(1) history_okD(4) [OF ok] by auto
qed

section \<open>Subscribers\<close>

text \<open>A subscriber that has opened its connection: the store, what is announced, the session.\<close>

definition subscribed_world ::
  "'v channel_lib \<Rightarrow> 'v conn_lib \<Rightarrow> string \<Rightarrow> auth_response \<Rightarrow> bytes \<Rightarrow> string \<Rightarrow> bytes \<Rightarrow> int \<Rightarrow> int
     \<Rightarrow> replay_cursor option \<Rightarrow> 'v history \<Rightarrow> int set \<Rightarrow> watch \<Rightarrow> ('v history, 'v) conn_world" where
  "subscribed_world lib cl c auth random scope buffer started wall requested h unwoken wa =
     \<lparr>wd_store = h, wd_unwoken = unwoken, wd_watch = wa,
      wd_session = serve_open cl c auth random scope buffer started (Inr ()) (Inr ())
        (replay_cursor_for lib wall c requested (h_db h))\<rparr>"

definition request_ok :: "replay_cursor option \<Rightarrow> bool" where
  "request_ok requested = (case requested of None \<Rightarrow> True | Some r \<Rightarrow> 0 \<le> c_position r)"

lemma subscribed_ok:
  assumes "lib_ok lib" "reachable lib h" "\<not> au_ephemeral auth" "request_ok requested"
    and "wd0 = subscribed_world lib cl c auth random scope buffer started wall requested h unwoken wa"
    and "announced wa \<le> log_head (h_log h) c" "se_after (wd_session wd0) = Some cur"
    and "conn_run lib cl auth started c (channel_step lib) h_log (sqlite_read lib) wd0 wd"
  shows "sqlite_store.world_ok lib c (c_position cur) wd"
proof (rule sqlite_store.world_ok_run [OF assms(8) _ assms(3)])
  have "0 \<le> c_position r" if "requested = Some r" for r using assms(4) that by (simp add: request_ok_def)
  then show "sqlite_store.world_ok lib c (c_position cur) wd0"
    using assms(1-3,5-7) sqlite_store.world_ok_start [of lib h auth requested _ cl c random scope buffer started "Inr ()" "Inr ()" wall cur wa unwoken]
    by (simp add: subscribed_world_def)
qed

section \<open>An example\<close>

definition exc_conn :: "string conn_lib" where
  "exc_conn = \<lparr>cl_utf8 = (\<lambda>_. None), cl_json = (\<lambda>_. None), cl_publish = (\<lambda>_. None), cl_presence = (\<lambda>_. None), cl_null = []\<rparr>"

definition exc_auth :: auth_response where
  "exc_auth = \<lparr>au_ok = True, au_subject = None, au_transport = Some Ws, au_ephemeral = False, au_replay_window_ms = 0,
     au_inactivity_ttl_ms = 0, au_keepalive_interval_ms = 25000, au_max_connection_lifetime_ms = 7200000\<rparr>"

definition exc_opened :: "string session" where
  "exc_opened = \<lparr>se_after = Some ex_cursor, se_read_replay = True, se_buffered = True, se_buffer = [], se_next_ping = 25000,
     se_presence = None, se_point = At_top, se_status = Serving, se_out = []\<rparr>"

definition exc_world :: "(string history, string) conn_world" where
  "exc_world = \<lparr>wd_store = ex_history, wd_unwoken = {}, wd_watch = (Some 2, False), wd_session = exc_opened\<rparr>"

definition exc_next :: replay_cursor where
  "exc_next = cursor_sqlite exc_lib ex_epoch ''room'' 2"

definition exc_sent :: "string session" where
  "exc_sent = exc_opened\<lparr>se_after := Some exc_next, se_read_replay := False, se_next_ping := 25001, se_point := At_wait,
     se_out := [Send_message (ex_message 2)]\<rparr>"

lemma exc_resolve: "replay_cursor_for exc_lib 9 ''room'' (Some ex_cursor) ex_db = Inr (Some ex_cursor)"
  by code_simp

lemma exc_read: "read_after exc_lib 9 ''room'' (Some ex_cursor) PAGE ex_db = Inr [ex_message 2]"
  by code_simp

lemma exc_parse: "cursor_from_str exc_lib (m_id (ex_message 2)) = Inr exc_next"
  by code_simp

lemma exc_subscribed:
  "exc_world = subscribed_world exc_lib exc_conn ''room'' exc_auth [] [] [] 0 9 (Some ex_cursor) ex_history {} (Some 2, False)"
  by (simp add: subscribed_world_def exc_world_def ex_history_simps exc_resolve serve_open_def exc_opened_def exc_auth_def
      starts_with_def STORE_CHANNEL_PREFIX_def PRESENCE_CHANNEL_PREFIX_def keepalive_ms_def)

lemma exc_log_facts: "log_head ex_log ''room'' = 2" "log_after ex_log ''room'' 1 = [(2, ex_message 2)]"
  "shown exc_lib ex_epoch (2, ex_message 2) = ex_message 2" "c_position ex_cursor = 1"
  by code_simp+

lemma exc_start_facts:
  "\<not> au_ephemeral exc_auth" "request_ok (Some ex_cursor)" "announced (Some 2, False) \<le> log_head (h_log ex_history) ''room''"
  "se_after (wd_session exc_world) = Some ex_cursor"
  by (simp_all add: exc_auth_def request_ok_def announced_def exc_world_def exc_opened_def ex_history_simps exc_log_facts)

lemma exc_round:
  "session_read exc_lib (\<lambda>cur limit. read_after exc_lib 9 ''room'' cur limit ex_db) exc_auth 0 1 False
     (session_top w h False exc_opened) = exc_sent"
  using exc_read exc_parse
  by (simp add: session_top_def session_read_def exc_opened_def exc_sent_def exc_auth_def send_out_def keepalive_ms_def
      lifetime_ms_def)

definition exc_writer :: "(string history, string) channel_writer" where
  "exc_writer = \<lparr>cw_publish = (\<lambda>_ _ _ _. Inl Unsupported), cw_update_presence = (\<lambda>_ _ _. Inl Unsupported),
     cw_presence = (\<lambda>_ _. Inr []), cw_remove_presence = (\<lambda>_ _ _. Inl Unsupported)\<rparr>"

lemma exc_run:
  "conn_run exc_lib exc_conn exc_auth 0 ''room'' (channel_step exc_lib) h_log (sqlite_read exc_lib) exc_world
     (exc_world\<lparr>wd_session := exc_sent\<rparr>)"
proof -
  let ?run = "conn_run exc_lib exc_conn exc_auth 0 ''room'' (channel_step exc_lib) h_log (sqlite_read exc_lib)"
  have "?run exc_world (exc_world\<lparr>wd_session := session_top exc_writer (wd_store exc_world) False (wd_session exc_world),
      wd_watch := (if marks_seen (wd_session exc_world) \<and> \<not> False then (fst (wd_watch exc_world), False) else wd_watch exc_world)\<rparr>)"
    by (rule conn_run.conn_top [OF conn_run.conn_start]) (simp_all add: exc_world_def exc_opened_def)
  from conn_run.conn_read [OF this, of 9 1 False] show ?thesis
    using exc_round [of exc_writer ex_history]
    by (simp add: exc_world_def exc_opened_def session_top_def ex_history_simps marks_seen_def)
qed

section \<open>What subscribers get\<close>

text \<open>C19. Subscribers are sent exactly the log.  Whatever is published, pruned, ingested, invalidated
  or reopened beside a connection, in whatever order its loop and the others run, and whatever
  frames its client sends: what it has been sent on a channel that is not ephemeral is, in order
  and without a gap or a repetition, what the log has on the channel between the cursor it
  started from and the cursor it is at; and it never stops because the id of a message is not a
  cursor.\<close>

theorem subscriber_exact:
  assumes "lib_ok lib" "reachable lib h" "\<not> au_ephemeral auth" "request_ok requested"
    and "wd0 = subscribed_world lib cl c auth random scope buffer started wall requested h unwoken wa"
    and "announced wa \<le> log_head (h_log h) c" "se_after (wd_session wd0) = Some cur"
    and "conn_run lib cl auth started c (channel_step lib) h_log (sqlite_read lib) wd0 wd"
  shows "\<exists>epoch pos. se_after (wd_session wd) = Some (cursor_sqlite lib epoch c pos)
    \<and> c_position cur \<le> pos \<and> pos \<le> log_head (h_log (wd_store wd)) c
    \<and> sent_messages (se_out (wd_session wd)) = map (shown lib epoch) (log_between (h_log (wd_store wd)) c (c_position cur) pos)
    \<and> se_status (wd_session wd) \<noteq> Panicked"
  using subscribed_ok [OF assms]
  by (auto simp: sqlite_store.world_ok_def sqlite_store.sent_upto_def shown_sqlite)

theorem subscriber_exact_witness:
  "\<exists>epoch pos. se_after exc_sent = Some (cursor_sqlite exc_lib epoch ''room'' pos) \<and> 1 \<le> pos \<and> pos \<le> log_head ex_log ''room''
    \<and> [ex_message 2] = map (shown exc_lib epoch) (log_between ex_log ''room'' 1 pos) \<and> se_status exc_sent \<noteq> Panicked"
  using subscriber_exact [OF exc_lib_ok ex_reachable exc_start_facts(1,2) exc_subscribed exc_start_facts(3,4) exc_run]
  by (simp add: exc_log_facts exc_world_def ex_history_simps) (simp add: exc_sent_def)

text \<open>C20. No wakeup is lost.  A subscriber that is waiting, with no announcement left to look at and
  none still to be made for a committed message, has been sent everything published on its
  channel since its start.  So a message is never committed, announced and then left unsent until
  something else happens on the channel.\<close>

theorem subscriber_never_sleeps_on:
  assumes "lib_ok lib" "reachable lib h" "\<not> au_ephemeral auth" "request_ok requested"
    and "wd0 = subscribed_world lib cl c auth random scope buffer started wall requested h unwoken wa"
    and "announced wa \<le> log_head (h_log h) c" "se_after (wd_session wd0) = Some cur"
    and "conn_run lib cl auth started c (channel_step lib) h_log (sqlite_read lib) wd0 wd"
    and "se_presence (wd_session wd) = None" "se_status (wd_session wd) = Serving" "\<not> se_read_replay (wd_session wd)"
    and "\<not> snd (wd_watch wd)" "wd_unwoken wd = {}"
  shows "\<exists>epoch. sent_messages (se_out (wd_session wd)) = map (shown lib epoch) (log_after (h_log (wd_store wd)) c (c_position cur))"
  using sqlite_store.nothing_slept_on [OF subscribed_ok [OF assms(1-8)] assms(9-13)] by (auto simp: shown_sqlite)

theorem subscriber_never_sleeps_on_witness:
  "\<exists>epoch. [ex_message 2] = map (shown exc_lib epoch) (log_after ex_log ''room'' 1)"
proof -
  let ?wd = "exc_world\<lparr>wd_session := exc_sent\<rparr>"
  have "se_presence (wd_session ?wd) = None" "se_status (wd_session ?wd) = Serving" "\<not> se_read_replay (wd_session ?wd)"
    "\<not> snd (wd_watch ?wd)" "wd_unwoken ?wd = {}"
    by (simp_all add: exc_world_def exc_sent_def exc_opened_def)
  from subscriber_never_sleeps_on [OF exc_lib_ok ex_reachable exc_start_facts(1,2) exc_subscribed exc_start_facts(3,4) exc_run this]
  show ?thesis by (simp add: exc_log_facts(4) exc_world_def ex_history_simps exc_sent_def)
qed

text \<open>C21. Subscribers catch up.  A subscriber that is to read, whose cursor the store accepts and
  whose lifetime has not run out, reads and sends page after page if the store is left alone, and
  after one more round than full pages are missing it waits and has been sent everything
  published on its channel since its start.\<close>

theorem subscriber_catches_up:
  assumes "lib_ok lib" "reachable lib h" "\<not> au_ephemeral auth" "request_ok requested"
    and "wd0 = subscribed_world lib cl c auth random scope buffer started wall requested h unwoken wa"
    and "announced wa \<le> log_head (h_log h) c" "se_after (wd_session wd0) = Some cur"
    and "conn_run lib cl auth started c (channel_step lib) h_log (sqlite_read lib) wd0 wd"
    and "se_presence (wd_session wd) = None" "se_status (wd_session wd) = Serving" "se_read_replay (wd_session wd)"
    and "sqlite_read lib (wd_store wd) wall' c (se_after (wd_session wd)) PAGE = Inr ms" "now - started < lifetime_ms auth"
    and "n = length (log_after (h_log (wd_store wd)) c (c_position (the (se_after (wd_session wd))))) div 100 + 1"
    and "se = replay_rounds lib w (wd_store wd) (sqlite_read lib (wd_store wd) wall' c) auth started now n (wd_session wd)"
  shows "se_status se = Serving \<and> se_point se = At_wait
    \<and> (\<exists>epoch. sent_messages (se_out se) = map (shown lib epoch) (log_after (h_log (wd_store wd)) c (c_position cur)))"
proof -
  have ok: "lib_ok lib \<and> reachable lib (wd_store wd)"
    "sqlite_store.sent_upto lib c (c_position cur) (wd_store wd) (wd_session wd)"
    using subscribed_ok [OF assms(1-8)] unfolding sqlite_store.world_ok_def by blast+
  have n: "length (log_after (h_log (wd_store wd)) c (c_position (the (se_after (wd_session wd))))) div 100 < n" using assms(14) by simp
  show ?thesis
    using sqlite_store.rounds_catch_up [OF ok assms(10,9,11,12,13) n assms(15)] by (auto simp: shown_sqlite)
qed


theorem subscriber_catches_up_witness:
  "se_status exc_sent = Serving \<and> se_point exc_sent = At_wait
    \<and> (\<exists>epoch. [ex_message 2] = map (shown exc_lib epoch) (log_after ex_log ''room'' 1))"
proof -
  have open_facts: "se_presence (wd_session exc_world) = None" "se_status (wd_session exc_world) = Serving"
    "se_read_replay (wd_session exc_world)"
    "sqlite_read exc_lib (wd_store exc_world) 9 ''room'' (se_after (wd_session exc_world)) PAGE = Inr [ex_message 2]"
    "1 - 0 < lifetime_ms exc_auth"
    "1 = length (log_after (h_log (wd_store exc_world)) ''room'' (c_position (the (se_after (wd_session exc_world))))) div 100 + 1"
    by (simp_all add: exc_world_def exc_opened_def ex_history_simps exc_read exc_auth_def lifetime_ms_def exc_log_facts)
  have rounds: "exc_sent = replay_rounds exc_lib exc_writer (wd_store exc_world) (sqlite_read exc_lib (wd_store exc_world) 9 ''room'')
      exc_auth 0 1 1 (wd_session exc_world)"
    using exc_round [of exc_writer ex_history]
    by (simp add: exc_world_def ex_history_simps exc_sent_def exc_opened_def)
  show ?thesis
    using subscriber_catches_up [OF exc_lib_ok ex_reachable exc_start_facts(1,2) exc_subscribed exc_start_facts(3,4)
        conn_run.conn_start open_facts rounds]
    by (simp add: exc_log_facts(4) exc_world_def ex_history_simps) (simp add: exc_sent_def)
qed

end
