(* ===== verification/Channel_Postgres.thy ===== *)
theory Channel_Postgres
  imports Channel_Session Channel_Sqlite
begin

text \<open>
  The Postgres channel store (\<^verbatim>\<open>tako-channels/src/store/postgres.rs\<close>, the Postgres branches of
  \<^verbatim>\<open>store.rs\<close> and \<^verbatim>\<open>store/presence.rs\<close>).  The tables are shared by the apps.  Transactions of one
  app that allocate or delete message ids hold its advisory lock, so they are one function each.

  The server is not part of the sources: the id of a new message and the time the server writes
  into the row are arguments.  What the code relies on is \<open>serial_fresh\<close>: a \<^verbatim>\<open>BIGSERIAL\<close> column
  gives a new row a positive id that no other row has and that is greater than those it gave before to
  transactions that had ended, hence, under the lock, than all of this app.  It may skip values, and ids
  of different apps may be committed out of order.
\<close>

section \<open>Tables\<close>

record pg_message =
  pgm_id :: int
  pgm_app :: string
  pgm_channel :: string
  pgm_type :: string
  pgm_data_json :: string
  pgm_created_at :: int

record pg_metadata =
  pgd_app :: string
  pgd_channel :: string
  pgd_replay_window_ms :: int
  pgd_inactivity_ttl_ms :: int
  pgd_keepalive_interval_ms :: int
  pgd_max_connection_lifetime_ms :: int
  pgd_last_activity :: int
  pgd_latest_message_id :: int
  pgd_highest_deleted :: int

record pg_presence =
  pgp_app :: string
  pgp_channel :: string
  pgp_connection_id :: string
  pgp_member_json :: string
  pgp_expires_at :: int

record pg_channels =
  pc_messages :: "pg_message list"
  pc_metadata :: "pg_metadata list"
  pc_presence :: "pg_presence list"

definition pgd_key :: "pg_metadata \<Rightarrow> string \<times> string" where
  "pgd_key md = (pgd_app md, pgd_channel md)"

definition pgp_key :: "pg_presence \<Rightarrow> string \<times> string \<times> string" where
  "pgp_key p = (pgp_app p, pgp_channel p, pgp_connection_id p)"

section \<open>Operations\<close>

definition pgc_append ::
  "'v channel_lib \<Rightarrow> string \<Rightarrow> string \<Rightarrow> 'v publish_payload \<Rightarrow> int \<Rightarrow> int \<Rightarrow> int \<Rightarrow> int \<Rightarrow> pg_channels
     \<Rightarrow> 'v channel_message \<times> pg_channels" where
  "pgc_append lib app channel payload row_id server_now now1 now2 s =
     (let metadata = sql_insert_ignore pgd_key
            \<lparr>pgd_app = app, pgd_channel = channel, pgd_replay_window_ms = 600000, pgd_inactivity_ttl_ms = 0,
             pgd_keepalive_interval_ms = 25000, pgd_max_connection_lifetime_ms = 7200000, pgd_last_activity = now1,
             pgd_latest_message_id = 0, pgd_highest_deleted = 0\<rparr> (pc_metadata s);
          metadata = sql_update (\<lambda>md. pgd_key md = (app, channel)) (\<lambda>md. md\<lparr>pgd_last_activity := now2\<rparr>) metadata;
          messages = pc_messages s @
            [\<lparr>pgm_id = row_id, pgm_app = app, pgm_channel = channel, pgm_type = pl_type payload,
              pgm_data_json = json_text lib (pl_data payload), pgm_created_at = server_now\<rparr>];
          metadata = sql_update (\<lambda>md. pgd_key md = (app, channel)) (\<lambda>md. md\<lparr>pgd_latest_message_id := row_id\<rparr>) metadata
      in (\<lparr>m_id = show_i64 row_id, m_event_id = None, m_channel = channel, m_type = pl_type payload, m_data = pl_data payload\<rparr>,
          s\<lparr>pc_metadata := metadata, pc_messages := messages\<rparr>))"

definition resolve_replay_cursor :: "int option \<Rightarrow> int \<Rightarrow> int option \<Rightarrow> channel_error + int option" where
  "resolve_replay_cursor requested highest_deleted latest = (case requested of
     None \<Rightarrow> Inr latest
   | Some r \<Rightarrow>
       if r < highest_deleted \<or> (case latest of None \<Rightarrow> True | Some head \<Rightarrow> r > head) then Inl StaleCursor
       else Inr (Some r))"

text \<open>\<^verbatim>\<open>COALESCE(highest_deleted_message_id, 0)\<close> and \<^verbatim>\<open>NULLIF(latest_message_id, 0)\<close> of a channel.\<close>

definition pgc_bounds :: "string \<Rightarrow> string \<Rightarrow> pg_channels \<Rightarrow> int \<times> int option" where
  "pgc_bounds app channel s = (case sql_lookup pgd_key (app, channel) (pc_metadata s) of
     None \<Rightarrow> (0, None)
   | Some md \<Rightarrow> (pgd_highest_deleted md, if pgd_latest_message_id md = 0 then None else Some (pgd_latest_message_id md)))"

definition message_from_row :: "'v channel_lib \<Rightarrow> pg_message \<Rightarrow> channel_error + 'v channel_message" where
  "message_from_row lib r = (case json_value lib (pgm_data_json r) of
     None \<Rightarrow> Inl (Storage ''invalid JSON'')
   | Some v \<Rightarrow> Inr \<lparr>m_id = show_i64 (pgm_id r), m_event_id = None, m_channel = pgm_channel r, m_type = pgm_type r, m_data = v\<rparr>)"

definition pgc_read_after ::
  "'v channel_lib \<Rightarrow> string \<Rightarrow> string \<Rightarrow> int option \<Rightarrow> 32 word \<Rightarrow> pg_channels \<Rightarrow> channel_error + 'v channel_message list" where
  "pgc_read_after lib app channel after limit s =
     (let rows = take (unat limit) (sort_key pgm_id (filter
            (\<lambda>r. pgm_app r = app \<and> pgm_channel r = channel \<and> (case after of None \<Rightarrow> 0 | Some a \<Rightarrow> a) < pgm_id r) (pc_messages s)))
      in case (if after = None then Inr None
               else resolve_replay_cursor after (fst (pgc_bounds app channel s)) (snd (pgc_bounds app channel s))) of
           Inl e \<Rightarrow> Inl e
         | Inr _ \<Rightarrow> collect_results (map (message_from_row lib) rows))"

definition pgc_replay_cursor :: "string \<Rightarrow> string \<Rightarrow> int option \<Rightarrow> pg_channels \<Rightarrow> channel_error + int option" where
  "pgc_replay_cursor app channel requested s =
     resolve_replay_cursor requested (fst (pgc_bounds app channel s)) (snd (pgc_bounds app channel s))"

definition pgc_expire_presence :: "string \<Rightarrow> int \<Rightarrow> pg_channels \<Rightarrow> pg_channels" where
  "pgc_expire_presence app now s =
     s\<lparr>pc_presence := sql_delete (\<lambda>p. pgp_app p = app \<and> pgp_expires_at p \<le> now) (pc_presence s)\<rparr>"

definition pgc_sync_channel :: "string \<Rightarrow> string \<Rightarrow> auth_response \<Rightarrow> int \<Rightarrow> pg_channels \<Rightarrow> pg_channels" where
  "pgc_sync_channel app channel auth now s = (pgc_expire_presence app now s)\<lparr>pc_metadata := sql_upsert pgd_key
     (\<lambda>md. md\<lparr>pgd_replay_window_ms := sint (au_replay_window_ms auth),
              pgd_inactivity_ttl_ms := sint (au_inactivity_ttl_ms auth),
              pgd_keepalive_interval_ms := sint (au_keepalive_interval_ms auth),
              pgd_max_connection_lifetime_ms := sint (au_max_connection_lifetime_ms auth),
              pgd_last_activity := now\<rparr>)
     \<lparr>pgd_app = app, pgd_channel = channel, pgd_replay_window_ms = sint (au_replay_window_ms auth),
      pgd_inactivity_ttl_ms = sint (au_inactivity_ttl_ms auth),
      pgd_keepalive_interval_ms = sint (au_keepalive_interval_ms auth),
      pgd_max_connection_lifetime_ms = sint (au_max_connection_lifetime_ms auth), pgd_last_activity = now,
      pgd_latest_message_id = 0, pgd_highest_deleted = 0\<rparr>
     (pc_metadata s)\<rparr>"

definition pgc_latest_ids :: "string \<Rightarrow> string list \<Rightarrow> pg_channels \<Rightarrow> (string \<times> int) list" where
  "pgc_latest_ids app channels s = map (\<lambda>md. (pgd_channel md, pgd_latest_message_id md))
     (filter (\<lambda>md. pgd_app md = app \<and> pgd_channel md \<in> set channels \<and> pgd_latest_message_id md > 0) (pc_metadata s))"

text \<open>The rows the join of the \<^verbatim>\<open>DELETE\<close> selects.\<close>

definition pgc_expired :: "string \<Rightarrow> int \<Rightarrow> pg_metadata list \<Rightarrow> pg_message \<Rightarrow> bool" where
  "pgc_expired app now metadata r =
     (pgm_app r = app \<and> list_ex (\<lambda>md. pgd_app md = pgm_app r \<and> pgd_channel md = pgm_channel r
        \<and> (pgd_replay_window_ms md > 0 \<and> pgm_created_at r < now - pgd_replay_window_ms md
           \<or> pgd_inactivity_ttl_ms md > 0 \<and> pgd_last_activity md < now - pgd_inactivity_ttl_ms md)) metadata)"

definition pgc_raise_floor :: "pg_message list \<Rightarrow> pg_metadata \<Rightarrow> pg_metadata" where
  "pgc_raise_floor deleted md =
     (let ids = map pgm_id (filter (\<lambda>r. pgm_app r = pgd_app md \<and> pgm_channel r = pgd_channel md) deleted)
      in if ids = [] then md else md\<lparr>pgd_highest_deleted := max (pgd_highest_deleted md) (max_or_zero ids)\<rparr>)"

definition pgc_prune :: "string \<Rightarrow> int \<Rightarrow> pg_channels \<Rightarrow> pg_channels" where
  "pgc_prune app now s0 =
     (let s = pgc_expire_presence app now s0;
          gone = pgc_expired app now (pc_metadata s);
          deleted = filter gone (pc_messages s)
      in s\<lparr>pc_messages := sql_delete gone (pc_messages s), pc_metadata := map (pgc_raise_floor deleted) (pc_metadata s)\<rparr>)"

definition pgc_update_presence :: "string \<Rightarrow> string \<Rightarrow> string \<Rightarrow> string \<Rightarrow> string \<Rightarrow> int \<Rightarrow> pg_channels \<Rightarrow> channel_error + pg_channels" where
  "pgc_update_presence app channel connection_id data encoded now s =
     (if length data > 16384 then Inl (BadRequest ''Presence data must be at most 16 KiB'')
      else Inr (s\<lparr>pc_presence := sql_upsert pgp_key
             (\<lambda>p. p\<lparr>pgp_member_json := encoded, pgp_expires_at := now + LEASE_MS\<rparr>)
             \<lparr>pgp_app = app, pgp_channel = channel, pgp_connection_id = connection_id, pgp_member_json = encoded,
              pgp_expires_at = now + LEASE_MS\<rparr> (pc_presence s)\<rparr>))"

definition pgc_presence_members :: "string \<Rightarrow> string \<Rightarrow> int \<Rightarrow> pg_channels \<Rightarrow> pg_presence list" where
  "pgc_presence_members app channel now s =
     sort_key pgp_connection_id
       (filter (\<lambda>p. pgp_app p = app \<and> pgp_channel p = channel \<and> pgp_expires_at p > now) (pc_presence s))"

definition pgc_remove_presence :: "string \<Rightarrow> string \<Rightarrow> string \<Rightarrow> pg_channels \<Rightarrow> pg_channels" where
  "pgc_remove_presence app channel connection_id s =
     s\<lparr>pc_presence := sql_delete (\<lambda>p. pgp_key p = (app, channel, connection_id)) (pc_presence s)\<rparr>"

text \<open>The Postgres branches of \<^verbatim>\<open>ChannelStore\<close>, on cursors.\<close>

definition store_read_after ::
  "'v channel_lib \<Rightarrow> string \<Rightarrow> string \<Rightarrow> replay_cursor option \<Rightarrow> 32 word \<Rightarrow> pg_channels \<Rightarrow> channel_error + 'v channel_message list" where
  "store_read_after lib app channel after limit s = (case after of
     None \<Rightarrow> pgc_read_after lib app channel None limit s
   | Some c \<Rightarrow> (case pg_position c of Inl e \<Rightarrow> Inl e | Inr p \<Rightarrow> pgc_read_after lib app channel (Some p) limit s))"

definition store_replay_cursor ::
  "string \<Rightarrow> string \<Rightarrow> replay_cursor option \<Rightarrow> pg_channels \<Rightarrow> channel_error + replay_cursor option" where
  "store_replay_cursor app channel requested s =
     (case (case requested of
        None \<Rightarrow> pgc_replay_cursor app channel None s
      | Some c \<Rightarrow> (case pg_position c of Inl e \<Rightarrow> Inl e | Inr p \<Rightarrow> pgc_replay_cursor app channel (Some p) s)) of
        Inl e \<Rightarrow> Inl e
      | Inr cursor \<Rightarrow> Inr (map_option cursor_postgres cursor))"

section \<open>Histories\<close>

record 'v pg_history =
  ph_db :: pg_channels
  ph_log :: "string \<Rightarrow> 'v log"

datatype 'v pg_op =
    Pg_append string string "'v publish_payload" int int int int
  | Pg_sync string string auth_response int
  | Pg_prune string int
  | Pg_update_presence string string string string string int
  | Pg_remove_presence string string string

fun pgc_exec :: "'v channel_lib \<Rightarrow> 'v pg_op \<Rightarrow> 'v pg_history \<Rightarrow> 'v pg_history" where
  "pgc_exec lib (Pg_append app channel payload row_id server_now now1 now2) h =
     (case pgc_append lib app channel payload row_id server_now now1 now2 (ph_db h) of
        (m, s) \<Rightarrow> \<lparr>ph_db = s, ph_log = (ph_log h)(app := ph_log h app @ [(row_id, m)])\<rparr>)"
| "pgc_exec lib (Pg_sync app channel auth now) h = h\<lparr>ph_db := pgc_sync_channel app channel auth now (ph_db h)\<rparr>"
| "pgc_exec lib (Pg_prune app now) h = h\<lparr>ph_db := pgc_prune app now (ph_db h)\<rparr>"
| "pgc_exec lib (Pg_update_presence app channel connection_id data encoded now) h =
     (case pgc_update_presence app channel connection_id data encoded now (ph_db h) of
        Inl _ \<Rightarrow> h | Inr s \<Rightarrow> h\<lparr>ph_db := s\<rparr>)"
| "pgc_exec lib (Pg_remove_presence app channel connection_id) h =
     h\<lparr>ph_db := pgc_remove_presence app channel connection_id (ph_db h)\<rparr>"

definition serial_fresh :: "int \<Rightarrow> string \<Rightarrow> 'v pg_history \<Rightarrow> bool" where
  "serial_fresh row_id app h =
     (0 < row_id \<and> row_id \<le> i64_max \<and> row_id \<notin> pgm_id ` set (pc_messages (ph_db h))
      \<and> list_all (\<lambda>x. fst x < row_id) (ph_log h app))"

fun pg_op_ok :: "'v pg_history \<Rightarrow> 'v pg_op \<Rightarrow> bool" where
  "pg_op_ok h (Pg_append app channel payload row_id server_now now1 now2) = serial_fresh row_id app h"
| "pg_op_ok h _ = True"

definition pg_empty :: "'v pg_history" where
  "pg_empty = \<lparr>ph_db = \<lparr>pc_messages = [], pc_metadata = [], pc_presence = []\<rparr>, ph_log = (\<lambda>_. [])\<rparr>"

inductive pg_reachable :: "'v channel_lib \<Rightarrow> 'v pg_history \<Rightarrow> bool" for lib where
  pg_reachable_empty: "pg_reachable lib pg_empty"
| pg_reachable_exec: "pg_reachable lib h \<Longrightarrow> pg_op_ok h op \<Longrightarrow> pg_reachable lib (pgc_exec lib op h)"

section \<open>The invariant\<close>

definition app_rows :: "pg_channels \<Rightarrow> string \<Rightarrow> pg_message list" where
  "app_rows s app = filter (\<lambda>r. pgm_app r = app) (pc_messages s)"

definition pg_floor :: "pg_channels \<Rightarrow> string \<Rightarrow> string \<Rightarrow> int" where
  "pg_floor s app c = fst (pgc_bounds app c s)"

definition pg_head :: "pg_channels \<Rightarrow> string \<Rightarrow> string \<Rightarrow> int" where
  "pg_head s app c = (case snd (pgc_bounds app c s) of None \<Rightarrow> 0 | Some head \<Rightarrow> head)"

definition pg_row_holds :: "'v channel_lib \<Rightarrow> pg_message \<Rightarrow> 'v channel_message \<Rightarrow> bool" where
  "pg_row_holds lib r m =
     (m_channel m = pgm_channel r \<and> m_type m = pgm_type r \<and> json_text lib (m_data m) = pgm_data_json r \<and> m_event_id m = None)"

definition pg_app_ok :: "'v channel_lib \<Rightarrow> pg_channels \<Rightarrow> string \<Rightarrow> 'v log \<Rightarrow> bool" where
  "pg_app_ok lib s app log =
     (replay_ok log (pgm_id ` set (app_rows s app)) (pg_floor s app) (pg_head s app)
      \<and> (\<forall>x\<in>set log. fst x \<le> i64_max \<and> m_id (snd x) = show_i64 (fst x))
      \<and> sorted_wrt (<) (map pgm_id (app_rows s app))
      \<and> (\<forall>r\<in>set (app_rows s app). (\<exists>m. (pgm_id r, m) \<in> set log \<and> pg_row_holds lib r m)
           \<and> (app, pgm_channel r) \<in> pgd_key ` set (pc_metadata s)))"

definition pg_ok :: "'v channel_lib \<Rightarrow> 'v pg_history \<Rightarrow> bool" where
  "pg_ok lib h = (unique_key pgd_key (pc_metadata (ph_db h)) \<and> (\<forall>app. pg_app_ok lib (ph_db h) app (ph_log h app)))"

lemma pg_app_okD:
  assumes "pg_app_ok lib s app log"
  shows "replay_ok log (pgm_id ` set (app_rows s app)) (pg_floor s app) (pg_head s app)"
    "\<And>x. x \<in> set log \<Longrightarrow> fst x \<le> i64_max" "\<And>x. x \<in> set log \<Longrightarrow> m_id (snd x) = show_i64 (fst x)"
    "sorted_wrt (<) (map pgm_id (app_rows s app))"
    "\<And>r. r \<in> set (app_rows s app) \<Longrightarrow> \<exists>m. (pgm_id r, m) \<in> set log \<and> pg_row_holds lib r m"
    "\<And>r. r \<in> set (app_rows s app) \<Longrightarrow> (app, pgm_channel r) \<in> pgd_key ` set (pc_metadata s)"
  using assms unfolding pg_app_ok_def by blast+

text \<open>Operations that change no message, floor or head keep it.\<close>

lemma pg_app_ok_frame:
  assumes "pc_messages s' = pc_messages s" "\<And>c. pgc_bounds app c s' = pgc_bounds app c s"
    "pgd_key ` set (pc_metadata s) \<subseteq> pgd_key ` set (pc_metadata s')" "pg_app_ok lib s app log"
  shows "pg_app_ok lib s' app log"
proof -
  have "app_rows s' app = app_rows s app" "pg_floor s' app = pg_floor s app" "pg_head s' app = pg_head s app"
    using assms(1,2) by (auto simp: app_rows_def pg_floor_def pg_head_def)
  then show ?thesis using assms(3,4) unfolding pg_app_ok_def by auto
qed

lemma pg_app_ok_presence [simp]: "pg_app_ok lib (s\<lparr>pc_presence := p\<rparr>) app log = pg_app_ok lib s app log"
proof -
  have "pg_floor (s\<lparr>pc_presence := p\<rparr>) app = pg_floor s app" "pg_head (s\<lparr>pc_presence := p\<rparr>) app = pg_head s app"
    by (auto simp: pg_floor_def pg_head_def pgc_bounds_def)
  then show ?thesis by (simp add: pg_app_ok_def app_rows_def)
qed

lemma keys_subsetI:
  "(\<And>k. sql_lookup key k t' = None \<Longrightarrow> sql_lookup key k t = None) \<Longrightarrow> key ` set t \<subseteq> key ` set t'"
  by (auto simp: sql_lookup_None)

lemma pgc_bounds_cong:
  "sql_lookup pgd_key (app, c) (pc_metadata s') = sql_lookup pgd_key (app, c) (pc_metadata s) \<Longrightarrow>
     pgc_bounds app c s' = pgc_bounds app c s"
  by (simp add: pgc_bounds_def)

lemma pg_ok_empty: "pg_ok lib pg_empty"
proof -
  have "pg_floor (ph_db (pg_empty :: 'a pg_history)) app = (\<lambda>_. 0)" "pg_head (ph_db (pg_empty :: 'a pg_history)) app = (\<lambda>_. 0)" for app
    by (auto simp: pg_empty_def pg_floor_def pg_head_def pgc_bounds_def)
  then show ?thesis
    using replay_ok_Nil by (simp add: pg_ok_def pg_app_ok_def app_rows_def) (simp add: pg_empty_def)
qed

lemma pg_ok_sync:
  assumes "pg_ok lib h"
  shows "pg_ok lib (h\<lparr>ph_db := pgc_sync_channel app channel auth now (ph_db h)\<rparr>)"
proof -
  let ?s = "ph_db h" and ?s' = "pgc_sync_channel app channel auth now (ph_db h)"
  have uk: "unique_key pgd_key (pc_metadata ?s')"
    using assms by (auto simp: pg_ok_def pgc_sync_channel_def pgd_key_def)
  have msgs: "pc_messages ?s' = pc_messages ?s" by (simp add: pgc_sync_channel_def pgc_expire_presence_def)
  have bounds: "pgc_bounds a c ?s' = pgc_bounds a c ?s" for a c
    by (auto simp: pgc_bounds_def pgc_sync_channel_def pgc_expire_presence_def lookup_upsert pgd_key_def split: option.split)
  have keys: "pgd_key ` set (pc_metadata ?s) \<subseteq> pgd_key ` set (pc_metadata ?s')"
    by (rule keys_subsetI) (auto simp: pgc_sync_channel_def pgc_expire_presence_def lookup_upsert pgd_key_def split: if_splits)
  show ?thesis
    using assms uk pg_app_ok_frame [OF msgs bounds keys, of lib] by (simp add: pg_ok_def)
qed

lemma append_metadata:
  assumes "pgc_append lib app channel payload row_id server_now now1 now2 s = (m, s')"
  shows "unique_key pgd_key (pc_metadata s) \<Longrightarrow> unique_key pgd_key (pc_metadata s')"
    "sql_lookup pgd_key (a, c) (pc_metadata s') = None \<longleftrightarrow>
       (a, c) \<noteq> (app, channel) \<and> sql_lookup pgd_key (a, c) (pc_metadata s) = None"
    "pg_floor s' a c = pg_floor s a c"
    "row_id \<noteq> 0 \<Longrightarrow> pg_head s' a c = (if (a, c) = (app, channel) then row_id else pg_head s a c)"
proof -
  let ?new = "\<lparr>pgd_app = app, pgd_channel = channel, pgd_replay_window_ms = 600000, pgd_inactivity_ttl_ms = 0,
    pgd_keepalive_interval_ms = 25000, pgd_max_connection_lifetime_ms = 7200000, pgd_last_activity = now1,
    pgd_latest_message_id = 0, pgd_highest_deleted = 0\<rparr>"
  have md: "pc_metadata s' = sql_update (\<lambda>md. pgd_key md = (app, channel)) (\<lambda>md. md\<lparr>pgd_latest_message_id := row_id\<rparr>)
      (sql_update (\<lambda>md. pgd_key md = (app, channel)) (\<lambda>md. md\<lparr>pgd_last_activity := now2\<rparr>)
        (sql_insert_ignore pgd_key ?new (pc_metadata s)))"
    using assms by (auto simp: pgc_append_def Let_def)
  have look: "sql_lookup pgd_key (a, c) (pc_metadata s') =
      map_option (\<lambda>r. if pgd_key r = (app, channel) then r\<lparr>pgd_last_activity := now2, pgd_latest_message_id := row_id\<rparr> else r)
        (sql_lookup pgd_key (a, c) (sql_insert_ignore pgd_key ?new (pc_metadata s)))" for a c
    unfolding md by (simp add: lookup_update pgd_key_def option.map_comp comp_def if_distrib cong: if_cong)
  show "unique_key pgd_key (pc_metadata s')" if "unique_key pgd_key (pc_metadata s)"
    unfolding md using that by (auto simp: unique_update pgd_key_def)
  show "sql_lookup pgd_key (a, c) (pc_metadata s') = None \<longleftrightarrow>
       (a, c) \<noteq> (app, channel) \<and> sql_lookup pgd_key (a, c) (pc_metadata s) = None"
    unfolding look by (auto simp: lookup_insert_ignore pgd_key_def)
  show "pg_floor s' a c = pg_floor s a c"
    unfolding pg_floor_def pgc_bounds_def look by (auto simp: lookup_insert_ignore pgd_key_def split: option.split)
  show "pg_head s' a c = (if (a, c) = (app, channel) then row_id else pg_head s a c)" if "row_id \<noteq> 0"
  proof (cases "sql_lookup pgd_key (a, c) (pc_metadata s)")
    case None
    then show ?thesis
      unfolding pg_head_def pgc_bounds_def look using that by (auto simp: lookup_insert_ignore pgd_key_def)
  next
    case (Some r)
    then have "pgd_key r = (a, c)" by (rule sql_lookup_key)
    then show ?thesis
      unfolding pg_head_def pgc_bounds_def look using that Some by (simp add: lookup_insert_ignore)
  qed
qed

lemma pg_ok_append:
  assumes ok: "pg_ok lib h" and fresh: "serial_fresh row_id app h"
  shows "pg_ok lib (pgc_exec lib (Pg_append app channel payload row_id server_now now1 now2) h)"
proof -
  let ?s = "ph_db h" and ?log = "ph_log h"
  obtain m s' where app: "pgc_append lib app channel payload row_id server_now now1 now2 ?s = (m, s')" by fastforce
  note md = append_metadata [OF app]
  have row: "0 < row_id" "row_id \<le> i64_max" "\<And>x. x \<in> set (?log app) \<Longrightarrow> fst x < row_id"
    using fresh by (auto simp: serial_fresh_def list_all_iff)
  define r where "r = \<lparr>pgm_id = row_id, pgm_app = app, pgm_channel = channel, pgm_type = pl_type payload,
    pgm_data_json = json_text lib (pl_data payload), pgm_created_at = server_now\<rparr>"
  have msgs: "pc_messages s' = pc_messages ?s @ [r]" and m: "pg_row_holds lib r m" "m_channel m = channel" "m_id m = show_i64 row_id"
    using app by (auto simp: pgc_append_def Let_def r_def pg_row_holds_def)
  have keys: "pgd_key ` set (pc_metadata ?s) \<subseteq> pgd_key ` set (pc_metadata s')"
  proof (rule keys_subsetI)
    fix k assume "sql_lookup pgd_key k (pc_metadata s') = None"
    then show "sql_lookup pgd_key k (pc_metadata ?s) = None" using md(2) by (cases k) auto
  qed
  have other: "pg_app_ok lib s' a (?log a)" if "a \<noteq> app" for a
  proof -
    have "pg_app_ok lib ?s a (?log a)" using ok by (simp add: pg_ok_def)
    moreover have "app_rows s' a = app_rows ?s a" using that by (simp add: app_rows_def msgs r_def)
    moreover have "pg_floor s' a = pg_floor ?s a" "pg_head s' a = pg_head ?s a" using md(3,4) that row(1) by auto
    ultimately show ?thesis using keys unfolding pg_app_ok_def by auto
  qed
  have "pg_app_ok lib s' app (?log app @ [(row_id, m)])"
  proof -
    have a: "pg_app_ok lib ?s app (?log app)" using ok by (simp add: pg_ok_def)
    note a = pg_app_okD [OF a]
    have rows: "app_rows s' app = app_rows ?s app @ [r]" by (simp add: app_rows_def msgs r_def)
    have below: "pgm_id r' < row_id" if "r' \<in> set (app_rows ?s app)" for r' using a(5) [OF that] row(3) by force
    have "replay_ok (?log app @ [(row_id, m)]) (insert row_id (pgm_id ` set (app_rows ?s app))) (pg_floor ?s app) (pg_head s' app)"
      using md(4) row(1) m(2) by (intro replay_ok_append [OF a(1) row(3)]) simp_all
    moreover have "pg_floor s' app = pg_floor ?s app" using md(3) by auto
    moreover have "(app, channel) \<in> pgd_key ` set (pc_metadata s')" using md(2) by (metis sql_lookup_None)
    ultimately show ?thesis
      using a(2-6) below keys row(2) m unfolding pg_app_ok_def rows
      by (auto simp: sorted_wrt_append r_def) (metis in_mono)
  qed
  then show ?thesis using ok md(1) other app by (simp add: pg_ok_def)
qed

text \<open>The ids a prune deletes from a channel.\<close>

definition pruned_ids :: "string \<Rightarrow> int \<Rightarrow> pg_channels \<Rightarrow> string \<Rightarrow> string \<Rightarrow> int list" where
  "pruned_ids app now s a c =
     map pgm_id (filter (\<lambda>r. pgm_app r = a \<and> pgm_channel r = c) (filter (pgc_expired app now (pc_metadata s)) (pc_messages s)))"

lemma raise_floor_key: "pgd_key (pgc_raise_floor deleted md) = pgd_key md"
  by (simp add: pgc_raise_floor_def pgd_key_def Let_def)

lemma prune_metadata: "pc_metadata (pgc_prune app now s) =
    sql_update (\<lambda>_. True) (pgc_raise_floor (filter (pgc_expired app now (pc_metadata s)) (pc_messages s))) (pc_metadata s)"
  by (simp add: pgc_prune_def pgc_expire_presence_def sql_update_def Let_def)

lemma prune_messages: "pc_messages (pgc_prune app now s) = filter (\<lambda>r. \<not> pgc_expired app now (pc_metadata s) r) (pc_messages s)"
  by (simp add: pgc_prune_def pgc_expire_presence_def sql_delete_def Let_def)

lemma prune_bounds:
  "pg_head (pgc_prune app now s) a c = pg_head s a c"
  "pg_floor (pgc_prune app now s) a c =
     (if sql_lookup pgd_key (a, c) (pc_metadata s) = None \<or> pruned_ids app now s a c = [] then pg_floor s a c
      else max (pg_floor s a c) (max_or_zero (pruned_ids app now s a c)))"
proof -
  let ?f = "pgc_raise_floor (filter (pgc_expired app now (pc_metadata s)) (pc_messages s))"
  have look: "sql_lookup pgd_key (a, c) (pc_metadata (pgc_prune app now s)) = map_option ?f (sql_lookup pgd_key (a, c) (pc_metadata s))"
    unfolding prune_metadata by (simp add: lookup_update raise_floor_key)
  have "pg_head (pgc_prune app now s) a c = pg_head s a c \<and>
      pg_floor (pgc_prune app now s) a c =
     (if sql_lookup pgd_key (a, c) (pc_metadata s) = None \<or> pruned_ids app now s a c = [] then pg_floor s a c
      else max (pg_floor s a c) (max_or_zero (pruned_ids app now s a c)))"
  proof (cases "sql_lookup pgd_key (a, c) (pc_metadata s)")
    case None
    then show ?thesis by (simp add: pg_head_def pg_floor_def pgc_bounds_def look)
  next
    case (Some md)
    then have "pgd_app md = a" "pgd_channel md = c" by (auto dest: sql_lookup_key simp: pgd_key_def)
    then have f: "?f md = (if pruned_ids app now s a c = [] then md
        else md\<lparr>pgd_highest_deleted := max (pgd_highest_deleted md) (max_or_zero (pruned_ids app now s a c))\<rparr>)"
      by (simp add: pgc_raise_floor_def pruned_ids_def Let_def)
    show ?thesis by (simp add: pg_head_def pg_floor_def pgc_bounds_def look Some f)
  qed
  then show "pg_head (pgc_prune app now s) a c = pg_head s a c"
    "pg_floor (pgc_prune app now s) a c =
     (if sql_lookup pgd_key (a, c) (pc_metadata s) = None \<or> pruned_ids app now s a c = [] then pg_floor s a c
      else max (pg_floor s a c) (max_or_zero (pruned_ids app now s a c)))" by blast+
qed

lemma prune_other:
  assumes "a \<noteq> app"
  shows "pruned_ids app now s a c = []" "app_rows (pgc_prune app now s) a = app_rows s a"
  using assms by (auto simp: pruned_ids_def app_rows_def prune_messages pgc_expired_def filter_empty_conv intro!: filter_cong)

lemma pgc_prune_replay:
  assumes ok: "pg_app_ok lib s app log"
  shows "replay_ok log (pgm_id ` set (app_rows (pgc_prune app now s) app)) (pg_floor (pgc_prune app now s) app) (pg_head (pgc_prune app now s) app)"
proof -
  note a = pg_app_okD [OF ok]
  let ?gone = "pgc_expired app now (pc_metadata s)" and ?floor = "pg_floor (pgc_prune app now s) app"
  let ?G = "pgm_id ` set (filter ?gone (app_rows s app))"
  have entry: "(pgm_id r, m) = x" if "r \<in> set (app_rows s app)" "(pgm_id r, m) \<in> set log" "x \<in> set log" "fst x = pgm_id r" for r m x
    by (rule log_unique [OF replay_ok_positions(1) [OF a(1)] that(2,3)]) (simp add: that(4))
  have ids: "i \<in> set (pruned_ids app now s app c) \<longleftrightarrow> (\<exists>r\<in>set (app_rows s app). ?gone r \<and> pgm_channel r = c \<and> i = pgm_id r)" for i c
    by (auto simp: pruned_ids_def app_rows_def)
  have floor: "?floor c = (if pruned_ids app now s app c = [] then pg_floor s app c
      else max (pg_floor s app c) (max_or_zero (pruned_ids app now s app c)))" for c
  proof (cases "pruned_ids app now s app c = []")
    case False
    then obtain i where "i \<in> set (pruned_ids app now s app c)" by (cases "pruned_ids app now s app c") auto
    then have "sql_lookup pgd_key (app, c) (pc_metadata s) \<noteq> None" using ids [of i c] a(6) by (auto simp: sql_lookup_None)
    then show ?thesis by (auto simp: prune_bounds(2) False)
  qed (simp add: prune_bounds(2))
  have "replay_ok log (pgm_id ` set (app_rows s app) - ?G) ?floor (pg_head s app)"
  proof (rule replay_ok_delete [OF a(1)])
    fix x assume x: "x \<in> set log" "fst x \<in> ?G"
    then obtain r where r: "r \<in> set (app_rows s app)" "?gone r" "fst x = pgm_id r" by auto
    obtain m where m: "(pgm_id r, m) \<in> set log" "pg_row_holds lib r m" using a(5) [OF r(1)] by blast
    have "m_channel (snd x) = pgm_channel r" using entry [OF r(1) m(1) x(1) r(3)] m(2) by (auto simp: pg_row_holds_def)
    then have "fst x \<in> set (pruned_ids app now s app (m_channel (snd x)))" using ids r by auto
    then show "fst x \<le> ?floor (m_channel (snd x))" using max_or_zero_ge unfolding floor by fastforce
  next
    fix c
    show "?floor c = pg_floor s app c \<or> (\<exists>x\<in>set log. fst x = ?floor c \<and> in_stream c x \<and> fst x \<in> ?G)"
    proof (cases "?floor c = pg_floor s app c")
      case False
      then have nonempty: "pruned_ids app now s app c \<noteq> []" and eq: "?floor c = max_or_zero (pruned_ids app now s app c)"
        unfolding floor by (auto simp: max_def split: if_splits)
      then have "?floor c \<in> set (pruned_ids app now s app c)" by (simp add: max_or_zero_Max)
      then obtain r where r: "r \<in> set (app_rows s app)" "?gone r" "pgm_channel r = c" "?floor c = pgm_id r" using ids by auto
      obtain m where m: "(pgm_id r, m) \<in> set log" "pg_row_holds lib r m" using a(5) [OF r(1)] by blast
      then show ?thesis using r by (intro disjI2 bexI [of _ "(pgm_id r, m)"]) (auto simp: in_stream_def pg_row_holds_def)
    qed simp
  qed (auto simp: floor)
  moreover have "pgm_id ` set (app_rows s app) - ?G = pgm_id ` set (app_rows (pgc_prune app now s) app)"
    using sorted_lt_inj [OF a(4)] by (auto simp: app_rows_def prune_messages inj_on_def)
  moreover have "pg_head (pgc_prune app now s) app = pg_head s app" using prune_bounds(1) by auto
  ultimately show ?thesis by simp
qed

lemma pg_ok_prune:
  assumes "pg_ok lib h"
  shows "pg_ok lib (h\<lparr>ph_db := pgc_prune app now (ph_db h)\<rparr>)"
proof -
  let ?s = "ph_db h" and ?s' = "pgc_prune app now (ph_db h)"
  have "unique_key pgd_key (pc_metadata ?s')" using assms by (simp add: prune_metadata unique_update raise_floor_key pg_ok_def)
  moreover have keys: "pgd_key ` set (pc_metadata ?s') = pgd_key ` set (pc_metadata ?s)"
    by (simp add: prune_metadata image_key_update raise_floor_key)
  moreover have "pg_app_ok lib ?s' a (ph_log h a)" for a
  proof (cases "a = app")
    case True
    have ok: "pg_app_ok lib ?s app (ph_log h app)" using assms by (simp add: pg_ok_def)
    note old = pg_app_okD [OF ok]
    have rows: "app_rows ?s' app = filter (\<lambda>r. \<not> pgc_expired app now (pc_metadata ?s) r) (app_rows ?s app)"
      by (simp add: app_rows_def prune_messages conj_commute)
    have "sorted_wrt (<) (map pgm_id (app_rows ?s' app))" unfolding rows by (rule sorted_lt_filter [OF old(4)])
    then show ?thesis
      using pgc_prune_replay [OF ok, of now] old(2,3,5,6) unfolding True pg_app_ok_def keys by (auto simp: rows)
  next
    case False
    have ok: "pg_app_ok lib ?s a (ph_log h a)" using assms by (simp add: pg_ok_def)
    have "pg_floor ?s' a = pg_floor ?s a" "pg_head ?s' a = pg_head ?s a" using prune_other(1) [OF False] by (auto simp: prune_bounds)
    then show ?thesis using ok unfolding pg_app_ok_def keys prune_other(2) [OF False] by simp
  qed
  ultimately show ?thesis by (simp add: pg_ok_def)
qed

theorem pgc_exec_ok:
  assumes "pg_ok lib h" "pg_op_ok h op"
  shows "pg_ok lib (pgc_exec lib op h)"
proof (cases op)
  case (Pg_append app channel payload row_id server_now now1 now2)
  then show ?thesis using assms pg_ok_append by (simp del: pgc_exec.simps)
next
  case (Pg_sync app channel auth now)
  then show ?thesis using pg_ok_sync [OF assms(1)] by simp
next
  case (Pg_prune app now)
  then show ?thesis using pg_ok_prune [OF assms(1)] by simp
qed (use assms(1) in \<open>auto simp: pg_ok_def pgc_update_presence_def pgc_remove_presence_def split: sum.split\<close>)

lemma pg_reachable_ok: "pg_reachable lib h \<Longrightarrow> pg_ok lib h"
  by (induction rule: pg_reachable.induct) (auto intro: pg_ok_empty pgc_exec_ok simp del: pgc_exec.simps)

section \<open>Reading\<close>

lemma pg_head_log:
  assumes "pg_app_ok lib s app log"
  shows "snd (pgc_bounds app c s) = (if log_head log c = 0 then None else Some (log_head log c))"
proof -
  have "pg_head s app c = log_head log c" using replay_ok_positions(4) [OF pg_app_okD(1) [OF assms]] by simp
  then show ?thesis by (auto simp: pg_head_def pgc_bounds_def split: option.splits if_splits)
qed

lemma pg_rows_after_log:
  assumes ok: "pg_app_ok lib s app log" and all: "\<forall>x\<in>set (log_after log c p). fst x \<in> pgm_id ` set (app_rows s app)"
  shows "map pgm_id (filter (\<lambda>r. pgm_channel r = c \<and> p < pgm_id r) (app_rows s app)) = map fst (log_after log c p)"
proof (rule strict_sorted_equal)
  note a = pg_app_okD [OF ok]
  have sorted: "sorted_wrt (<) (map fst log)" by (rule replay_ok_positions(1) [OF a(1)])
  show "sorted_wrt (<) (map pgm_id (filter (\<lambda>r. pgm_channel r = c \<and> p < pgm_id r) (app_rows s app)))"
    by (rule sorted_lt_filter [OF a(4)])
  show "sorted_wrt (<) (map fst (log_after log c p))" by (rule log_after_unique [OF sorted])
  show "set (map pgm_id (filter (\<lambda>r. pgm_channel r = c \<and> p < pgm_id r) (app_rows s app))) = set (map fst (log_after log c p))"
  proof (intro set_eqI iffI)
    fix i assume "i \<in> set (map pgm_id (filter (\<lambda>r. pgm_channel r = c \<and> p < pgm_id r) (app_rows s app)))"
    then obtain r where r: "r \<in> set (app_rows s app)" "pgm_channel r = c" "p < pgm_id r" "i = pgm_id r" by auto
    obtain m where "(pgm_id r, m) \<in> set log" "pg_row_holds lib r m" using a(5) [OF r(1)] by blast
    then show "i \<in> set (map fst (log_after log c p))"
      using r by (force simp: log_after_def in_stream_def pg_row_holds_def)
  next
    fix i assume "i \<in> set (map fst (log_after log c p))"
    then obtain x where x: "x \<in> set (log_after log c p)" "i = fst x" by auto
    then obtain r where r: "r \<in> set (app_rows s app)" "pgm_id r = i" using all by force
    obtain m where m: "(pgm_id r, m) \<in> set log" "pg_row_holds lib r m" using a(5) [OF r(1)] by blast
    have "x = (pgm_id r, m)" by (rule log_unique [OF sorted _ m(1)]) (use x r in \<open>auto simp: log_after_def\<close>)
    then have "pgm_channel r = c" "p < pgm_id r" using x m by (auto simp: log_after_def in_stream_def pg_row_holds_def)
    then show "i \<in> set (map pgm_id (filter (\<lambda>r. pgm_channel r = c \<and> p < pgm_id r) (app_rows s app)))"
      using r by auto
  qed
qed

lemma pg_read_cursor:
  assumes lib: "lib_ok lib" and ok: "pg_app_ok lib s app log" and p: "0 \<le> p"
  shows "pgc_read_after lib app c (Some p) limit s =
    (if 0 < log_head log c \<and> p \<le> log_head log c \<and> (\<forall>x\<in>set (log_after log c p). fst x \<in> pgm_id ` set (app_rows s app))
     then Inr (map snd (take (unat limit) (log_after log c p))) else Inl StaleCursor)"
proof -
  note a = pg_app_okD [OF ok]
  let ?rows = "filter (\<lambda>r. pgm_channel r = c \<and> p < pgm_id r) (app_rows s app)" and ?L = "log_after log c p"
  have nonneg: "0 \<le> log_head log c" using log_head_nonneg replay_ok_positions(2) [OF a(1)] by blast
  have floor: "pg_floor s app c \<le> p \<longleftrightarrow> (\<forall>x\<in>set ?L. fst x \<in> pgm_id ` set (app_rows s app))"
    by (rule replay_ok_window [OF a(1) p])
  have rows: "filter (\<lambda>r. pgm_app r = app \<and> pgm_channel r = c \<and> p < pgm_id r) (pc_messages s) = ?rows"
    by (simp add: app_rows_def conj_commute conj_left_commute)
  have sorted: "sort_key pgm_id ?rows = ?rows" by (rule sorted_lt_sort_key [OF sorted_lt_filter [OF a(4)]])
  have "map (message_from_row lib) (take (unat limit) ?rows) = map (\<lambda>x. Inr (snd x)) (take (unat limit) ?L)"
    if all: "\<forall>x\<in>set ?L. fst x \<in> pgm_id ` set (app_rows s app)"
  proof (rule map_cong2 [where f = pgm_id and g = fst])
    show "map pgm_id (take (unat limit) ?rows) = map fst (take (unat limit) ?L)"
      using pg_rows_after_log [OF ok all] by (simp add: take_map [symmetric])
    fix r x
    assume rx: "r \<in> set (take (unat limit) ?rows)" "x \<in> set (take (unat limit) ?L)" "pgm_id r = fst x"
    have r: "r \<in> set (app_rows s app)" and x: "x \<in> set log" using rx(1,2) by (auto dest!: in_set_takeD simp: log_after_def)
    obtain m where m: "(pgm_id r, m) \<in> set log" "pg_row_holds lib r m" using a(5) [OF r] by blast
    have "x = (pgm_id r, m)" by (rule log_unique [OF replay_ok_positions(1) [OF a(1)] x m(1)]) (simp add: rx(3))
    moreover have "json_value lib (pgm_data_json r) = Some (m_data m)"
      using lib m(2) unfolding lib_ok_def pg_row_holds_def by metis
    ultimately show "message_from_row lib r = Inr (snd x)"
      using a(3) [OF x] m(2) by (simp add: message_from_row_def pg_row_holds_def)
  qed
  then show ?thesis
    using floor nonneg pg_head_log [OF ok, of c]
    by (auto simp: pgc_read_after_def resolve_replay_cursor_def rows sorted collect_results_Inr pg_floor_def Let_def)
qed

lemma shown_postgres: "x \<in> set log \<Longrightarrow> pg_app_ok lib s app log \<Longrightarrow> shown_with lib (\<lambda>e c p. cursor_postgres p) e x = snd x"
  by (drule pg_app_okD(3), assumption) (simp add: shown_with_def cursor_to_string_def cursor_postgres_def)

definition pg_step :: "'v channel_lib \<Rightarrow> 'v pg_history \<Rightarrow> 'v pg_history \<Rightarrow> bool" where
  "pg_step lib h h' = (\<exists>op. pg_op_ok h op \<and> h' = pgc_exec lib op h)"

lemma pgc_exec_log: "\<exists>new. ph_log (pgc_exec lib op h) app = ph_log h app @ new"
  by (cases op) (auto split: sum.split prod.split)

lemma pg_resolve:
  assumes ok: "pg_app_ok lib s app log" and pos: "\<And>r. requested = Some r \<Longrightarrow> 0 \<le> c_position r"
    and res: "store_replay_cursor app c requested s = Inr (Some cur)"
  shows "\<exists>p. cur = cursor_postgres p \<and> 0 \<le> p \<and> p \<le> log_head log c"
proof (cases requested)
  case None
  have "0 \<le> log_head log c" using log_head_nonneg replay_ok_positions(2) [OF pg_app_okD(1) [OF ok]] by blast
  then show ?thesis
    using None res pg_head_log [OF ok, of c]
    by (auto simp: store_replay_cursor_def pgc_replay_cursor_def resolve_replay_cursor_def split: if_splits)
next
  case (Some r)
  then show ?thesis
    using res pos [OF Some] pg_head_log [OF ok, of c]
    by (auto simp: store_replay_cursor_def pgc_replay_cursor_def resolve_replay_cursor_def pg_position_def split: if_splits)
qed

interpretation postgres_store: replay_store lib "\<lambda>h. lib_ok lib \<and> pg_reachable lib h" "\<lambda>h. ph_log h app" "pg_step lib"
  "\<lambda>h now c cur limit. store_read_after lib app c cur limit (ph_db h)"
  "\<lambda>h now c requested. store_replay_cursor app c requested (ph_db h)" "\<lambda>(e :: unit) c p. cursor_postgres p" "\<lambda>e. lib_ok lib"
  for lib app
proof -
  have ok: "pg_app_ok lib (ph_db h) app (ph_log h app)" if "pg_reachable lib h" for h
    using pg_reachable_ok [OF that] by (simp add: pg_ok_def)
  have read: "store_read_after lib app c (Some (cursor_postgres p)) limit (ph_db h) =
      (if 0 < log_head (ph_log h app) c \<and> p \<le> log_head (ph_log h app) c
         \<and> (\<forall>x\<in>set (log_after (ph_log h app) c p). fst x \<in> pgm_id ` set (app_rows (ph_db h) app))
       then Inr (map snd (take (unat limit) (log_after (ph_log h app) c p))) else Inl StaleCursor)"
    if "lib_ok lib" "pg_reachable lib h" "0 \<le> p" for h c p limit
    using pg_read_cursor [OF that(1) ok [OF that(2)] that(3)] by (simp add: store_read_after_def pg_position_def cursor_postgres_def)
  show "replay_store lib (\<lambda>h. lib_ok lib \<and> pg_reachable lib h) (\<lambda>h. ph_log h app) (pg_step lib)
    (\<lambda>h now c cur limit. store_read_after lib app c cur limit (ph_db h))
    (\<lambda>h now c requested. store_replay_cursor app c requested (ph_db h)) (\<lambda>(e :: unit) c p. cursor_postgres p) (\<lambda>e. lib_ok lib)"
  proof (unfold_locales, goal_cases)
    case (1 h)
    then show ?case using replay_ok_positions(1) [OF pg_app_okD(1) [OF ok]] by blast
  next
    case (2 h x)
    then show ?case using replay_ok_positions(2) [OF pg_app_okD(1) [OF ok]] pg_app_okD(2) [OF ok] by blast
  next
    case (3 h h')
    then show ?case by (auto simp: pg_step_def simp del: pgc_exec.simps intro: pg_reachable_exec)
  next
    case (4 h h')
    then show ?case using pgc_exec_log by (auto simp: pg_step_def simp del: pgc_exec.simps)
  next
    case (5 e c p)
    then show ?case by (simp add: cursor_postgres_def)
  next
    case (6 e p c)
    then show ?case by (intro cursor_parse_show) (simp_all add: cursor_ok_def cursor_postgres_def)
  next
    case (7 h e p now c limit ms)
    have "map snd (take (unat limit) (log_after (ph_log h app) c p)) =
        map (shown_with lib (\<lambda>e c p. cursor_postgres p) e) (take (unat limit) (log_after (ph_log h app) c p))"
      using shown_postgres [where e = "()", OF _ ok] 7(1) by (auto dest!: in_set_takeD simp: log_after_def)
    then show ?case using 7 read by (auto split: if_splits)
  next
    case (8 h e p now c limit ms q)
    have "set (log_after (ph_log h app) c q) \<subseteq> set (log_after (ph_log h app) c p)" using 8(5) by (auto simp: log_after_def)
    then show ?case using 8 read [of h p] read [of h q] by (auto split: if_splits)
  next
    case (9 h requested now c cur)
    then show ?case using pg_resolve [OF ok 9(2,3)] by auto
  qed
qed

end
