(* ===== verification/Channel_Pg_Subscriber.thy ===== *)
theory Channel_Pg_Subscriber
  imports Channel_Postgres Channel_Subscriber
begin

text \<open>
  What the Postgres channel store gives readers and subscribers, through the interpretation
  \<open>postgres_store\<close> of the contract both backends share.
\<close>

section \<open>Subscribers\<close>

abbreviation postgres_read ::
  "'v channel_lib \<Rightarrow> string \<Rightarrow> 'v pg_history \<Rightarrow> int \<Rightarrow> string \<Rightarrow> replay_cursor option \<Rightarrow> 32 word \<Rightarrow> channel_error + 'v channel_message list" where
  "postgres_read lib app h now c cur limit \<equiv> store_read_after lib app c cur limit (ph_db h)"

definition pg_subscribed_world ::
  "'v conn_lib \<Rightarrow> string \<Rightarrow> string \<Rightarrow> auth_response \<Rightarrow> bytes \<Rightarrow> string \<Rightarrow> bytes \<Rightarrow> int
     \<Rightarrow> replay_cursor option \<Rightarrow> 'v pg_history \<Rightarrow> int set \<Rightarrow> watch \<Rightarrow> ('v pg_history, 'v) conn_world" where
  "pg_subscribed_world cl app c auth random scope buffer started requested h unwoken wa =
     \<lparr>wd_store = h, wd_unwoken = unwoken, wd_watch = wa,
      wd_session = serve_open cl c auth random scope buffer started (Inr ()) (Inr ())
        (store_replay_cursor app c requested (ph_db h))\<rparr>"

lemma pg_subscribed_ok:
  assumes "lib_ok lib" "pg_reachable lib h" "\<not> au_ephemeral auth" "request_ok requested"
    and "wd0 = pg_subscribed_world cl app c auth random scope buffer started requested h unwoken wa"
    and "announced wa \<le> log_head (ph_log h app) c" "se_after (wd_session wd0) = Some cur"
    and "conn_run lib cl auth started c (pg_step lib) (\<lambda>h. ph_log h app) (postgres_read lib app) wd0 wd"
  shows "postgres_store.world_ok lib app c (c_position cur) wd"
proof (rule postgres_store.world_ok_run [OF assms(8) _ assms(3)])
  have "0 \<le> c_position r" if "requested = Some r" for r using assms(4) that by (simp add: request_ok_def)
  then show "postgres_store.world_ok lib app c (c_position cur) wd0"
    using assms(1-3,5-7) postgres_store.world_ok_start [of lib h auth requested _ cl c random scope buffer started "Inr ()" "Inr ()" app cur wa unwoken]
    by (simp add: pg_subscribed_world_def)
qed

lemma pg_shown:
  assumes "pg_reachable lib h"
  shows "map (shown_with lib (\<lambda>e c p. cursor_postgres p) ()) (filter P (ph_log h app)) = map snd (filter P (ph_log h app))"
proof -
  have ok: "pg_app_ok lib (ph_db h) app (ph_log h app)" using pg_reachable_ok [OF assms] by (simp add: pg_ok_def)
  show ?thesis by (rule map_cong [OF refl]) (use shown_postgres [OF _ ok, where e = "()"] in auto)
qed

section \<open>An example\<close>

definition exp_history :: "string pg_history" where
  "exp_history = fold (pgc_exec exc_lib)
     [Pg_append ''one'' ''room'' ex_payload 1 0 0 0, Pg_append ''two'' ''room'' ex_payload 2 0 0 0,
      Pg_append ''one'' ''room'' ex_payload 4 0 0 0] pg_empty"

definition exp_message :: "int \<Rightarrow> string channel_message" where
  "exp_message i = \<lparr>m_id = show_i64 i, m_event_id = None, m_channel = ''room'', m_type = pl_type ex_payload, m_data = pl_data ex_payload\<rparr>"

definition exp_opened :: "string session" where
  "exp_opened = exc_opened\<lparr>se_after := Some (cursor_postgres 1)\<rparr>"

definition exp_world :: "(string pg_history, string) conn_world" where
  "exp_world = \<lparr>wd_store = exp_history, wd_unwoken = {}, wd_watch = (Some 4, False), wd_session = exp_opened\<rparr>"

definition exp_sent :: "string session" where
  "exp_sent = exp_opened\<lparr>se_after := Some (cursor_postgres 4), se_read_replay := False, se_next_ping := 25001, se_point := At_wait,
     se_out := [Send_message (exp_message 4)]\<rparr>"

lemma exp_reachable: "pg_reachable exc_lib exp_history"
proof -
  have r1: "pg_reachable exc_lib (pgc_exec exc_lib (Pg_append ''one'' ''room'' ex_payload 1 0 0 0) pg_empty)"
    by (rule pg_reachable_exec [OF pg_reachable_empty]) (simp add: serial_fresh_def pg_empty_def i64_max_def)
  have r2: "pg_reachable exc_lib (pgc_exec exc_lib (Pg_append ''two'' ''room'' ex_payload 2 0 0 0)
      (pgc_exec exc_lib (Pg_append ''one'' ''room'' ex_payload 1 0 0 0) pg_empty))"
    by (rule pg_reachable_exec [OF r1]) (simp add: serial_fresh_def pg_empty_def i64_max_def pgc_append_def)
  show ?thesis
    unfolding exp_history_def fold.simps comp_apply id_apply
    by (rule pg_reachable_exec [OF r2]) (simp add: serial_fresh_def pg_empty_def i64_max_def pgc_append_def)
qed

lemma exp_log: "ph_log exp_history ''one'' = [(1, exp_message 1), (4, exp_message 4)]"
  by (simp add: exp_history_def pg_empty_def pgc_append_def exp_message_def Let_def)

lemma exp_log_facts: "log_head [(1, exp_message 1), (4, exp_message 4)] ''room'' = 4"
  "log_after [(1, exp_message 1), (4, exp_message 4)] ''room'' 1 = [(4, exp_message 4)]"
  by code_simp+

lemma exp_read: "store_read_after exc_lib ''one'' ''room'' (Some (cursor_postgres 1)) PAGE (ph_db exp_history) = Inr [exp_message 4]"
  by code_simp

lemma exp_resolve: "store_replay_cursor ''one'' ''room'' (Some (cursor_postgres 1)) (ph_db exp_history) = Inr (Some (cursor_postgres 1))"
  by code_simp

lemma exp_parse: "cursor_from_str exc_lib (m_id (exp_message 4)) = Inr (cursor_postgres 4)"
  by code_simp

lemma exp_subscribed:
  "exp_world = pg_subscribed_world exc_conn ''one'' ''room'' exc_auth [] [] [] 0 (Some (cursor_postgres 1)) exp_history {} (Some 4, False)"
  by (simp add: pg_subscribed_world_def exp_world_def exp_resolve serve_open_def exp_opened_def exc_opened_def exc_auth_def
      starts_with_def STORE_CHANNEL_PREFIX_def PRESENCE_CHANNEL_PREFIX_def keepalive_ms_def)

lemma exp_start_facts:
  "request_ok (Some (cursor_postgres 1))" "announced (Some 4, False) \<le> log_head (ph_log exp_history ''one'') ''room''"
  "se_after (wd_session exp_world) = Some (cursor_postgres 1)"
  by (simp_all add: request_ok_def cursor_postgres_def announced_def exp_log exp_log_facts exp_world_def exp_opened_def)

lemma exp_run:
  "conn_run exc_lib exc_conn exc_auth 0 ''room'' (pg_step exc_lib) (\<lambda>h. ph_log h ''one'') (postgres_read exc_lib ''one'') exp_world
     (exp_world\<lparr>wd_session := exp_sent\<rparr>)"
proof -
  let ?run = "conn_run exc_lib exc_conn exc_auth 0 ''room'' (pg_step exc_lib) (\<lambda>h. ph_log h ''one'') (postgres_read exc_lib ''one'')"
  let ?w = "\<lparr>cw_publish = (\<lambda>_ _ _ _. Inl Unsupported), cw_update_presence = (\<lambda>_ _ _. Inl Unsupported),
     cw_presence = (\<lambda>_ _. Inr []), cw_remove_presence = (\<lambda>_ _ _. Inl Unsupported)\<rparr>"
  have "?run exp_world (exp_world\<lparr>wd_session := session_top ?w (wd_store exp_world) False (wd_session exp_world),
      wd_watch := (if marks_seen (wd_session exp_world) \<and> \<not> False then (fst (wd_watch exp_world), False) else wd_watch exp_world)\<rparr>)"
    by (rule conn_run.conn_top [OF conn_run.conn_start]) (simp_all add: exp_world_def exp_opened_def exc_opened_def)
  from conn_run.conn_read [OF this, of 1 False] show ?thesis
    using exp_read exp_parse
    by (simp add: exp_world_def exp_opened_def exc_opened_def session_top_def session_read_def exp_sent_def exc_auth_def
        send_out_def keepalive_ms_def lifetime_ms_def marks_seen_def)
qed

text \<open>The store skips a gap for a subscriber that started on a channel without messages: it has no
  cursor, so nothing is checked.  Here a message is published and pruned before the subscriber's
  first read, which then returns the next message only.\<close>

definition exp_gap_history :: "string pg_history" where
  "exp_gap_history = fold (pgc_exec exc_lib)
     [Pg_append ''one'' ''room'' ex_payload 1 0 0 0, Pg_prune ''one'' 600001,
      Pg_append ''one'' ''room'' ex_payload 4 600001 600001 600001] pg_empty"

lemma start_without_cursor_skips_gap:
  "store_replay_cursor ''one'' ''room'' None (ph_db (pg_empty :: string pg_history)) = Inr None
   \<and> ph_log exp_gap_history ''one'' = [(1, exp_message 1), (4, exp_message 4)]
   \<and> store_read_after exc_lib ''one'' ''room'' None PAGE (ph_db exp_gap_history) = Inr [exp_message 4]
   \<and> store_read_after exc_lib ''one'' ''room'' (Some (cursor_postgres 0)) PAGE (ph_db exp_gap_history) = Inl StaleCursor"
  by (intro conjI; code_simp)

section \<open>Properties\<close>

text \<open>C22. Replay from Postgres is exact.  In every history of the shared tables, whatever other apps do
  in them and whichever fresh ids the server hands out, reading an app's channel after a cursor
  succeeds exactly if the cursor is a Postgres cursor, the channel has had a message, the position is
  not beyond the last one and every later message of the app on the channel is still there.  It then
  returns those messages, oldest first, up to the limit; in all other cases the cursor is reported
  stale.\<close>

theorem postgres_replay_exact:
  assumes "lib_ok lib" "pg_reachable lib h" "0 \<le> c_position cur"
  shows "store_read_after lib app c (Some cur) limit (ph_db h) =
    (if c_scope cur = None \<and> 0 < log_head (ph_log h app) c \<and> c_position cur \<le> log_head (ph_log h app) c
        \<and> (\<forall>x\<in>set (log_after (ph_log h app) c (c_position cur)). fst x \<in> pgm_id ` set (app_rows (ph_db h) app))
     then Inr (map snd (take (unat limit) (log_after (ph_log h app) c (c_position cur))))
     else Inl StaleCursor)"
proof -
  have "pg_app_ok lib (ph_db h) app (ph_log h app)" using pg_reachable_ok [OF assms(2)] by (simp add: pg_ok_def)
  from pg_read_cursor [OF assms(1) this assms(3)] show ?thesis
    by (auto simp: store_read_after_def pg_position_def)
qed

theorem postgres_replay_exact_witness:
  "store_read_after exc_lib ''one'' ''room'' (Some (cursor_postgres 1)) 10 (ph_db exp_history) = Inr [exp_message 4]"
proof -
  have rows: "4 \<in> pgm_id ` set (app_rows (ph_db exp_history) ''one'')"
    by (simp add: exp_history_def pg_empty_def pgc_append_def app_rows_def Let_def)
  show ?thesis
    using postgres_replay_exact [OF exc_lib_ok exp_reachable, of "cursor_postgres 1" "''one''" "''room''" 10] rows
    by (simp add: exp_log exp_log_facts cursor_postgres_def)
qed

text \<open>C23. Subscribers of the Postgres store are sent exactly the log.  Whatever all apps write and
  prune beside a connection that started from a cursor, it has been sent, in order and without a gap
  or a repetition, its app's messages on the channel between its start and its cursor; and if it waits
  with no announcement to look at and none outstanding, it has been sent all of them.\<close>

theorem postgres_subscriber_exact:
  assumes "lib_ok lib" "pg_reachable lib h" "\<not> au_ephemeral auth" "request_ok requested"
    and "wd0 = pg_subscribed_world cl app c auth random scope buffer started requested h unwoken wa"
    and "announced wa \<le> log_head (ph_log h app) c" "se_after (wd_session wd0) = Some cur"
    and "conn_run lib cl auth started c (pg_step lib) (\<lambda>h. ph_log h app) (postgres_read lib app) wd0 wd"
  shows "(\<exists>pos. se_after (wd_session wd) = Some (cursor_postgres pos) \<and> c_position cur \<le> pos
      \<and> sent_messages (se_out (wd_session wd)) = map snd (log_between (ph_log (wd_store wd) app) c (c_position cur) pos))
    \<and> (se_presence (wd_session wd) = None \<and> se_status (wd_session wd) = Serving \<and> \<not> se_read_replay (wd_session wd)
         \<and> \<not> snd (wd_watch wd) \<and> wd_unwoken wd = {} \<longrightarrow>
       sent_messages (se_out (wd_session wd)) = map snd (log_after (ph_log (wd_store wd) app) c (c_position cur)))"
proof -
  note ok = pg_subscribed_ok [OF assms]
  have reach: "pg_reachable lib (wd_store wd)" using ok unfolding postgres_store.world_ok_def by blast
  have "\<exists>pos. se_after (wd_session wd) = Some (cursor_postgres pos) \<and> c_position cur \<le> pos
      \<and> sent_messages (se_out (wd_session wd)) = map snd (log_between (ph_log (wd_store wd) app) c (c_position cur) pos)"
    using ok unfolding postgres_store.world_ok_def postgres_store.sent_upto_def log_between_def
    by (auto simp: pg_shown [OF reach])
  moreover have "sent_messages (se_out (wd_session wd)) = map snd (log_after (ph_log (wd_store wd) app) c (c_position cur))"
    if "se_presence (wd_session wd) = None" "se_status (wd_session wd) = Serving" "\<not> se_read_replay (wd_session wd)"
      "\<not> snd (wd_watch wd)" "wd_unwoken wd = {}"
    using postgres_store.nothing_slept_on [OF ok that] unfolding log_after_def by (auto simp: pg_shown [OF reach])
  ultimately show ?thesis by blast
qed

theorem postgres_subscriber_exact_witness:
  "(\<exists>pos. se_after exp_sent = Some (cursor_postgres pos) \<and> 1 \<le> pos
      \<and> [exp_message 4] = map snd (log_between [(1, exp_message 1), (4, exp_message 4)] ''room'' 1 pos))
    \<and> [exp_message 4] = map snd (log_after [(1, exp_message 1), (4, exp_message 4)] ''room'' 1)"
proof -
  let ?wd = "exp_world\<lparr>wd_session := exp_sent\<rparr>"
  have facts: "se_presence exp_sent = None" "se_status exp_sent = Serving" "\<not> se_read_replay exp_sent"
    "sent_messages (se_out exp_sent) = [exp_message 4]" "\<not> snd (wd_watch exp_world)" "wd_unwoken ?wd = {}" "wd_store ?wd = exp_history"
    "c_position (cursor_postgres 1) = 1"
    by (simp_all add: exp_world_def exp_sent_def exp_opened_def exc_opened_def cursor_postgres_def)
  show ?thesis
    using postgres_subscriber_exact [OF exc_lib_ok exp_reachable exc_start_facts(1) exp_start_facts(1) exp_subscribed exp_start_facts(2,3) exp_run]
    unfolding facts exp_log by (auto simp: facts)
qed

end
