(* ===== verification/Spec2Isabelle.thy ===== *)
theory Spec2Isabelle
  imports Prelude Routing Runs_Db In_Flight Cron Request_Drain Instances Health Cold_Start Spawner Runtime_Events
    Rolling_Update Channel_History Channel_Websocket
    Channel_Subscriber Channel_Pg_Subscriber
begin

text \<open>
  Verification development of Tako, a self-hosted application platform written in Rust: a server that
  hosts apps behind a proxy, starts and stops their instances, runs their workflows and carries their
  channels.  Sources are named relative to \<^verbatim>\<open>src/\<close>.

  \<^bold>\<open>The program and its parts.\<close>  A request is matched against the route table
  (\<^verbatim>\<open>tako-server/src/routing.rs\<close>), admitted by the drain registry (\<^verbatim>\<open>request_drain.rs\<close>) and sent to a
  healthy instance of the app by its load balancer (\<^verbatim>\<open>lb/mod.rs\<close>, \<^verbatim>\<open>instances/app.rs\<close>); if none runs, it
  leads or waits for a cold start (\<^verbatim>\<open>scaling/cold_start.rs\<close>).  Instances are started by the spawner
  (\<^verbatim>\<open>instances/spawner\<close>), watched by health checks (\<^verbatim>\<open>instances/health.rs\<close>), stopped when idle and replaced
  when dead (\<^verbatim>\<open>scaling/idle.rs\<close>, \<^verbatim>\<open>runtime_events.rs\<close>), and exchanged for those of a new build by rolling
  updates (\<^verbatim>\<open>instances/rolling.rs\<close>).  Workflow runs live in a store on SQLite or Postgres
  (\<^verbatim>\<open>tako-workflows\<close>), from which workers claim them under a limiter (\<^verbatim>\<open>in_flight.rs\<close>) and into which the
  cron ticker enqueues (\<^verbatim>\<open>cron.rs\<close>).  Channel messages live in a store on SQLite or Postgres
  (\<^verbatim>\<open>tako-channels\<close>), from which WebSocket connections replay them to subscribers.

  \<^bold>\<open>Shared theories.\<close>  \<open>Prelude\<close> has machine integers, strings and list lemmas.  \<open>Decimal\<close> has numerals as
  Rust prints and parses them.  \<open>Sql_Table\<close> has tables as lists of rows with one function per shape of
  SQL statement.

  \<^bold>\<open>Routing.\<close>  \<open>Routing\<close> models the whole of \<^verbatim>\<open>routing.rs\<close>: patterns, the compiled table sorted by
  specificity, its mutators and selection.  Selection in the compiled table equals the reference
  selection and picks a most specific match in every reachable table.

  \<^bold>\<open>Workflows.\<close>  \<open>Workflow_Store\<close> has the rows, requests and errors of \<^verbatim>\<open>enqueue.rs\<close> and \<^verbatim>\<open>schema.rs\<close>.
  \<open>Workflow_Spec\<close> is the contract of a store: one object per run, the relation \<open>astep\<close>, and the locale
  \<open>run_store\<close>, in which exclusive leases, results written once and frozen finished runs are proved once.
  \<open>Workflow_Sqlite\<close> (\<^verbatim>\<open>enqueue/sqlite.rs\<close>) and \<open>Workflow_Postgres\<close> (\<^verbatim>\<open>postgres_store.rs\<close>) have one
  function per store method; \<open>Workflow_Sqlite_Refine\<close>, \<open>Workflow_Sqlite_Signal\<close> and
  \<open>Workflow_Postgres_Refine\<close> show that they implement the contract and interpret the locale.  \<open>Runs_Db\<close> is
  the dispatch over both backends with the properties: refinement, agreement of the backends, isolation
  of the apps of a shared database, and the outcome of enqueueing, claiming, signalling and pruning.
  The order in which a database yields rows is a parameter, assumed only to yield every row once.
  \<open>In_Flight\<close> (\<^verbatim>\<open>in_flight.rs\<close>) shows that admission from cached counts is admission from the true
  ones.  \<open>Cron\<close> (\<^verbatim>\<open>cron.rs\<close>) has registration and the tick; its loop over boundaries is a
  \<open>partial_function\<close>, shown to return whenever the boundaries of the calendar, a parameter, ascend.

  \<^bold>\<open>Instances.\<close>  \<open>Instances\<close> models the objects and registry of \<^verbatim>\<open>instances/instance.rs\<close>, \<^verbatim>\<open>app.rs\<close>,
  \<^verbatim>\<open>config.rs\<close> and the load balancer: requests reach only routable instances, drained ones get none, the
  round robin is fair.  \<open>Health\<close> has one health check with its thresholds and the reading of probe answers.
  \<open>Spawner\<close> has what starting a process or container does on every outcome.  \<open>Runtime_Events\<close> has the
  idle monitor and the handlers of idle and health events.  \<open>Rolling\<close> and \<open>Rolling_Update\<close> have the whole
  update with the operations of others in every wait: it is all or nothing, routing never becomes empty
  of serving instances, and it succeeds when the new processes come up.  \<open>Cold_Start\<close> and
  \<open>Request_Drain\<close> are locked state machines with the interleavings of their callers as sequences.

  \<^bold>\<open>Channels.\<close>  \<open>Channel_Cursor\<close> has the data (\<^verbatim>\<open>types.rs\<close>, \<^verbatim>\<open>mesh.rs\<close>) and replay cursors
  (\<^verbatim>\<open>cursor.rs\<close>) with their text form.  \<open>Channel_Replay\<close> is the contract of a store: how the positions
  it keeps, its floor and its head relate to the log of everything published.  \<open>Channel_Sqlite\<close>
  (\<^verbatim>\<open>store/sqlite.rs\<close>, \<^verbatim>\<open>store/presence.rs\<close>) has every transaction and trigger on the tables;
  \<open>Channel_Sqlite_Inv\<close> and \<open>Channel_Sqlite_Replay\<close> have the invariant and the effect of each operation,
  and \<open>Channel_History\<close> the properties over all histories of a file: replay is exact or refused, budgets
  are hard bounds, events of other servers are taken once.  \<open>Channel_Postgres\<close> (\<^verbatim>\<open>store/postgres.rs\<close>,
  parts of \<^verbatim>\<open>store.rs\<close>) does the same for the tables the apps share.  \<open>Channel_Websocket\<close>
  (\<^verbatim>\<open>websocket.rs\<close>) has the frame codec on bytes.  \<open>Channel_Connection\<close> (\<^verbatim>\<open>websocket/serve.rs\<close>,
  \<^verbatim>\<open>presence.rs\<close>, \<^verbatim>\<open>close_codes.rs\<close>) has the loop of a connection, cut into functions at the points where
  others run.  \<open>Channel_Session\<close> has the interleavings of a connection with the store and the change signal
  as the relation \<open>conn_run\<close>, and the locale \<open>replay_store\<close> with what a connection relies on; in it are
  proved once that a subscriber is sent exactly the log, sleeps on nothing and catches up.
  \<open>Channel_Subscriber\<close> and \<open>Channel_Postgres\<close> interpret it on the two stores, and
  \<open>Channel_Subscriber\<close> and \<open>Channel_Pg_Subscriber\<close> state what it means for their subscribers.

  \<^bold>\<open>Correspondence.\<close>  A struct is a record, an enum a datatype, a table a list of rows.  A method of a locked
  object and a database transaction is one function from state to result and state; errors are values of
  a sum type.  Integers are words where they can wrap and \<^typ>\<open>int\<close> where the code keeps milliseconds or row
  ids, with the limits of \<^verbatim>\<open>i64\<close> written out where it checks them.  Clocks, random bytes and the answers of
  the operating system, of a database server and of third-party packages are arguments; what is assumed of
  the packages are the named predicates \<open>scans_ok\<close>, \<open>lib_ok\<close>, \<open>serial_fresh\<close> and their like, each
  satisfied by an example in a witness.

  \<^bold>\<open>Bounds and loops.\<close>  Loops are structural recursions or functions with a termination proof on the
  buffer or table they consume.  Two of the modelled loops can run for ever in principle: the cron boundaries, where
  \<open>None\<close> is not returning and the theorem shows that it returns, and the replay of a subscriber beside
  a busy writer, where \<open>replay_rounds\<close> has a number of rounds and the theorem shows that one more than the
  full pages missing suffice while the store is left alone.  Waits in a rolling update take a list of the
  operations of others, whose length stands for the deadline; every theorem is for all such lists.

  \<^bold>\<open>Not modelled.\<close>  Sockets, files, processes, TLS, DNS, container engines and the proxy framework are
  input and output or third-party code, and so are the components that drive them: server start and
  state files, isolation, certificates, backups, deployment archives, the image and network crates, the
  native agent.  The supervisor and dispatcher of workflows and the
  transports of channels are timers and sockets around the modelled stores.  Of the Postgres channel
  store, connecting and schema migrations are left out; of the channel front, threads and opening
  modes beyond the order of a commit and its announcement; of ephemeral channels, the in-memory queues.
  A write to a client's socket that fails ends its connection and is not followed further.  The command line
  tool, the client libraries linked into apps, vendored code and the website are not part of the server.
\<close>

end
